(* ===== verification/Prelude.thy ===== *)
theory Prelude
  imports Main "HOL-Library.Word" "HOL-Library.Signed_Division"
begin

text \<open>
  What the components share: the machine integer types of the C code, the result type of a
  kernel routine, the C integer conversions and the page rounding the memory system calls
  perform, the page-stepping loop, and the collections of rewrite rules the component
  theories extend.
\<close>

section \<open>Machine integers\<close>

unbundle bit_operations_syntax

type_synonym u8 = "8 word"
type_synonym u32 = "32 word"
type_synonym u64 = "64 word"

text \<open>
  C's \<open>int\<close> and \<open>long\<close>: the same words, read with \<^const>\<open>sint\<close> and compared with
  \<open><s\<close> and \<open>\<le>s\<close>.
\<close>

type_synonym i32 = "32 word"
type_synonym i64 = "64 word"

text \<open>
  The conversion C inserts when an \<open>int\<close> meets a \<open>u64\<close> (sign extension), and the one it
  inserts when the \<open>u64\<close> result is stored back in an \<open>int\<close> (truncation).
\<close>

definition sx :: "i32 \<Rightarrow> u64" where
  "sx l = scast l"

definition to_int :: "u64 \<Rightarrow> i32" where
  "to_int w = ucast w"

text \<open>C's \<open>%\<close> on \<open>int\<close>: the remainder of the division that truncates towards zero.\<close>

definition c_rem :: "i32 \<Rightarrow> int \<Rightarrow> i32" where
  "c_rem l m = word_of_int (sint l smod m)"

text \<open>
  The rounding every memory system call starts with:
  \<open>if (length % 4096 != 0) length += 4096 - length % 4096;\<close>.
\<close>

definition page_round :: "i32 \<Rightarrow> i32" where
  "page_round len =
     (if c_rem len 4096 \<noteq> 0 then len + (4096 - c_rem len 4096) else len)"

section \<open>Results of kernel routines\<close>

text \<open>
  A call returns a value, spins for ever in a loop whose exit it can no longer reach, or
  faults on a pointer it must not follow.
\<close>

datatype 'a run = Returns 'a | Hangs | Faults

definition run_bind :: "'a run \<Rightarrow> ('a \<Rightarrow> 'b run) \<Rightarrow> 'b run" where
  "run_bind r f = (case r of Returns x \<Rightarrow> f x | Hangs \<Rightarrow> Hangs | Faults \<Rightarrow> Faults)"

definition run_of_option :: "'a option \<Rightarrow> 'a run" where
  "run_of_option x = (case x of Some y \<Rightarrow> Returns y | None \<Rightarrow> Hangs)"

named_theorems run_simps \<open>rewriting of results of kernel routines\<close>

lemma run_bind_simps [simp, run_simps]:
  "run_bind (Returns x) f = f x"
  "run_bind Hangs f = Hangs"
  "run_bind Faults f = Faults"
  by (simp_all add: run_bind_def)

lemma run_of_option_simps [simp, run_simps]:
  "run_of_option (Some x) = Returns x"
  "run_of_option None = Hangs"
  by (simp_all add: run_of_option_def)

lemma run_bind_eq_Returns [run_simps]:
  "run_bind r f = Returns y \<longleftrightarrow> (\<exists>x. r = Returns x \<and> f x = Returns y)"
  by (cases r) simp_all

section \<open>Runs of a sequence of operations\<close>

text \<open>
  A component is a state with operations that return a result and the next state. A run
  performs a sequence of them; it ends early where an operation hangs or faults.
\<close>

fun run_ops :: "('op \<Rightarrow> 's \<Rightarrow> ('r \<times> 's) run) \<Rightarrow> 'op list \<Rightarrow> 's \<Rightarrow> ('r list \<times> 's) run" where
  "run_ops step [] s = Returns ([], s)"
| "run_ops step (op # ops) s =
     run_bind (step op s) (\<lambda>(r, s').
       run_bind (run_ops step ops s') (\<lambda>(rs, s''). Returns (r # rs, s'')))"

text \<open>The contract of such a component: every admissible operation keeps the invariant.\<close>

locale component =
  fixes step :: "'op \<Rightarrow> 's \<Rightarrow> ('r \<times> 's) run"
    and inv :: "'s \<Rightarrow> bool"
    and adm :: "'op \<Rightarrow> bool"
  assumes step_inv: "inv s \<Longrightarrow> adm op \<Longrightarrow> step op s = Returns (r, s') \<Longrightarrow> inv s'"
begin

lemma run_inv:
  "inv s \<Longrightarrow> \<forall>op \<in> set ops. adm op \<Longrightarrow> run_ops step ops s = Returns (rs, s') \<Longrightarrow> inv s'"
proof (induction ops arbitrary: s rs)
  case (Cons op ops)
  from Cons.prems(3) obtain r t us where "step op s = Returns (r, t)"
    "run_ops step ops t = Returns (us, s')"
    by (auto simp: run_bind_eq_Returns)
  with Cons show ?case
    by (auto intro: step_inv)
qed simp

end

text \<open>
  A component that keeps its invariant as long as the results of its operations are good.
\<close>

locale checked_component =
  fixes step :: "'op \<Rightarrow> 's \<Rightarrow> ('r \<times> 's) run"
    and inv :: "'s \<Rightarrow> bool"
    and good :: "'op \<Rightarrow> 'r \<Rightarrow> bool"
  assumes good_step: "inv s \<Longrightarrow> step op s = Returns (r, s') \<Longrightarrow> good op r \<Longrightarrow> inv s'"
begin

lemma good_run:
  "inv s \<Longrightarrow> run_ops step ops s = Returns (rs, s') \<Longrightarrow> list_all2 good ops rs \<Longrightarrow> inv s'"
proof (induction ops arbitrary: s rs)
  case (Cons op ops)
  from Cons.prems(2) obtain r t us where "step op s = Returns (r, t)"
    "run_ops step ops t = Returns (us, s')" "rs = r # us"
    by (auto simp: run_bind_eq_Returns)
  with Cons show ?case
    by (auto intro: good_step)
qed simp

end

text \<open>A component none of whose admissible operations follows a bad pointer.\<close>

locale safe_component = component +
  assumes step_no_fault: "inv s \<Longrightarrow> adm op \<Longrightarrow> step op s \<noteq> Faults"
begin

lemma run_no_fault: "inv s \<Longrightarrow> \<forall>op \<in> set ops. adm op \<Longrightarrow> run_ops step ops s \<noteq> Faults"
proof (induction ops arbitrary: s)
  case (Cons op ops)
  show ?case
  proof (cases "step op s")
    case (Returns x)
    then obtain r t where x: "step op s = Returns (r, t)"
      by (cases x) auto
    with Cons have "run_ops step ops t \<noteq> Faults"
      by (auto intro: step_inv)
    then show ?thesis
      using x by (cases "run_ops step ops t") auto
  qed (use Cons step_no_fault [of s op] in auto)
qed simp

end

text \<open>A component whose admissible operations all return.\<close>

locale total_component = component +
  assumes step_returns: "inv s \<Longrightarrow> adm op \<Longrightarrow> \<exists>r s'. step op s = Returns (r, s')"
begin

lemma run_returns:
  "inv s \<Longrightarrow> \<forall>op \<in> set ops. adm op \<Longrightarrow> \<exists>rs s'. run_ops step ops s = Returns (rs, s') \<and> inv s'"
proof (induction ops arbitrary: s)
  case (Cons op ops)
  then obtain r t where t: "step op s = Returns (r, t)"
    using step_returns [of s op] by auto
  moreover have "inv t"
    using t Cons.prems by (auto intro: step_inv)
  then obtain rs s' where "run_ops step ops t = Returns (rs, s')" "inv s'"
    using Cons.IH [of t] Cons.prems by auto
  ultimately show ?case
    by auto
qed simp

end

sublocale total_component \<subseteq> safe_component
  using step_returns by unfold_locales fastforce

text \<open>A component whose admissible operations all end, with a result or a fault.\<close>

locale ending_component = component +
  assumes step_ends: "inv s \<Longrightarrow> adm op \<Longrightarrow> step op s \<noteq> Hangs"
begin

lemma run_ends: "inv s \<Longrightarrow> \<forall>op \<in> set ops. adm op \<Longrightarrow> run_ops step ops s \<noteq> Hangs"
proof (induction ops arbitrary: s)
  case (Cons op ops)
  show ?case
  proof (cases "step op s")
    case (Returns x)
    then obtain r t where x: "step op s = Returns (r, t)"
      by (cases x) auto
    with Cons have "run_ops step ops t \<noteq> Hangs"
      by (auto intro: step_inv)
    then show ?thesis
      using x by (cases "run_ops step ops t") auto
  qed (use Cons step_ends [of s op] in auto)
qed simp

end

text \<open>A component that does what another one does wherever that one does not fault.\<close>

locale guarded_component =
  fixes guarded step :: "'op \<Rightarrow> 's \<Rightarrow> ('r \<times> 's) run"
  assumes step_same: "guarded op s \<noteq> Faults \<Longrightarrow> step op s = guarded op s"
begin

lemma run_same: "run_ops guarded ops s \<noteq> Faults \<Longrightarrow> run_ops step ops s = run_ops guarded ops s"
proof (induction ops arbitrary: s)
  case (Cons op ops)
  then have same: "step op s = guarded op s"
    by (intro step_same) auto
  show ?case
  proof (cases "guarded op s")
    case (Returns x)
    then obtain r t where x: "guarded op s = Returns (r, t)"
      by (cases x) auto
    with Cons.prems have "run_ops guarded ops t \<noteq> Faults"
      by auto
    then show ?thesis
      using Cons.IH [of t] x same by simp
  qed (use same in simp_all)
qed simp

end

section \<open>Runs of interleaved steps\<close>

text \<open>The states after \<open>k\<close> steps of a relation; a schedule may choose any of the steps.\<close>

inductive steps_from :: "('s \<Rightarrow> 's \<Rightarrow> bool) \<Rightarrow> 's \<Rightarrow> nat \<Rightarrow> 's \<Rightarrow> bool" for nxt s0 where
  start: "steps_from nxt s0 0 s0"
| step: "steps_from nxt s0 k s \<Longrightarrow> nxt s s' \<Longrightarrow> steps_from nxt s0 (Suc k) s'"

text \<open>
  The contract of processes that end under every schedule: an invariant with a bound on the
  number of steps that are left.
\<close>

locale bounded_system =
  fixes nxt :: "'s \<Rightarrow> 's \<Rightarrow> bool"
    and inv :: "'s \<Rightarrow> nat \<Rightarrow> bool"
  assumes nxt_inv: "inv s m \<Longrightarrow> nxt s s' \<Longrightarrow> \<exists>m' < m. inv s' m'"
begin

lemma runs: "steps_from nxt s0 k s \<Longrightarrow> inv s0 m0 \<Longrightarrow> \<exists>m. inv s m \<and> k + m \<le> m0"
proof (induction rule: steps_from.induct)
  case (step k s s')
  then obtain m m' where "k + m \<le> m0" "m' < m" "inv s' m'"
    using nxt_inv by blast
  then show ?case
    by (intro exI [of _ m']) simp
qed auto

lemma ends: "inv s m \<Longrightarrow> steps_from nxt s0 k s \<Longrightarrow>
    \<exists>k' s' m'. steps_from nxt s0 k' s' \<and> inv s' m' \<and> (\<forall>t. \<not> nxt s' t)"
proof (induction m arbitrary: k s rule: less_induct)
  case (less m)
  show ?case
  proof (cases "\<exists>t. nxt s t")
    case True
    then show ?thesis
      using nxt_inv [OF less.prems(1)] less.IH less.prems(2) steps_from.step by metis
  qed (use less.prems in blast)
qed

end

text \<open>
  Runs with steps that the program does not take by itself, such as spurious wake-ups: the states
  after \<open>k\<close> steps of the program and \<open>w\<close> of the others.
\<close>

inductive runs_with ::
  "('s \<Rightarrow> 's \<Rightarrow> bool) \<Rightarrow> ('s \<Rightarrow> 's \<Rightarrow> bool) \<Rightarrow> 's \<Rightarrow> nat \<Rightarrow> nat \<Rightarrow> 's \<Rightarrow> bool" for nxt idle s0 where
  start: "runs_with nxt idle s0 0 0 s0"
| step: "runs_with nxt idle s0 k w s \<Longrightarrow> nxt s s' \<Longrightarrow> runs_with nxt idle s0 (Suc k) w s'"
| idle: "runs_with nxt idle s0 k w s \<Longrightarrow> idle s s' \<Longrightarrow> runs_with nxt idle s0 k (Suc w) s'"

lemma runs_with_steps: "steps_from nxt s0 k s \<Longrightarrow> runs_with nxt idle s0 k 0 s"
  by (induction rule: steps_from.induct) (auto intro: runs_with.intros)

text \<open>The contract of processes that end when there are finitely many of the other steps.\<close>

locale disturbed_system = bounded_system nxt inv
  for nxt :: "'s \<Rightarrow> 's \<Rightarrow> bool" and inv :: "'s \<Rightarrow> nat \<Rightarrow> bool" +
  fixes idle :: "'s \<Rightarrow> 's \<Rightarrow> bool"
  assumes idle_inv: "inv s m \<Longrightarrow> idle s s' \<Longrightarrow> inv s' (Suc m)"
begin

lemma disturbed_runs:
  "runs_with nxt idle s0 k w s \<Longrightarrow> inv s0 m0 \<Longrightarrow> \<exists>m. inv s m \<and> k + m \<le> m0 + w"
proof (induction rule: runs_with.induct)
  case start
  then show ?case
    by auto
next
  case (step k w s s')
  then obtain m m' where "k + m \<le> m0 + w" "m' < m" "inv s' m'"
    using nxt_inv by blast
  then show ?case
    by (intro exI [of _ m']) simp
next
  case (idle k w s s')
  then obtain m where "k + m \<le> m0 + w" "inv s' (Suc m)"
    using idle_inv by blast
  then show ?case
    by (intro exI [of _ "Suc m"]) simp
qed

end

text \<open>
  A component that behaves like an abstract one, as long as it has room: \<open>astep\<close> performs the
  operation on the abstract state; an operation takes up at most \<open>cost\<close> of the \<open>room\<close>.
\<close>

fun run_pure :: "('op \<Rightarrow> 'a \<Rightarrow> 'r \<times> 'a) \<Rightarrow> 'op list \<Rightarrow> 'a \<Rightarrow> 'r list \<times> 'a" where
  "run_pure astep [] a = ([], a)"
| "run_pure astep (op # ops) a =
     (let (r, a') = astep op a; (rs, a'') = run_pure astep ops a' in (r # rs, a''))"

locale bounded_refinement =
  fixes step :: "'op \<Rightarrow> 's \<Rightarrow> ('r \<times> 's) run"
    and astep :: "'op \<Rightarrow> 'a \<Rightarrow> 'r \<times> 'a"
    and ok :: "'s \<Rightarrow> bool"
    and view :: "'s \<Rightarrow> 'a"
    and room :: "'s \<Rightarrow> nat"
    and cost :: "'op \<Rightarrow> nat"
    and adm :: "'op \<Rightarrow> bool"
  assumes step_refines: "ok s \<Longrightarrow> adm op \<Longrightarrow> cost op \<le> room s \<Longrightarrow>
      \<exists>s'. step op s = Returns (fst (astep op (view s)), s') \<and> ok s'
        \<and> view s' = snd (astep op (view s)) \<and> room s \<le> room s' + cost op"
begin

lemma run_refines:
  "ok s \<Longrightarrow> \<forall>op \<in> set ops. adm op \<Longrightarrow> sum_list (List.map cost ops) \<le> room s \<Longrightarrow>
    \<exists>s'. run_ops step ops s = Returns (fst (run_pure astep ops (view s)), s') \<and> ok s'
      \<and> view s' = snd (run_pure astep ops (view s))"
proof (induction ops arbitrary: s)
  case (Cons op ops)
  then obtain t where t: "step op s = Returns (fst (astep op (view s)), t)" "ok t"
    "view t = snd (astep op (view s))" "room s \<le> room t + cost op"
    using step_refines [of s op] by auto
  obtain s' where "run_ops step ops t = Returns (fst (run_pure astep ops (view t)), s')" "ok s'"
    "view s' = snd (run_pure astep ops (view t))"
    using Cons.IH [OF t(2)] Cons.prems(2,3) t(4) by auto
  then show ?case
    using t(1,3) by (simp add: case_prod_beta Let_def)
qed simp

end

section \<open>Sharing objects\<close>

text \<open>An operation applied to the elements of a list, one after the other.\<close>

fun seq_run :: "('a \<Rightarrow> 'h \<Rightarrow> 'h run) \<Rightarrow> 'a list \<Rightarrow> 'h \<Rightarrow> 'h run" where
  "seq_run f [] h = Returns h"
| "seq_run f (x # xs) h = run_bind (f x h) (seq_run f xs)"

text \<open>
  The contract of objects that are kept alive by counted references: \<open>ok h n\<close> says that the
  heap \<open>h\<close> accounts for \<open>n a\<close> references to every \<open>a\<close>; \<open>share\<close> adds one, \<open>release\<close> takes one
  away. The counters are 32 bits wide.
\<close>

locale shared_objects =
  fixes ok :: "'h \<Rightarrow> ('a \<Rightarrow> nat) \<Rightarrow> bool"
    and share release :: "'a \<Rightarrow> 'h \<Rightarrow> 'h run"
  assumes share_ok: "ok h n \<Longrightarrow> 0 < n a \<Longrightarrow> n a + 1 < 2 ^ 32 \<Longrightarrow>
      \<exists>h'. share a h = Returns h' \<and> ok h' (n(a := n a + 1))"
    and release_ok: "ok h n \<Longrightarrow> 0 < n a \<Longrightarrow> \<exists>h'. release a h = Returns h' \<and> ok h' (n(a := n a - 1))"
begin

lemma share_all:
  "ok h n \<Longrightarrow> \<forall>a \<in> set xs. 0 < n a \<Longrightarrow> \<forall>a. n a + count_list xs a < 2 ^ 32 \<Longrightarrow>
    \<exists>h'. seq_run share xs h = Returns h' \<and> ok h' (\<lambda>a. n a + count_list xs a)"
proof (induction xs arbitrary: h n)
  case (Cons x xs)
  have "n x + 1 < 2 ^ 32"
    using Cons.prems(3) [rule_format, of x] by simp
  then obtain h1 where h1: "share x h = Returns h1" "ok h1 (n(x := n x + 1))"
    using share_ok [OF Cons.prems(1), of x] Cons.prems(2) by auto
  have "\<forall>a \<in> set xs. 0 < (n(x := n x + 1)) a"
    using Cons.prems(2) by auto
  moreover have "\<forall>a. (n(x := n x + 1)) a + count_list xs a < 2 ^ 32"
    using Cons.prems(3) by (auto split: if_splits)
  ultimately obtain h' where "seq_run share xs h1 = Returns h'"
    "ok h' (\<lambda>a. (n(x := n x + 1)) a + count_list xs a)"
    using Cons.IH [OF h1(2)] by blast
  moreover have "(\<lambda>a. (n(x := n x + 1)) a + count_list xs a) = (\<lambda>a. n a + count_list (x # xs) a)"
    by (rule ext) simp
  ultimately show ?case
    using h1(1) by (metis run_bind_simps(1) seq_run.simps(2))
qed simp

lemma release_all:
  "ok h (\<lambda>a. count_list xs a + n a) \<Longrightarrow> \<exists>h'. seq_run release xs h = Returns h' \<and> ok h' n"
proof (induction xs arbitrary: h)
  case (Cons x xs)
  then obtain h1 where h1: "release x h = Returns h1"
    "ok h1 ((\<lambda>a. count_list (x # xs) a + n a)(x := count_list (x # xs) x + n x - 1))"
    using release_ok [OF Cons.prems, of x] by auto
  moreover have "(\<lambda>a. count_list (x # xs) a + n a)(x := count_list (x # xs) x + n x - 1)
      = (\<lambda>a. count_list xs a + n a)"
    by (rule ext) simp
  ultimately show ?case
    using Cons.IH [of h1] by simp
qed simp

end

section \<open>Updating a list at an index\<close>

lemma sum_list_map_update:
  fixes f :: "'a \<Rightarrow> 'b :: comm_monoid_add"
  shows "i < length xs \<Longrightarrow>
    (\<Sum>x\<leftarrow>xs[i := y]. f x) + f (xs ! i) = (\<Sum>x\<leftarrow>xs. f x) + f y"
proof (induction xs arbitrary: i)
  case (Cons z zs)
  show ?case
  proof (cases i)
    case (Suc j)
    with Cons.prems Cons.IH [of j] show ?thesis
      by (simp add: add.assoc)
  qed (simp add: add_ac)
qed simp

lemma count_list_update:
  "i < length xs \<Longrightarrow>
    count_list (xs[i := x]) y + (if xs ! i = y then 1 else 0) = count_list xs y + (if x = y then 1 else 0)"
proof (induction xs arbitrary: i)
  case (Cons z zs)
  show ?case
  proof (cases i)
    case (Suc j)
    with Cons.prems Cons.IH [of j] show ?thesis
      by (cases "x = y"; cases "zs ! j = y") simp_all
  qed simp
qed simp

section \<open>Facts about the conversions\<close>

lemma unat_plus_1: "unat (w :: u32) + 1 < 2 ^ 32 \<Longrightarrow> unat (w + 1) = unat w + 1"
  by (subst unat_add_lem [THEN iffD1]) simp_all

lemma sint_sx: "sint (sx l) = sint l"
  by (simp add: sx_def sint_up_scast is_up)

lemma sx_0 [simp]: "sx 0 = 0"
  by (simp add: sx_def)

lemma uint_sx_nonneg: "0 \<le> sint l \<Longrightarrow> uint (sx l) = sint l"
proof -
  assume "0 \<le> sint l"
  moreover have "sint l < 2 ^ 31"
    using sint_lt [of l] by simp
  ultimately have "sint l mod 2 ^ 64 = sint l"
    by (intro mod_pos_pos_trivial) simp_all
  then show ?thesis
    unfolding sx_def scast_eq uint_word_of_int by simp
qed

lemma to_int_eq: "to_int w = word_of_int (uint w)"
  by (simp add: to_int_def unsigned_of_int)

lemma to_int_word_of_int: "to_int (word_of_int k) = word_of_int k"
  by (rule bit_word_eqI) (simp add: to_int_def bit_ucast_iff bit_of_int_iff)

lemma to_int_sx [simp]: "to_int (sx l) = l"
  unfolding sx_def scast_eq to_int_word_of_int by simp

lemma sint_of_int:
  "- (2 ^ 31) \<le> k \<Longrightarrow> k < 2 ^ 31 \<Longrightarrow> sint (word_of_int k :: i32) = k"
  unfolding sint_sbintrunc'
  by (rule signed_take_bit_int_eq_self) simp_all

lemma to_int_diff:
  "to_int (sx l - w) = word_of_int (sint l - uint w)"
proof -
  have "sx l - w = word_of_int (sint l) - word_of_int (uint w)"
    unfolding sx_def scast_eq by simp
  then show ?thesis
    by (simp only: wi_hom_sub to_int_word_of_int)
qed

lemma sint_to_int_diff:
  "- (2 ^ 31) \<le> sint l - uint w \<Longrightarrow> sint l - uint w < 2 ^ 31 \<Longrightarrow>
     sint (to_int (sx l - w)) = sint l - uint w"
  unfolding to_int_diff by (rule sint_of_int)

lemma unat_sx: "0 \<le> sint l \<Longrightarrow> unat (sx l) = nat (sint l)"
  by (simp add: uint_sx_nonneg flip: nat_uint_eq)

lemma unat_sx_less: "0 \<le> sint l \<Longrightarrow> unat (sx l) < 2 ^ 31"
  using sint_lt [of l] by (simp add: unat_sx nat_less_iff)

text \<open>Adding a non-negative \<open>int\<close> to an address of the lower half does not wrap around.\<close>

lemma unat_add_sx:
  assumes "x \<le> 2 ^ 63" "0 \<le> sint l"
  shows "unat (x + sx l) = unat x + unat (sx l)"
proof -
  have "unat x \<le> 2 ^ 63"
    using assms(1) by (simp add: word_le_nat_alt)
  then show ?thesis
    using unat_sx_less [OF assms(2)] by (intro unat_add_lem [THEN iffD1]) simp
qed

lemma uint_add_sx:
  assumes "x \<le> 2 ^ 63" "0 \<le> sint l"
  shows "uint (x + sx l) = uint x + sint l"
  unfolding uint_nat unat_add_sx [OF assms] unat_sx [OF assms(2)] using assms(2) by simp

lemma add_sx_le:
  assumes "x \<le> 2 ^ 62" "0 \<le> sint l"
  shows "x + sx l \<le> 2 ^ 63"
proof -
  have "unat x \<le> 2 ^ 62"
    using assms(1) by (simp add: word_le_nat_alt)
  moreover have "x \<le> 2 ^ 63"
    by (rule order.trans [OF assms(1)]) simp
  ultimately show ?thesis
    using unat_add_sx [of x l] unat_sx_less [of l] assms(2) by (simp add: word_le_nat_alt)
qed

lemma less_add_sx:
  assumes "x \<le> 2 ^ 63" "0 < sint l"
  shows "x < x + sx l"
  using assms unat_add_sx [of x l] unat_sx [of l] by (simp add: word_less_nat_alt)

text \<open>The rounding: the next multiple of the page size, when that fits in an \<open>int\<close>.\<close>

lemma c_rem_eq: "0 \<le> sint l \<Longrightarrow> c_rem l 4096 = word_of_int (sint l mod 4096)"
  by (simp add: c_rem_def smod_mod_positive)

lemma sint_c_rem:
  assumes "0 \<le> sint l"
  shows "sint (c_rem l 4096) = sint l mod 4096"
proof -
  have "0 \<le> sint l mod 4096" "sint l mod 4096 < 4096"
    by simp_all
  then show ?thesis
    unfolding c_rem_eq [OF assms] by (intro sint_of_int) simp_all
qed

lemma round_up_div:
  "0 \<le> r \<Longrightarrow> r < 4096 \<Longrightarrow> (4096 * q + r + 4095) div 4096 = (if r = 0 then q else q + 1)"
  for q r :: int
  by (cases "r = 0") (auto intro: int_div_pos_eq [of _ _ _ "if r = 0 then 4095 else r - 1"])

lemma round_up_eq:
  "(x + 4095) div 4096 * 4096 = (if x mod 4096 = 0 then x else x + (4096 - x mod 4096))"
  for x :: int
  using round_up_div [of "x mod 4096" "x div 4096"] by (auto simp: algebra_simps)

lemma round_up_range:
  fixes x m :: int
  assumes "0 \<le> x" "x \<le> 2 ^ 31 - 4096" "1 \<le> m" "m < 4096"
  shows "- (2 ^ 31) \<le> x + (4096 - m)" "x + (4096 - m) < 2 ^ 31"
  using assms by simp_all

lemma sint_page_round:
  assumes "0 \<le> sint l" "sint l \<le> 2 ^ 31 - 4096"
  shows "sint (page_round l) = (sint l + 4095) div 4096 * 4096"
proof (cases "c_rem l 4096 = 0")
  case True
  then have "sint l mod 4096 = 0"
    using sint_c_rem [OF assms(1)] by simp
  then show ?thesis
    using True by (simp add: page_round_def round_up_eq)
next
  case False
  then have nz: "sint l mod 4096 \<noteq> 0"
    using c_rem_eq [OF assms(1)] by auto
  let ?k = "sint l + (4096 - sint l mod 4096)"
  have k: "page_round l = word_of_int ?k"
    using False c_rem_eq [OF assms(1)] by (simp add: page_round_def)
  have "0 < sint l mod 4096"
    using nz by (simp add: order_less_le)
  then have "1 \<le> sint l mod 4096" "sint l mod 4096 < 4096"
    by (simp_all only: int_one_le_iff_zero_less pos_mod_bound)
  from round_up_range [OF assms this] have "- (2 ^ 31) \<le> ?k" "?k < 2 ^ 31" .
  then have "sint (page_round l) = ?k"
    unfolding k by (rule sint_of_int)
  then show ?thesis
    using nz by (simp add: round_up_eq)
qed

text \<open>
  The lengths for which the rounding neither is trivial nor overflows: positive, and at
  least a page below the largest \<open>int\<close>.
\<close>

lemma page_round_idem:
  assumes "0 \<le> sint l" "sint l \<le> 2 ^ 31 - 4096"
  shows "page_round (page_round l) = page_round l"
proof -
  have p: "sint (page_round l) = (sint l + 4095) div 4096 * 4096"
    by (rule sint_page_round [OF assms])
  have "0 \<le> sint (page_round l)"
    unfolding p using assms(1) by simp
  from c_rem_eq [OF this] have "c_rem (page_round l) 4096 = 0"
    unfolding p by simp
  then show ?thesis
    by (simp add: page_round_def [of "page_round l"])
qed

lemma add_sx_mono:
  assumes "x \<le> y" "y \<le> 2 ^ 63" "0 \<le> sint l"
  shows "x + sx l \<le> y + sx l"
proof -
  have "x \<le> 2 ^ 63"
    using assms by (meson order.trans)
  with assms show ?thesis
    by (simp add: word_le_nat_alt unat_add_sx)
qed

definition length_ok :: "i32 \<Rightarrow> bool" where
  "length_ok len \<longleftrightarrow> 0 < sint len \<and> sint len \<le> 2 ^ 31 - 4096"

lemma length_ok_page_round:
  assumes "length_ok len"
  shows "0 < sint (page_round len)" "page_round (page_round len) = page_round len"
    "sint len \<le> sint (page_round len)"
proof -
  have p: "sint (page_round len) = (sint len + 4095) div 4096 * 4096"
    using assms by (intro sint_page_round) (simp_all add: length_ok_def)
  show "page_round (page_round len) = page_round len"
    using assms by (intro page_round_idem) (simp_all add: length_ok_def)
  show "sint len \<le> sint (page_round len)"
    unfolding p round_up_eq using pos_mod_bound [of 4096 "sint len"] by (simp add: order_less_imp_le)
  then show "0 < sint (page_round len)"
    using assms by (simp add: length_ok_def)
qed


section \<open>Loops over the pages of a range\<close>

text \<open>
  \<open>while (cur_addr < limit) { body; cur_addr += 4096; }\<close> with \<open>u64\<close> addresses. The addition
  wraps around, so the loop may run for ever; \<^const>\<open>None\<close> says that it does.
\<close>

partial_function (option) page_loop :: "(u64 \<Rightarrow> 'k \<Rightarrow> 'k) \<Rightarrow> u64 \<Rightarrow> u64 \<Rightarrow> 'k \<Rightarrow> 'k option" where
  "page_loop body cur limit k =
     (if cur < limit then page_loop body (cur + 4096) limit (body cur k) else Some k)"

declare page_loop.simps [code]

text \<open>The addresses the loop visits, when it does not wrap around.\<close>

definition pages :: "u64 \<Rightarrow> u64 \<Rightarrow> u64 list" where
  "pages lo hi =
     map (\<lambda>i. lo + 4096 * of_nat i) [0..<(unat hi - unat lo + 4095) div 4096]"

lemma pages_empty: "hi \<le> lo \<Longrightarrow> pages lo hi = []"
  by (simp add: pages_def word_le_nat_alt)

lemma page_count_step:
  fixes d :: nat
  assumes "0 < d"
  shows "(d + 4095) div 4096 = Suc ((d - 4096 + 4095) div 4096)"
proof -
  have "d + 4095 = 4096 + (d - 1)"
    using assms by simp
  then have "(d + 4095) div 4096 = Suc ((d - 1) div 4096)"
    by simp
  then show ?thesis
    using assms by (cases "d \<le> 4096") simp_all
qed

lemma pages_step:
  assumes "lo < hi" "hi \<le> 2 ^ 63"
  shows "pages lo hi = lo # pages (lo + 4096) hi"
proof -
  have u: "unat lo < unat hi" "unat hi \<le> 2 ^ 63"
    using assms by (simp_all add: word_less_nat_alt word_le_nat_alt)
  then have n: "unat (lo + 4096) = unat lo + 4096"
    by (subst unat_add_lem [THEN iffD1]) simp_all
  let ?n = "(unat hi - unat (lo + 4096) + 4095) div 4096"
  have "(unat hi - unat lo + 4095) div 4096 = Suc ?n"
    unfolding n diff_diff_left [symmetric] by (rule page_count_step) (use u(1) in simp)
  then show ?thesis
    unfolding pages_def by (simp only: map_upt_Suc) (simp add: distrib_left add.assoc)
qed

lemma page_loop_pages:
  assumes "hi \<le> 2 ^ 63"
  shows "page_loop body lo hi k = Some (fold body (pages lo hi) k)"
proof (induction "unat hi - unat lo" arbitrary: lo k rule: less_induct)
  case less
  show ?case
  proof (cases "lo < hi")
    case True
    then have u: "unat lo < unat hi" "unat hi \<le> 2 ^ 63"
      using assms by (simp_all add: word_less_nat_alt word_le_nat_alt)
    then have "unat (lo + 4096) = unat lo + 4096"
      by (subst unat_add_lem [THEN iffD1]) simp_all
    then have "unat hi - unat (lo + 4096) < unat hi - unat lo"
      using u by simp
    from less [OF this] show ?thesis
      using True pages_step [OF True assms] by (subst page_loop.simps) simp
  next
    case False
    then show ?thesis
      by (subst page_loop.simps) (simp add: pages_empty)
  qed
qed

lemma pages_range:
  assumes "a \<in> set (pages lo hi)"
  shows "lo \<le> a \<and> a < hi"
proof -
  obtain i where "i \<in> set [0..<(unat hi - unat lo + 4095) div 4096]"
    and a: "a = lo + 4096 * of_nat i"
    using assms unfolding pages_def set_map by (elim imageE) (rule that)
  then have "i < (unat hi - unat lo + 4095) div 4096"
    by simp
  then have "unat lo + 4096 * i < unat hi"
    by linarith
  moreover have "unat hi < 2 ^ 64"
    using unsigned_less [of hi, where ?'a = nat] by simp
  ultimately have "unat a = unat lo + 4096 * i"
    using a by (simp add: unat_word_ariths unat_of_nat)
  then show ?thesis
    using \<open>unat lo + 4096 * i < unat hi\<close> by (simp add: word_le_nat_alt word_less_nat_alt)
qed

end
