(* ===== verification/Vm_Area.thy ===== *)
theory Vm_Area
  imports Prelude
begin

text \<open>
  The data of \<open>src/Assignment3/mmap.c\<close>: the \<open>vm_area\<close> list of a process, the macros and the
  paging routines it takes from the kernel's headers, and the page-table loops \<open>map\<close>,
  \<open>unmap\<close> and \<open>update_map\<close>. The \<open>vm_next\<close> chain is a HOL list: every node is reached by
  exactly one link (the context's head or its predecessor), so a pointer into the chain is a
  position in the list. On top of it stands the abstract view of an address space, the
  partial function \<open>perm_at\<close> from addresses to access flags, with the well-formedness of a
  chain (sorted, disjoint, non-empty areas within bounds) that the system calls keep.
\<close>

section \<open>Data\<close>

record vm_area =
  vm_start :: u64
  vm_end :: u64
  access_flags :: u32

text \<open>The macros of \<open>mmap.h\<close> the code uses; the header is not part of the repository.\<close>

record mm_config =
  MMAP_AREA_START :: u64
  MMAP_AREA_END :: u64
  PROT_READ :: u32
  PROT_WRITE :: u32
  MAP_FIXED :: u32
  MAP_POPULATE :: u32

text \<open>The fields of \<open>struct exec_context\<close> that \<open>mmap.c\<close> uses.\<close>

record exec_context =
  pgd :: u64
  vm_areas :: "vm_area list"

text \<open>
  The kernel's paging routines, over an abstract state \<open>'k\<close> of page tables and memory:
  \<open>osmap\<close>, \<open>map_physical_page(base, addr, prot, pfn)\<close> with the frame it returns,
  \<open>do_unmap_user\<close> and \<open>get_user_pte\<close> (for the context's \<open>pgd\<close>; \<^const>\<open>None\<close> is the null
  pointer, otherwise the entry's content), and the \<open>invlpg\<close> instruction.
\<close>

record 'k mmu =
  osmap :: "u64 \<Rightarrow> u64"
  map_physical_page :: "u64 \<Rightarrow> u64 \<Rightarrow> u32 \<Rightarrow> u32 \<Rightarrow> 'k \<Rightarrow> u32 \<times> 'k"
  do_unmap_user :: "u64 \<Rightarrow> u64 \<Rightarrow> 'k \<Rightarrow> 'k"
  get_user_pte :: "u64 \<Rightarrow> u64 \<Rightarrow> 'k \<Rightarrow> u64 option"
  invlpg :: "u64 \<Rightarrow> 'k \<Rightarrow> 'k"

definition new_vm :: "u64 \<Rightarrow> u64 \<Rightarrow> u32 \<Rightarrow> vm_area" where
  "new_vm s e prot = \<lparr>vm_start = s, vm_end = e, access_flags = prot\<rparr>"

section \<open>The page-table loops\<close>

definition page_prot :: "mm_config \<Rightarrow> u32 \<Rightarrow> u32" where
  "page_prot cfg flags =
     (if flags AND PROT_WRITE cfg \<noteq> 0 then PROT_READ cfg OR PROT_WRITE cfg else PROT_READ cfg)"

definition map_page :: "'k mmu \<Rightarrow> u64 \<Rightarrow> u32 \<Rightarrow> u64 \<Rightarrow> 'k \<Rightarrow> 'k" where
  "map_page mmu base prot cur k =
     invlpg mmu cur (snd (map_physical_page mmu (osmap mmu base) cur prot 0 k))"

definition map_range ::
  "mm_config \<Rightarrow> 'k mmu \<Rightarrow> u64 \<Rightarrow> u64 \<Rightarrow> u32 \<Rightarrow> i32 \<Rightarrow> 'k \<Rightarrow> 'k option" where
  "map_range cfg mmu base addr flags len k =
     page_loop (map_page mmu base (page_prot cfg flags)) addr (addr + sx len) k"

definition unmap_range :: "'k mmu \<Rightarrow> exec_context \<Rightarrow> u64 \<Rightarrow> i32 \<Rightarrow> 'k \<Rightarrow> 'k option" where
  "unmap_range mmu ctx addr len k =
     page_loop (do_unmap_user mmu (pgd ctx)) addr (addr + sx len) k"

definition update_page :: "'k mmu \<Rightarrow> exec_context \<Rightarrow> u32 \<Rightarrow> u64 \<Rightarrow> 'k \<Rightarrow> 'k" where
  "update_page mmu ctx prot cur k =
     (case get_user_pte mmu (pgd ctx) cur k of
        None \<Rightarrow> k
      | Some pte \<Rightarrow> map_page mmu (pgd ctx) prot cur k)"

definition update_map ::
  "mm_config \<Rightarrow> 'k mmu \<Rightarrow> exec_context \<Rightarrow> u64 \<Rightarrow> u32 \<Rightarrow> i32 \<Rightarrow> 'k \<Rightarrow> 'k option" where
  "update_map cfg mmu ctx addr flags len k =
     page_loop (update_page mmu ctx (page_prot cfg flags)) addr (addr + sx len) k"

section \<open>Finding the area of an address\<close>

text \<open>The search loops stop at the first area that holds the address.\<close>

fun find_vm :: "vm_area list \<Rightarrow> u64 \<Rightarrow> vm_area option" where
  "find_vm [] addr = None"
| "find_vm (v # vs) addr =
     (if vm_start v \<le> addr \<and> addr < vm_end v then Some v else find_vm vs addr)"

definition perm_at :: "vm_area list \<Rightarrow> u64 \<Rightarrow> u32 option" where
  "perm_at vms addr = map_option access_flags (find_vm vms addr)"

lemma perm_at_Nil [simp]: "perm_at [] a = None"
  by (simp add: perm_at_def)

lemma perm_at_Cons [simp]:
  "perm_at (v # vs) a =
     (if vm_start v \<le> a \<and> a < vm_end v then Some (access_flags v) else perm_at vs a)"
  by (simp add: perm_at_def)

lemma perm_at_append:
  "perm_at (us @ vs) a = (case perm_at us a of Some p \<Rightarrow> Some p | None \<Rightarrow> perm_at vs a)"
  by (induction us) auto

section \<open>Well-formed chains\<close>

text \<open>\<open>vms_in lo hi vms\<close>: non-empty areas, in order, disjoint, all within \<open>[lo, hi)\<close>.\<close>

fun vms_in :: "u64 \<Rightarrow> u64 \<Rightarrow> vm_area list \<Rightarrow> bool" where
  "vms_in lo hi [] = (lo \<le> hi)"
| "vms_in lo hi (v # vs) = (lo \<le> vm_start v \<and> vm_start v < vm_end v \<and> vms_in (vm_end v) hi vs)"

lemma vms_in_le: "vms_in lo hi vms \<Longrightarrow> lo \<le> hi"
  by (induction vms arbitrary: lo) (auto, fastforce)

lemma vms_in_mono: "vms_in lo hi vms \<Longrightarrow> lo' \<le> lo \<Longrightarrow> hi \<le> hi' \<Longrightarrow> vms_in lo' hi' vms"
  by (induction vms arbitrary: lo lo') auto

lemma vms_in_append_Cons:
  "vms_in lo hi (us @ v # vs) \<longleftrightarrow>
     vms_in lo (vm_start v) us \<and> vm_start v < vm_end v \<and> vms_in (vm_end v) hi vs"
  by (induction us arbitrary: lo) auto

lemma vms_in_append:
  "vms_in lo m us \<Longrightarrow> vms_in m hi vs \<Longrightarrow> vms_in lo hi (us @ vs)"
  by (induction us arbitrary: lo) (auto intro: vms_in_mono)

lemma vms_in_appendD:
  "vms_in lo hi (us @ vs) \<Longrightarrow> \<exists>m. vms_in lo m us \<and> vms_in m hi vs"
proof (induction us arbitrary: lo)
  case Nil
  then show ?case
    by (auto intro: exI [of _ lo])
qed auto

lemma perm_at_outside:
  "vms_in lo hi vms \<Longrightarrow> a < lo \<or> hi \<le> a \<Longrightarrow> perm_at vms a = None"
proof (induction vms arbitrary: lo)
  case (Cons v vs)
  have "vm_end v \<le> hi"
    using Cons.prems(1) by (auto dest: vms_in_le)
  moreover have "a < vm_start v \<and> a < vm_end v \<or> hi \<le> a"
    using Cons.prems by auto
  moreover from this have "perm_at vs a = None"
    using Cons by auto
  ultimately show ?case
    by auto
qed simp

lemma find_vm_set: "find_vm vms a = Some v \<Longrightarrow> v \<in> set vms"
  by (induction vms) (auto split: if_splits)

lemma vms_in_set:
  "vms_in lo hi vms \<Longrightarrow> v \<in> set vms \<Longrightarrow> lo \<le> vm_start v \<and> vm_start v < vm_end v \<and> vm_end v \<le> hi"
proof (induction vms arbitrary: lo)
  case (Cons u us)
  then show ?case
    by (cases "v = u") (auto dest: vms_in_le, (meson order.strict_implies_order order.trans)+)
qed simp

section \<open>Splitting the chain at an address\<close>

text \<open>
  \<open>while (cur_vm != NULL && addr >= cur_vm->vm_end) { prev_vm = cur_vm; cur_vm = cur_vm->vm_next; }\<close>
  splits the chain: the areas passed, of which the last is \<open>prev_vm\<close>, and those from
  \<open>cur_vm\<close> on.
\<close>

definition split_vms :: "u64 \<Rightarrow> vm_area list \<Rightarrow> vm_area list \<times> vm_area list" where
  "split_vms addr vms =
     (takeWhile (\<lambda>v. addr \<ge> vm_end v) vms, dropWhile (\<lambda>v. addr \<ge> vm_end v) vms)"

lemma vms_in_below:
  "vms_in lo hi vms \<Longrightarrow> (\<And>v. v \<in> set vms \<Longrightarrow> vm_end v \<le> x) \<Longrightarrow> lo \<le> x \<Longrightarrow> vms_in lo x vms"
  by (induction vms arbitrary: lo) auto

lemma split_vms_append: "split_vms addr vms = (pre, suf) \<Longrightarrow> vms = pre @ suf"
  by (auto simp: split_vms_def)

lemma split_vms_suf: "split_vms addr vms = (pre, cur # rest) \<Longrightarrow> addr < vm_end cur"
  by (auto simp: split_vms_def dropWhile_eq_Cons_conv)

lemma split_vms_pre:
  assumes "split_vms addr vms = (pre, suf)" "vms_in lo hi vms" "lo \<le> addr"
  shows "vms_in lo addr pre"
proof -
  have "vms = pre @ suf"
    by (rule split_vms_append [OF assms(1)])
  with assms(2) obtain m where "vms_in lo m pre"
    using vms_in_appendD by blast
  moreover have "vm_end v \<le> addr" if "v \<in> set pre" for v
    using assms(1) that by (auto simp: split_vms_def dest: set_takeWhileD)
  ultimately show ?thesis
    using assms(3) by (rule vms_in_below)
qed

lemma split_vms_rest:
  assumes "split_vms addr vms = (pre, cur # rest)" "vms_in lo hi vms" "addr \<le> vm_start cur"
  shows "vms_in addr hi (cur # rest)"
proof -
  have "vms = pre @ cur # rest"
    by (rule split_vms_append [OF assms(1)])
  with assms(2,3) show ?thesis
    by (simp add: vms_in_append_Cons)
qed

section \<open>Admissible configurations and address spaces\<close>

text \<open>
  What the code relies on of the macros: the mmap area is a non-empty range that lies in the
  lower part of the address space and whose size is an \<open>int\<close> (the kernel's header gives it
  1 GB).
\<close>

definition mm_config_ok :: "mm_config \<Rightarrow> bool" where
  "mm_config_ok cfg \<longleftrightarrow>
     0 < MMAP_AREA_START cfg \<and> MMAP_AREA_START cfg < MMAP_AREA_END cfg
     \<and> MMAP_AREA_END cfg \<le> 2 ^ 62
     \<and> MMAP_AREA_END cfg - MMAP_AREA_START cfg \<le> 2 ^ 31 - 4096"

text \<open>The address space of a process: a well-formed chain of at most 128 areas.\<close>

definition vms_ok :: "mm_config \<Rightarrow> vm_area list \<Rightarrow> bool" where
  "vms_ok cfg vms \<longleftrightarrow>
     vms_in (MMAP_AREA_START cfg) (MMAP_AREA_END cfg) vms \<and> length vms \<le> 128"

lemma mm_config_fits:
  assumes "mm_config_ok cfg" "length_ok len" "x \<le> MMAP_AREA_END cfg"
  shows "x < x + sx (page_round len)"
proof (rule less_add_sx)
  have "(2::u64) ^ 62 \<le> 2 ^ 63"
    by simp
  then show "x \<le> 2 ^ 63"
    using assms(1,3) unfolding mm_config_ok_def by (meson order.trans)
qed (use assms length_ok_page_round in auto)

section \<open>The length that is left\<close>

text \<open>
  The walks move the address to an area boundary and reduce the length by the distance, so
  that address plus length stays the end of the range; a length that is not positive means
  that the boundary lies behind the range.
\<close>

lemma rest_length:
  assumes "0 < sint len" "a \<le> s" "s \<le> hi" "hi \<le> 2 ^ 62" "lo \<le> a + sx len"
    and "hi - lo \<le> 2 ^ 31 - 4096" "lo \<le> hi"
  shows "s < a + sx len \<Longrightarrow>
      0 < sint (to_int (sx len - (s - a))) \<and> s + sx (to_int (sx len - (s - a))) = a + sx len"
    and "a + sx len \<le> s \<Longrightarrow> sint (to_int (sx len - (s - a))) \<le> 0"
proof -
  have h: "(2::u64) ^ 62 \<le> 2 ^ 63"
    by simp
  have le63: "x \<le> 2 ^ 63" if "x \<le> hi" for x
    using that assms(4) h by (meson order.trans)
  have a: "a \<le> hi"
    using assms(2,3) by (rule order.trans)
  have d: "uint (s - a) = uint s - uint a"
    using assms(2) by (simp add: uint_minus_simple_alt)
  have "uint (hi - lo) = uint hi - uint lo"
    using assms(7) by (simp add: uint_minus_simple_alt)
  then have hl: "uint hi - uint lo \<le> 2 ^ 31 - 4096"
    using assms(6) by (simp add: word_le_def)
  have e: "uint (a + sx len) = uint a + sint len"
    using assms(1) by (intro uint_add_sx le63 [OF a]) simp
  have u: "uint s \<le> uint hi" "uint lo \<le> uint a + sint len" "uint a \<le> uint s"
    using assms(2,3,5) unfolding word_le_def e by simp_all
  have l31: "sint len < 2 ^ 31"
    using sint_lt [of len] by simp
  have r: "sint (to_int (sx len - (s - a))) = sint len - (uint s - uint a)"
    using u hl l31 sint_to_int_diff [of len "s - a"] unfolding d by simp
  {
    assume "s < a + sx len"
    then have pos: "0 < sint len - (uint s - uint a)"
      unfolding word_less_def e by simp
    then have "uint (s + sx (to_int (sx len - (s - a)))) = uint (a + sx len)"
      unfolding e by (subst uint_add_sx [OF le63 [OF assms(3)]]) (simp_all add: r)
    with pos show "0 < sint (to_int (sx len - (s - a)))
        \<and> s + sx (to_int (sx len - (s - a))) = a + sx len"
      unfolding r by (simp add: word_uint_eq_iff)
  next
    assume "a + sx len \<le> s"
    then show "sint (to_int (sx len - (s - a))) \<le> 0"
      unfolding word_le_def e r by simp
  }
qed

section \<open>Regions\<close>

text \<open>
  \<open>region_mapped lo hi prot vms vms'\<close>: the abstract effect of a mapping. The addresses of
  \<open>[lo, hi)\<close> were free and now have the flags \<open>prot\<close>; every other address is as before.
\<close>

definition region_mapped :: "u64 \<Rightarrow> u64 \<Rightarrow> u32 \<Rightarrow> vm_area list \<Rightarrow> vm_area list \<Rightarrow> bool" where
  "region_mapped lo hi prot vms vms' \<longleftrightarrow>
     (\<forall>a. perm_at vms' a = (if lo \<le> a \<and> a < hi then Some prot else perm_at vms a))
     \<and> (\<forall>a. lo \<le> a \<longrightarrow> a < hi \<longrightarrow> perm_at vms a = None)"

lemma region_mapped_cong_prefix:
  assumes "region_mapped lo hi prot vms vms'" "\<And>a. lo \<le> a \<Longrightarrow> a < hi \<Longrightarrow> perm_at pre a = None"
  shows "region_mapped lo hi prot (pre @ vms) (pre @ vms')"
  using assms by (auto simp: region_mapped_def perm_at_append split: option.splits)

lemma region_mapped_append:
  assumes "region_mapped lo hi p vs vs'" "vms_in b lo pre"
  shows "region_mapped lo hi p (pre @ vs) (pre @ vs')"
  using assms perm_at_outside [OF assms(2)] by (intro region_mapped_cong_prefix) auto

lemma new_vm_sel [simp]:
  "vm_start (new_vm s e p) = s" "vm_end (new_vm s e p) = e" "access_flags (new_vm s e p) = p"
  by (simp_all add: new_vm_def)

text \<open>Growing or creating an area in the gap between \<open>lo\<close> and the chain \<open>vs\<close>.\<close>

lemma region_mapped_front:
  assumes "vms_in hi b vs" "lo < hi"
  shows "region_mapped lo hi p vs (new_vm lo hi p # vs)"
  using assms perm_at_outside [OF assms(1)]
  by (auto simp: region_mapped_def)

lemma region_mapped_join_next:
  assumes "vms_in b hi2 (v # vs)" "lo < vm_start v" "access_flags v = p"
  shows "region_mapped lo (vm_start v) p (v # vs) (v\<lparr>vm_start := lo\<rparr> # vs)"
proof -
  have "perm_at vs a = None" if "a < vm_start v" for a
    by (rule perm_at_outside [of "vm_end v" hi2]) (use assms that in auto)
  with assms show ?thesis
    by (auto simp: region_mapped_def)
qed

lemma region_mapped_join_prev:
  assumes "vms_in hi b vs" "vm_start v < vm_end v" "vm_end v < hi" "access_flags v = p"
  shows "region_mapped (vm_end v) hi p (v # vs) (v\<lparr>vm_end := hi\<rparr> # vs)"
  using assms perm_at_outside [of hi b vs]
  by (auto simp: region_mapped_def)

lemma region_mapped_join_both:
  assumes "vms_in (vm_start w) b (w # vs)" "vm_start v < vm_end v" "vm_end v < vm_start w"
    "access_flags v = p" "access_flags w = p"
  shows "region_mapped (vm_end v) (vm_start w) p (v # w # vs) (v\<lparr>vm_end := vm_end w\<rparr> # vs)"
proof -
  have "perm_at vs a = None" if "a < vm_start w" for a
    by (rule perm_at_outside [of "vm_end w" b]) (use assms that in auto)
  with assms show ?thesis
    by (auto simp: region_mapped_def)
qed

lemma region_mapped_Cons:
  assumes "region_mapped lo hi p vs vs'" "vm_end v \<le> lo"
  shows "region_mapped lo hi p (v # vs) (v # vs')"
  using assms by (auto simp: region_mapped_def)

definition window_free :: "vm_area list \<Rightarrow> u64 \<Rightarrow> u64 \<Rightarrow> bool" where
  "window_free vms lo hi \<longleftrightarrow> (\<forall>a. lo \<le> a \<longrightarrow> a < hi \<longrightarrow> perm_at vms a = None)"

lemma window_free_Cons:
  assumes "vm_end v \<le> lo"
  shows "window_free (v # vs) lo hi \<longleftrightarrow> window_free vs lo hi"
proof -
  have "\<not> a < vm_end v" if "lo \<le> a" for a
    using assms that by auto
  then show ?thesis
    by (auto simp: window_free_def)
qed

lemma window_free_before:
  assumes "vms_in hi b vs"
  shows "window_free vs lo hi"
  using perm_at_outside [OF assms] by (auto simp: window_free_def)

text \<open>A free window that does not end before an area starts lies behind it.\<close>

lemma window_free_behind:
  assumes "window_free (v # vs) lo hi" "lo < hi" "vm_start v < vm_end v" "vm_start v < hi"
  shows "vm_end v \<le> lo"
proof (rule ccontr)
  assume "\<not> vm_end v \<le> lo"
  let ?a = "max lo (vm_start v)"
  have "lo \<le> ?a" "?a < hi"
    using assms by auto
  then have "perm_at (v # vs) ?a = None"
    using assms(1) unfolding window_free_def by blast
  moreover have "vm_start v \<le> ?a" "?a < vm_end v"
    using \<open>\<not> vm_end v \<le> lo\<close> assms(3) by auto
  ultimately show False
    by simp
qed


section \<open>A concrete kernel\<close>

text \<open>
  Concrete macros and paging routines, at which the hypotheses of the theorems hold: a mmap
  area of 1 GB, and a page table that is an association list from page addresses to
  protections.
\<close>

definition example_cfg :: mm_config where
  "example_cfg = \<lparr>MMAP_AREA_START = 6442450944, MMAP_AREA_END = 7516192768,
     PROT_READ = 1, PROT_WRITE = 2, MAP_FIXED = 1, MAP_POPULATE = 2\<rparr>"

definition example_mmu :: "(u64 \<times> u32) list mmu" where
  "example_mmu = \<lparr>osmap = id,
     map_physical_page = (\<lambda>base a prot pfn k. (pfn, (a, prot) # filter (\<lambda>e. fst e \<noteq> a) k)),
     do_unmap_user = (\<lambda>base a. filter (\<lambda>e. fst e \<noteq> a)),
     get_user_pte = (\<lambda>base a k. map_option ucast (map_of k a)),
     invlpg = (\<lambda>a k. k)\<rparr>"

definition example_ctx :: "vm_area list \<Rightarrow> exec_context" where
  "example_ctx vms = \<lparr>pgd = 4096, vm_areas = vms\<rparr>"

lemma example_cfg_ok: "mm_config_ok example_cfg"
  by (simp add: mm_config_ok_def example_cfg_def)

lemma example_areas_ok:
  "vms_ok example_cfg [new_vm 6442450944 6442463232 3, new_vm 6442471424 6442475520 1]"
  by (simp add: vms_ok_def example_cfg_def)

end
