(* ===== verification/Vm_Map.thy ===== *)
theory Vm_Map
  imports Vm_Area
begin

text \<open>
  \<open>vm_area_map\<close> of \<open>src/Assignment3/mmap.c\<close>: choosing a place for a new region with and
  without a hint address, merging it with its neighbours, and populating it. The choice of
  the place is a value of type \<open>placement\<close>; \<open>vm_area_map\<close> acts on it and follows the
  retries.
\<close>

section \<open>The code\<close>

text \<open>
  How a placement attempt ends: the chain with the region in it and the value of
  \<open>ret_addr\<close>; \<open>return -1\<close> (or falling through with \<open>ret_addr\<close> still \<open>-1\<close>, which changes
  nothing either); the call of \<open>vm_area_map\<close> at another address; a loop without an exit; a
  null pointer dereference.
\<close>

datatype placement =
    Placed "vm_area list" u64
  | Refused
  | Retry u64
  | Spin
  | Crash

text \<open>The \<open>while(1)\<close> search for a gap behind \<open>cur_vm\<close>.\<close>

fun map_gap :: "mm_config \<Rightarrow> nat \<Rightarrow> i32 \<Rightarrow> u32 \<Rightarrow> vm_area list \<Rightarrow> placement" where
  "map_gap cfg n len prot [] = Crash"
| "map_gap cfg n len prot [cur] =
     (if vm_end cur + sx len \<le> MMAP_AREA_END cfg then
        (if prot = access_flags cur then
           Placed [cur\<lparr>vm_end := vm_end cur + sx len\<rparr>] (vm_end cur)
         else if n \<ge> 128 then Refused
         else Placed [cur, new_vm (vm_end cur) (vm_end cur + sx len) prot] (vm_end cur))
      else Spin)"
| "map_gap cfg n len prot (cur # next # rest) =
     (if vm_end cur + sx len \<le> vm_start next then
        (if vm_end cur + sx len = vm_start next
            \<and> access_flags cur = prot \<and> access_flags next = prot then
           Placed (cur\<lparr>vm_end := vm_end next\<rparr> # rest) (vm_end cur + sx len)
         else if access_flags cur = prot then
           Placed (cur\<lparr>vm_end := vm_end cur + sx len\<rparr> # next # rest) (vm_end cur)
         else if vm_end cur + sx len = vm_start next \<and> access_flags next = prot then
           Placed (cur # next\<lparr>vm_start := vm_end cur\<rparr> # rest) (vm_end cur)
         else if n \<ge> 128 then Refused
         else Placed (cur # new_vm (vm_end cur) (vm_end cur + sx len) prot # next # rest)
                (vm_end cur))
      else
        (case map_gap cfg n len prot (next # rest) of
           Placed vms r \<Rightarrow> Placed (cur # vms) r
         | Refused \<Rightarrow> Refused | Retry a \<Rightarrow> Retry a | Spin \<Rightarrow> Spin | Crash \<Rightarrow> Crash))"

definition map_nohint ::
  "mm_config \<Rightarrow> nat \<Rightarrow> vm_area list \<Rightarrow> i32 \<Rightarrow> u32 \<Rightarrow> placement" where
  "map_nohint cfg n vms len prot =
     (let start = MMAP_AREA_START cfg in
      case vms of
        [] \<Rightarrow>
          if start + sx len \<le> MMAP_AREA_END cfg then
            (if n \<ge> 128 then Refused else Placed [new_vm start (start + sx len) prot] start)
          else Refused
      | cur # rest \<Rightarrow>
          if vm_start cur > start \<and> start + sx len \<le> vm_start cur then
            (if prot = access_flags cur \<and> start + sx len = vm_start cur then
               Placed (cur\<lparr>vm_start := start\<rparr> # rest) start
             else if n \<ge> 128 then Refused
             else Placed (new_vm start (start + sx len) prot # cur # rest) start)
          else map_gap cfg n len prot (cur # rest))"

definition map_between ::
  "nat \<Rightarrow> vm_area list \<Rightarrow> vm_area \<Rightarrow> vm_area list \<Rightarrow> u64 \<Rightarrow> i32 \<Rightarrow> u32 \<Rightarrow> placement" where
  "map_between n pre cur rest addr len prot =
     (if pre = [] then Crash
      else
        (let prev = last pre; before = butlast pre in
         if addr = vm_end prev \<and> addr + sx len = vm_start cur
            \<and> prot = access_flags prev \<and> prot = access_flags cur then
           Placed (before @ prev\<lparr>vm_end := vm_end cur\<rparr> # rest) addr
         else if addr = vm_end prev \<and> prot = access_flags prev then
           Placed (before @ prev\<lparr>vm_end := addr + sx len\<rparr> # cur # rest) addr
         else if addr + sx len = vm_start cur \<and> prot = access_flags cur then
           Placed (pre @ cur\<lparr>vm_start := addr\<rparr> # rest) addr
         else if n \<ge> 128 then Refused
         else Placed (pre @ new_vm addr (addr + sx len) prot # cur # rest) addr))"

definition map_hint ::
  "mm_config \<Rightarrow> nat \<Rightarrow> vm_area list \<Rightarrow> u64 \<Rightarrow> i32 \<Rightarrow> u32 \<Rightarrow> u32 \<Rightarrow> placement" where
  "map_hint cfg n vms addr len prot flags =
     (if addr < MMAP_AREA_START cfg \<or> addr > MMAP_AREA_END cfg then Refused
      else if addr + sx len > MMAP_AREA_END cfg then
        (if flags = MAP_FIXED cfg then Refused else Retry 0)
      else if vms = [] \<or> addr + sx len \<le> vm_start (hd vms) then
        (if n \<ge> 128 then Refused else Placed (new_vm addr (addr + sx len) prot # vms) addr)
      else
        (let (pre, suf) = split_vms addr vms in
         case suf of
           [] \<Rightarrow>
             if n \<ge> 128 then Refused
             else Placed (pre @ [new_vm addr (addr + sx len) prot]) addr
         | cur # rest \<Rightarrow>
             if addr \<ge> vm_start cur \<and> addr < vm_end cur
                \<or> addr < vm_start cur \<and> addr + sx len > vm_start cur then
               (if flags AND MAP_FIXED cfg \<noteq> 0 then Refused
                else if vm_end cur + addr \<le> MMAP_AREA_END cfg then Retry (vm_end cur)
                else Retry 0)
             else if addr < vm_start cur \<and> addr + sx len \<le> vm_start cur then
               map_between n pre cur rest addr len prot
             else Refused))"

definition map_place ::
  "mm_config \<Rightarrow> vm_area list \<Rightarrow> u64 \<Rightarrow> i32 \<Rightarrow> u32 \<Rightarrow> u32 \<Rightarrow> placement" where
  "map_place cfg vms addr len prot flags =
     (if addr = 0 then map_nohint cfg (length vms) vms len prot
      else map_hint cfg (length vms) vms addr len prot flags)"

text \<open>A retry goes to address 0 or to a higher address, so the calls come to an end.\<close>

lemma map_gap_no_retry: "map_gap cfg n len prot vms \<noteq> Retry a"
  by (induction cfg n len prot vms rule: map_gap.induct) (auto split: placement.splits)

lemma map_nohint_no_retry: "map_nohint cfg n vms len prot \<noteq> Retry a"
  by (auto simp: map_nohint_def Let_def map_gap_no_retry split: list.splits)

lemma map_between_no_retry: "map_between n pre cur rest addr len prot \<noteq> Retry a"
  by (auto simp: map_between_def Let_def)

lemma map_place_retry:
  assumes "map_place cfg vms addr len prot flags = Retry a"
  shows "addr \<noteq> 0 \<and> (a = 0 \<or> addr < a)"
  using assms
  by (auto simp: map_place_def map_hint_def map_nohint_no_retry map_between_no_retry
      dest: split_vms_suf split: if_splits list.splits prod.splits)

function vm_area_map ::
  "mm_config \<Rightarrow> 'k mmu \<Rightarrow> exec_context \<Rightarrow> u64 \<Rightarrow> i32 \<Rightarrow> u32 \<Rightarrow> u32 \<Rightarrow> 'k
     \<Rightarrow> (i64 \<times> exec_context \<times> 'k) run" where
  "vm_area_map cfg mmu ctx addr len prot flags k =
     (let len = page_round len; vms = vm_areas ctx in
      if length vms > 128 then Returns (- 1, ctx, k)
      else
        (case map_place cfg vms addr len prot flags of
           Refused \<Rightarrow> Returns (- 1, ctx, k)
         | Retry a \<Rightarrow> vm_area_map cfg mmu ctx a len prot flags k
         | Spin \<Rightarrow> Hangs
         | Crash \<Rightarrow> Faults
         | Placed vms' ret \<Rightarrow>
             (let ctx' = ctx\<lparr>vm_areas := vms'\<rparr> in
              if ret = - 1 then Returns (ret, ctx', k)
              else if flags AND MAP_POPULATE cfg \<noteq> 0 then
                run_of_option (map_option (\<lambda>k'. (ret, ctx', k'))
                  (map_range cfg mmu (pgd ctx) ret prot len k))
              else Returns (ret, ctx', k))))"
  by pat_completeness auto
termination
proof (relation "measure (\<lambda>(cfg, mmu, ctx, addr, len, prot, flags, k).
    if addr = 0 then 0 else Suc (2 ^ 64 - unat addr))", goal_cases)
  case (2 cfg mmu ctx addr len prot flags k len' vms a)
  then have "addr \<noteq> 0 \<and> (a = 0 \<or> unat addr < unat a)"
    using map_place_retry by (auto simp: word_less_nat_alt)
  moreover have "unat a < 2 ^ 64"
    using unsigned_less [of a, where ?'a = nat] by simp
  ultimately show ?case
    by auto
qed simp

declare vm_area_map.simps [simp del]

section \<open>Placing a region\<close>

lemma map_gap_spec:
  assumes "map_gap cfg n len prot vms = Placed vms' r"
    and "vms_in lo (MMAP_AREA_END cfg) vms"
    and fits: "\<And>x. x \<le> MMAP_AREA_END cfg \<Longrightarrow> x < x + sx len"
  shows "\<exists>base. vm_end (hd vms) \<le> base \<and> base < base + sx len
    \<and> base + sx len \<le> MMAP_AREA_END cfg
    \<and> region_mapped base (base + sx len) prot vms vms'
    \<and> vms_in lo (MMAP_AREA_END cfg) vms' \<and> vm_start (hd vms') = vm_start (hd vms)
    \<and> length vms' \<le> Suc (length vms) \<and> (length vms < length vms' \<longrightarrow> n < 128)
    \<and> (r = base \<or> r = base + sx len \<and> length vms' < length vms)"
  using assms(1,2)
proof (induction vms arbitrary: lo vms' r rule: induct_list012)
  case (2 cur)
  have "vm_end cur \<le> MMAP_AREA_END cfg"
    using "2.prems" by simp
  note f = fits [OF this]
  have e: "vm_end cur + sx len \<le> MMAP_AREA_END cfg"
    using "2.prems" by (auto split: if_splits)
  have v: "vm_start cur < vm_end cur" "lo \<le> vm_start cur"
    using "2.prems" by simp_all
  show ?case
  proof (cases "prot = access_flags cur")
    case True
    with "2.prems" e have "vms' = [cur\<lparr>vm_end := vm_end cur + sx len\<rparr>]" "r = vm_end cur"
      by auto
    then show ?thesis
      using v f e True region_mapped_join_prev [of "vm_end cur + sx len" _ "[]" cur prot]
      by (intro exI [of _ "vm_end cur"]) auto
  next
    case False
    with "2.prems" e have "vms' = [cur, new_vm (vm_end cur) (vm_end cur + sx len) prot]"
      "r = vm_end cur" "n < 128"
      by (auto split: if_splits)
    then show ?thesis
      using v f e region_mapped_Cons [OF region_mapped_front [of "vm_end cur + sx len" _ "[]"]]
      by (intro exI [of _ "vm_end cur"]) auto
  qed
next
  case (3 cur nxt rest)
  have v: "vm_start cur < vm_end cur" "lo \<le> vm_start cur" "vm_end cur \<le> vm_start nxt"
    "vm_start nxt < vm_end nxt" "vms_in (vm_end nxt) (MMAP_AREA_END cfg) rest"
    using "3.prems" by simp_all
  then have e: "vm_end nxt \<le> MMAP_AREA_END cfg"
    by (auto dest: vms_in_le)
  show ?case
  proof (cases "vm_end cur + sx len \<le> vm_start nxt")
    case True
    have "vm_end cur \<le> MMAP_AREA_END cfg"
      using v e by auto
    note f = fits [OF this]
    let ?hi = "vm_end cur + sx len"
    have both: "region_mapped (vm_end cur) (vm_start nxt) prot (cur # nxt # rest)
        (cur\<lparr>vm_end := vm_end nxt\<rparr> # rest)"
      if "?hi = vm_start nxt" "access_flags cur = prot" "access_flags nxt = prot"
      using that v f by (intro region_mapped_join_both) auto
    have "prev": "region_mapped (vm_end cur) ?hi prot (cur # nxt # rest)
        (cur\<lparr>vm_end := ?hi\<rparr> # nxt # rest)" if "access_flags cur = prot"
      using that v f True by (intro region_mapped_join_prev) auto
    have "next": "region_mapped (vm_end cur) (vm_start nxt) prot (cur # nxt # rest)
        (cur # nxt\<lparr>vm_start := vm_end cur\<rparr> # rest)"
      if "?hi = vm_start nxt" "access_flags nxt = prot"
      using that v f by (intro region_mapped_Cons region_mapped_join_next) auto
    have new: "region_mapped (vm_end cur) ?hi prot (cur # nxt # rest)
        (cur # new_vm (vm_end cur) ?hi prot # nxt # rest)"
      using v f True by (intro region_mapped_Cons region_mapped_front) auto
    from "3.prems"(1) True show ?thesis
      using v e f both "prev" "next" new
      by (intro exI [of _ "vm_end cur"]) (auto split: if_splits)
  next
    case False
    with "3.prems"(1) obtain vs where gap: "map_gap cfg n len prot (nxt # rest) = Placed vs r"
      and vms': "vms' = cur # vs"
      by (auto split: placement.splits)
    have "vms_in (vm_end cur) (MMAP_AREA_END cfg) (nxt # rest)"
      using v by simp
    from "3.IH"(2) [OF gap this] obtain base where b: "vm_end nxt \<le> base"
      "base < base + sx len" "base + sx len \<le> MMAP_AREA_END cfg"
      "region_mapped base (base + sx len) prot (nxt # rest) vs"
      "vms_in (vm_end cur) (MMAP_AREA_END cfg) vs"
      "length vs \<le> Suc (length (nxt # rest))" "length (nxt # rest) < length vs \<longrightarrow> n < 128"
      "r = base \<or> r = base + sx len \<and> length vs < length (nxt # rest)"
      by auto
    then have "vm_end cur \<le> base"
      using v by auto
    with b v show ?thesis
      unfolding vms' by (intro exI [of _ base]) (auto intro: region_mapped_Cons)
  qed
qed simp

definition placed_at ::
  "mm_config \<Rightarrow> nat \<Rightarrow> i32 \<Rightarrow> u32 \<Rightarrow> vm_area list \<Rightarrow> vm_area list \<Rightarrow> u64 \<Rightarrow> bool" where
  "placed_at cfg n len prot vms vms' base \<longleftrightarrow>
     MMAP_AREA_START cfg \<le> base \<and> base < base + sx len \<and> base + sx len \<le> MMAP_AREA_END cfg
     \<and> region_mapped base (base + sx len) prot vms vms'
     \<and> vms_in (MMAP_AREA_START cfg) (MMAP_AREA_END cfg) vms'
     \<and> length vms' \<le> Suc (length vms) \<and> (length vms < length vms' \<longrightarrow> n < 128)"

lemma map_nohint_spec:
  assumes "map_nohint cfg n vms len prot = Placed vms' r"
    and vms: "vms_in (MMAP_AREA_START cfg) (MMAP_AREA_END cfg) vms"
    and fits: "\<And>x. x \<le> MMAP_AREA_END cfg \<Longrightarrow> x < x + sx len"
  shows "\<exists>base. placed_at cfg n len prot vms vms' base
    \<and> (r = base \<or> r = base + sx len \<and> length vms' < length vms)"
proof -
  let ?s = "MMAP_AREA_START cfg" and ?e = "MMAP_AREA_END cfg"
  have f: "?s < ?s + sx len"
    using vms by (intro fits) (rule vms_in_le)
  show ?thesis
  proof (cases vms)
    case Nil
    with assms(1) f show ?thesis
      using region_mapped_front [of "?s + sx len" ?e "[]" ?s prot]
      by (intro exI [of _ ?s]) (auto simp: map_nohint_def placed_at_def Let_def split: if_splits)
  next
    case (Cons cur rest)
    have v: "?s \<le> vm_start cur" "vm_start cur < vm_end cur" "vms_in (vm_end cur) ?e rest"
      using vms Cons by simp_all
    show ?thesis
    proof (cases "vm_start cur > ?s \<and> ?s + sx len \<le> vm_start cur")
      case True
      then have "?s + sx len \<le> ?e"
        using v by (auto dest: vms_in_le)
      then show ?thesis
        using assms(1) f True v Cons region_mapped_front [of "?s + sx len" ?e vms ?s prot]
          region_mapped_join_next [of "vm_start cur" ?e cur rest ?s prot]
        by (intro exI [of _ ?s])
          (auto simp: map_nohint_def placed_at_def Let_def split: if_splits)
    next
      case False
      with assms(1) Cons have "map_gap cfg n len prot vms = Placed vms' r"
        by (auto simp: map_nohint_def Let_def split: if_splits)
      from map_gap_spec [OF this vms fits] obtain base where b: "vm_end cur \<le> base"
        "base < base + sx len" "base + sx len \<le> ?e" "region_mapped base (base + sx len) prot vms vms'"
        "vms_in ?s ?e vms'" "length vms' \<le> Suc (length vms)"
        "length vms < length vms' \<longrightarrow> n < 128"
        "r = base \<or> r = base + sx len \<and> length vms' < length vms"
        by (auto simp: Cons)
      then have "?s \<le> base"
        using v by auto
      with b show ?thesis
        by (auto simp: placed_at_def)
    qed
  qed
qed

lemma map_between_spec:
  assumes "map_between n pre cur rest addr len prot = Placed vms' r"
    and vms: "vms_in lo addr pre" "vms_in addr hi (cur # rest)"
    and "addr < addr + sx len" "addr + sx len \<le> vm_start cur"
  shows "r = addr \<and> region_mapped addr (addr + sx len) prot (pre @ cur # rest) vms'
    \<and> vms_in lo hi vms' \<and> length vms' \<le> Suc (length (pre @ cur # rest))
    \<and> (length (pre @ cur # rest) < length vms' \<longrightarrow> n < 128)"
proof -
  from assms(1) have "pre \<noteq> []"
    by (auto simp: map_between_def)
  then obtain before "prev" where pre: "pre = before @ [prev]"
    by (cases pre rule: rev_cases) auto
  let ?hi = "addr + sx len"
  have p: "vms_in lo (vm_start prev) before" "vm_start prev < vm_end prev" "vm_end prev \<le> addr"
    using vms(1) by (simp_all add: pre vms_in_append_Cons)
  have c: "vm_start cur < vm_end cur" "vms_in (vm_end cur) hi rest" "addr < vm_start cur"
    using assms(2-) by auto
  have before: "vms_in lo (vm_end prev) before"
    using p by (auto intro: vms_in_mono)
  have both: "region_mapped addr (vm_start cur) prot (before @ prev # cur # rest)
      (before @ prev\<lparr>vm_end := vm_end cur\<rparr> # rest)"
    if "?hi = vm_start cur" "addr = vm_end prev" "prot = access_flags prev" "prot = access_flags cur"
    using that p c before
    by (auto intro!: region_mapped_append region_mapped_join_both)
  have grow: "region_mapped addr ?hi prot (before @ prev # cur # rest)
      (before @ prev\<lparr>vm_end := ?hi\<rparr> # cur # rest)"
    if "addr = vm_end prev" "prot = access_flags prev"
    using that p c before assms(4,5)
    by (auto intro!: region_mapped_append region_mapped_join_prev)
  have down: "region_mapped addr (vm_start cur) prot (pre @ cur # rest)
      (pre @ cur\<lparr>vm_start := addr\<rparr> # rest)"
    if "?hi = vm_start cur" "prot = access_flags cur"
    using that c vms by (intro region_mapped_append region_mapped_join_next) auto
  have new: "region_mapped addr ?hi prot (pre @ cur # rest)
      (pre @ new_vm addr ?hi prot # cur # rest)"
    using vms assms(4,5) by (intro region_mapped_append region_mapped_front) auto
  from assms(1) show ?thesis
    using p c before vms assms(4,5) both grow down new
    by (auto simp: map_between_def pre vms_in_append_Cons Let_def split: if_splits)
qed

lemma map_hint_spec:
  assumes "map_hint cfg n vms addr len prot flags = Placed vms' r"
    and vms: "vms_in (MMAP_AREA_START cfg) (MMAP_AREA_END cfg) vms"
    and fits: "\<And>x. x \<le> MMAP_AREA_END cfg \<Longrightarrow> x < x + sx len"
  shows "r = addr \<and> placed_at cfg n len prot vms vms' addr"
proof -
  let ?s = "MMAP_AREA_START cfg" and ?e = "MMAP_AREA_END cfg" and ?hi = "addr + sx len"
  from assms(1) have a: "?s \<le> addr" "addr \<le> ?e" "?hi \<le> ?e"
    by (auto simp: map_hint_def split: if_splits)
  from fits [OF a(2)] have f: "addr < ?hi" .
  show ?thesis
  proof (cases "vms = [] \<or> ?hi \<le> vm_start (hd vms)")
    case True
    then have "vms_in ?hi ?e vms"
      using vms a by (cases vms) auto
    then show ?thesis
      using assms(1) True a f region_mapped_front [of ?hi ?e vms addr prot]
      by (auto simp: map_hint_def placed_at_def split: if_splits)
  next
    case False
    obtain pre suf where sp: "split_vms addr vms = (pre, suf)"
      by (cases "split_vms addr vms")
    note vms_eq = split_vms_append [OF sp]
    note pre = split_vms_pre [OF sp vms a(1)]
    show ?thesis
    proof (cases suf)
      case Nil
      with assms(1) False a sp have n: "n < 128" "r = addr" "vms' = pre @ [new_vm addr ?hi prot]"
        by (auto simp: map_hint_def split: if_splits)
      have "region_mapped addr ?hi prot (pre @ []) (pre @ [new_vm addr ?hi prot])"
        using pre f a by (intro region_mapped_append region_mapped_front) auto
      then show ?thesis
        using n a f pre vms_eq Nil by (simp add: placed_at_def vms_in_append_Cons)
    next
      case (Cons cur rest)
      with assms(1) False a sp have c: "addr < vm_start cur" "?hi \<le> vm_start cur"
        and m: "map_between n pre cur rest addr len prot = Placed vms' r"
        by (auto simp: map_hint_def split: if_splits)
      have "vms_in addr ?e (cur # rest)"
        using split_vms_rest sp vms c(1) Cons by (metis order.strict_implies_order)
      from map_between_spec [OF m pre this f c(2)] show ?thesis
        using a f vms_eq Cons by (simp add: placed_at_def)
    qed
  qed
qed

lemma map_place_spec:
  assumes "map_place cfg vms addr len prot flags = Placed vms' r"
    and "vms_in (MMAP_AREA_START cfg) (MMAP_AREA_END cfg) vms"
    and "\<And>x. x \<le> MMAP_AREA_END cfg \<Longrightarrow> x < x + sx len"
  shows "\<exists>base. placed_at cfg (length vms) len prot vms vms' base
    \<and> (r = base \<or> addr = 0 \<and> r = base + sx len \<and> length vms' < length vms)"
proof (cases "addr = 0")
  case True
  with assms(1) have "map_nohint cfg (length vms) vms len prot = Placed vms' r"
    by (simp add: map_place_def)
  from map_nohint_spec [OF this assms(2,3)] True show ?thesis
    by auto
next
  case False
  with assms(1) have "map_hint cfg (length vms) vms addr len prot flags = Placed vms' r"
    by (simp add: map_place_def)
  from map_hint_spec [OF this assms(2,3)] show ?thesis
    by auto
qed

lemma vm_area_map_cases:
  assumes "vm_area_map cfg mmu ctx addr len prot flags k = Returns (ret, ctx', k')"
    and "page_round (page_round len) = page_round len"
  shows "ret = - 1 \<and> ctx' = ctx \<and> k' = k
    \<or> length (vm_areas ctx) \<le> 128 \<and>
      (\<exists>a vms'. map_place cfg (vm_areas ctx) a (page_round len) prot flags = Placed vms' ret
        \<and> (a = addr \<or> a = 0 \<or> addr < a) \<and> (addr = 0 \<longrightarrow> a = 0)
        \<and> ctx' = ctx\<lparr>vm_areas := vms'\<rparr>
        \<and> (if ret \<noteq> - 1 \<and> flags AND MAP_POPULATE cfg \<noteq> 0
           then map_range cfg mmu (pgd ctx) ret prot (page_round len) k = Some k'
           else k' = k))"
  using assms
proof (induction cfg mmu ctx addr len prot flags k rule: vm_area_map.induct)
  case (1 cfg mmu ctx addr len prot flags k)
  show ?case
  proof (cases "length (vm_areas ctx) > 128")
    case True
    with "1.prems" show ?thesis
      by (simp add: vm_area_map.simps [of _ _ _ addr])
  next
    case False
    show ?thesis
    proof (cases "map_place cfg (vm_areas ctx) addr (page_round len) prot flags")
      case (Placed vms' r)
      with "1.prems" False show ?thesis
        by (simp add: vm_area_map.simps [of _ _ _ addr] Let_def split: if_splits)
          (auto simp: run_of_option_def split: option.splits)
    next
      case (Retry a)
      with "1.prems" False have
        "vm_area_map cfg mmu ctx a (page_round len) prot flags k = Returns (ret, ctx', k')"
        by (simp add: vm_area_map.simps [of _ _ _ addr] Let_def)
      note IH = "1.IH" [OF refl refl False Retry this, unfolded "1.prems"(2), OF refl]
      have a: "addr \<noteq> 0" "a = 0 \<or> addr < a"
        using map_place_retry [OF Retry] by simp_all
      then have step: "(b = addr \<or> b = 0 \<or> addr < b) \<and> (addr = 0 \<longrightarrow> b = 0)"
        if "b = a \<or> b = 0 \<or> a < b" "a = 0 \<longrightarrow> b = 0" for b
        using that by (metis order.strict_trans)
      from IH show ?thesis
        by (elim disjE conjE exE) (use step in blast)+
    qed (use "1.prems" False in \<open>simp_all add: vm_area_map.simps [of _ _ _ addr] Let_def\<close>)
  qed
qed

lemma map_gap_spin:
  assumes "vms_in lo e vms" "vms \<noteq> []" "e = MMAP_AREA_END cfg" "e \<le> 2 ^ 63" "0 < sint len"
  shows "map_gap cfg n len prot vms = Spin \<longleftrightarrow>
    (\<forall>base. vm_end (hd vms) \<le> base \<longrightarrow> base \<le> e \<longrightarrow> base + sx len \<le> e \<longrightarrow>
       \<not> window_free vms base (base + sx len))"
  using assms(1,2)
proof (induction vms arbitrary: lo rule: induct_list012)
  case (2 cur)
  have e: "vm_end cur \<le> e"
    using "2.prems" by simp
  have free: "window_free [cur] b c" if "vm_end cur \<le> b" for b c
    using that by (subst window_free_Cons) (simp_all add: window_free_def)
  have "vm_end cur + sx len \<le> b + sx len" if "vm_end cur \<le> b" "b \<le> e" for b
    using that assms(4,5) by (intro add_sx_mono) auto
  then show ?case
    using e free assms(3) by (force split: if_splits)
next
  case (3 cur nxt rest)
  let ?hi = "vm_end cur + sx len"
  have v: "vm_end cur \<le> vm_start nxt" "vm_start nxt < vm_end nxt" "vms_in (vm_end nxt) e rest"
    "vms_in (vm_end cur) e (nxt # rest)"
    using "3.prems" by simp_all
  then have e: "vm_end nxt \<le> e"
    by (auto dest: vms_in_le)
  show ?case
  proof (cases "?hi \<le> vm_start nxt")
    case True
    have "window_free (nxt # rest) (vm_end cur) ?hi"
      using v True by (intro window_free_before) auto
    moreover have "map_gap cfg n len prot (cur # nxt # rest) \<noteq> Spin"
      using True by simp
    ultimately show ?thesis
      using v e True by (force simp: window_free_Cons)
  next
    case False
    have "window_free (cur # nxt # rest) b (b + sx len) \<longleftrightarrow>
        vm_end nxt \<le> b \<and> window_free (nxt # rest) b (b + sx len)"
      if "vm_end cur \<le> b" "b \<le> e" for b
    proof -
      have "b < b + sx len" "?hi \<le> b + sx len"
        using that assms(4,5) by (auto intro!: less_add_sx add_sx_mono)
      then have "vm_start nxt < b + sx len"
        using False by auto
      then show ?thesis
        using that v \<open>b < b + sx len\<close> window_free_behind [of nxt rest b "b + sx len"]
        by (auto simp: window_free_Cons)
    qed
    moreover have "map_gap cfg n len prot (cur # nxt # rest) = Spin
        \<longleftrightarrow> map_gap cfg n len prot (nxt # rest) = Spin"
      using False by (auto split: placement.splits)
    moreover have "vm_end cur \<le> b" if "vm_end nxt \<le> b" for b
      using that v by auto
    ultimately show ?thesis
      using "3.IH"(2) [OF v(4)] by auto
  qed
qed simp

lemma map_nohint_spin:
  assumes "vms_in (MMAP_AREA_START cfg) (MMAP_AREA_END cfg) vms"
    and "MMAP_AREA_END cfg \<le> 2 ^ 63" "0 < sint len"
  shows "map_nohint cfg n vms len prot = Spin \<longleftrightarrow>
    vms \<noteq> [] \<and>
    (\<forall>base. MMAP_AREA_START cfg \<le> base \<longrightarrow> base \<le> MMAP_AREA_END cfg \<longrightarrow>
       base + sx len \<le> MMAP_AREA_END cfg \<longrightarrow> \<not> window_free vms base (base + sx len))"
proof (cases vms)
  case Nil
  then show ?thesis
    by (simp add: map_nohint_def Let_def)
next
  case (Cons cur rest)
  let ?s = "MMAP_AREA_START cfg" and ?e = "MMAP_AREA_END cfg"
  have v: "?s \<le> vm_start cur" "vm_start cur < vm_end cur" "vm_end cur \<le> ?e"
    using assms(1) Cons by (auto dest: vms_in_le)
  show ?thesis
  proof (cases "?s < vm_start cur \<and> ?s + sx len \<le> vm_start cur")
    case True
    then have "window_free vms ?s (?s + sx len)"
      using assms(1) Cons by (intro window_free_before [where b = ?e]) auto
    moreover have "?s + sx len \<le> ?e" "?s \<le> ?e"
      using True v by auto
    ultimately show ?thesis
      using True Cons by (force simp: map_nohint_def Let_def)
  next
    case False
    have "vm_end cur \<le> b" if "?s \<le> b" "b \<le> ?e" "window_free vms b (b + sx len)" for b
    proof -
      have "b \<le> 2 ^ 63"
        using that(2) assms(2) by (rule order.trans)
      then have "b < b + sx len" "?s + sx len \<le> b + sx len"
        using that assms(2,3) by (auto intro!: less_add_sx add_sx_mono)
      moreover from this have "vm_start cur < b + sx len"
        using False v(1) that(1) by auto
      ultimately show ?thesis
        using that(3) v(2) unfolding Cons by (intro window_free_behind)
    qed
    moreover have "?s \<le> b" if "vm_end cur \<le> b" for b
      using that v by auto
    moreover have "map_nohint cfg n vms len prot = map_gap cfg n len prot vms"
      using False Cons by (auto simp: map_nohint_def Let_def)
    ultimately show ?thesis
      using map_gap_spin [OF assms(1) _ refl assms(2,3)] Cons by simp blast
  qed
qed

lemma map_gap_no_crash: "vms \<noteq> [] \<Longrightarrow> map_gap cfg n len prot vms \<noteq> Crash"
  by (induction vms rule: induct_list012) (auto split: placement.splits)

lemma map_place_no_crash: "map_place cfg vms addr len prot flags \<noteq> Crash"
proof (cases "addr = 0")
  case True
  then show ?thesis
    by (auto simp: map_place_def map_nohint_def Let_def map_gap_no_crash split: list.splits)
next
  case False
  obtain pre suf where sp: "split_vms addr vms = (pre, suf)"
    by (cases "split_vms addr vms")
  note split_vms_append [OF sp]
  then show ?thesis
    using False sp
    by (auto simp: map_place_def map_hint_def map_between_def Let_def split: list.splits)
qed

lemma vm_area_map_placed:
  assumes "mm_config_ok cfg" "vms_ok cfg (vm_areas ctx)" "length_ok len"
    and "map_place cfg (vm_areas ctx) addr (page_round len) prot flags = Placed vms' r"
  shows "r \<le> 2 ^ 62"
proof -
  have "vms_in (MMAP_AREA_START cfg) (MMAP_AREA_END cfg) (vm_areas ctx)"
    using assms(2) by (simp add: vms_ok_def)
  from map_place_spec [OF assms(4) this mm_config_fits [OF assms(1,3)]] obtain base where
    "base < base + sx (page_round len)" "base + sx (page_round len) \<le> MMAP_AREA_END cfg"
    "r = base \<or> r = base + sx (page_round len)"
    unfolding placed_at_def by blast
  then have "r \<le> MMAP_AREA_END cfg"
    by auto
  then show ?thesis
    using assms(1) unfolding mm_config_ok_def by (meson order.trans)
qed

lemma minus_one_high: "r \<le> 2 ^ 62 \<Longrightarrow> r \<noteq> (- 1 :: u64)"
proof
  assume "r \<le> 2 ^ 62" "r = - 1"
  then have "(2 ^ 62 :: u64) = - 1"
    by (intro antisym) simp_all
  then show False
    by simp
qed

lemma map_hint_addr: "map_hint cfg n vms addr len prot flags = Placed vms' r \<Longrightarrow> r = addr"
  by (auto simp: map_hint_def map_between_def Let_def split: if_splits prod.splits list.splits)

lemma map_hint_fixed_no_retry:
  "MAP_FIXED cfg \<noteq> 0 \<Longrightarrow> map_hint cfg n vms addr len prot (MAP_FIXED cfg) \<noteq> Retry a"
  by (auto simp: map_hint_def map_between_no_retry split: prod.splits list.splits)

lemma map_range_pages:
  assumes "addr \<le> 2 ^ 62" "0 \<le> sint len"
  shows "map_range cfg mmu base addr flags len k =
    Some (fold (map_page mmu base (page_prot cfg flags)) (pages addr (addr + sx len)) k)"
  unfolding map_range_def by (rule page_loop_pages [OF add_sx_le [OF assms]])

lemma vm_area_map_eq_Placed:
  assumes "mm_config_ok cfg" "vms_ok cfg (vm_areas ctx)" "length_ok len"
    and "map_place cfg (vm_areas ctx) addr (page_round len) prot flags = Placed vms' r"
  shows "vm_area_map cfg mmu ctx addr len prot flags k =
    Returns (r, ctx\<lparr>vm_areas := vms'\<rparr>,
      if flags AND MAP_POPULATE cfg \<noteq> 0
      then fold (map_page mmu (pgd ctx) (page_prot cfg prot))
             (pages r (r + sx (page_round len))) k
      else k)"
proof -
  have r: "r \<le> 2 ^ 62"
    by (rule vm_area_map_placed [OF assms])
  have "0 \<le> sint (page_round len)"
    using length_ok_page_round(1) [OF assms(3)] by simp
  then show ?thesis
    using assms(2,4) minus_one_high [OF r]
    by (subst vm_area_map.simps) (simp add: vms_ok_def Let_def map_range_pages [OF r])
qed

lemma vm_area_map_spec:
  assumes "mm_config_ok cfg" "vms_ok cfg (vm_areas ctx)" "length_ok len"
    and "vm_area_map cfg mmu ctx addr len prot flags k = Returns (ret, ctx', k')"
    and "ret \<noteq> - 1"
  shows "\<exists>base. MMAP_AREA_START cfg \<le> base \<and> base < base + sx (page_round len)
    \<and> base + sx (page_round len) \<le> MMAP_AREA_END cfg
    \<and> region_mapped base (base + sx (page_round len)) prot (vm_areas ctx) (vm_areas ctx')
    \<and> vms_ok cfg (vm_areas ctx') \<and> pgd ctx' = pgd ctx
    \<and> (ret = base
       \<or> ret = base + sx (page_round len) \<and> length (vm_areas ctx') < length (vm_areas ctx))
    \<and> k' = (if flags AND MAP_POPULATE cfg \<noteq> 0
            then fold (map_page mmu (pgd ctx) (page_prot cfg prot))
                   (pages ret (ret + sx (page_round len))) k
            else k)"
proof -
  note L = length_ok_page_round [OF assms(3)]
  from vm_area_map_cases [OF assms(4) L(2)] assms(5) obtain a vms' where
    p: "map_place cfg (vm_areas ctx) a (page_round len) prot flags = Placed vms' ret"
    and ctx': "ctx' = ctx\<lparr>vm_areas := vms'\<rparr>"
    and k': "if flags AND MAP_POPULATE cfg \<noteq> 0
      then map_range cfg mmu (pgd ctx) ret prot (page_round len) k = Some k' else k' = k"
    by auto
  have vms: "vms_in (MMAP_AREA_START cfg) (MMAP_AREA_END cfg) (vm_areas ctx)"
    and n: "length (vm_areas ctx) \<le> 128"
    using assms(2) by (simp_all add: vms_ok_def)
  from map_place_spec [OF p vms mm_config_fits [OF assms(1,3)]] obtain base where
    "placed_at cfg (length (vm_areas ctx)) (page_round len) prot (vm_areas ctx) vms' base"
    "ret = base \<or> ret = base + sx (page_round len) \<and> length vms' < length (vm_areas ctx)"
    by blast
  moreover have "map_range cfg mmu (pgd ctx) ret prot (page_round len) k =
      Some (fold (map_page mmu (pgd ctx) (page_prot cfg prot))
        (pages ret (ret + sx (page_round len))) k)"
    using vm_area_map_placed [OF assms(1-3) p] L(1) by (intro map_range_pages) auto
  ultimately show ?thesis
    using n ctx' k' by (intro exI [of _ base]) (auto simp: placed_at_def vms_ok_def)
qed

section \<open>Properties\<close>

text \<open>
  C21: When \<open>vm_area_map\<close> returns an address, it has mapped one region of the rounded length
  with the requested flags: the region lies in the mmap area, was free, and is the only change
  to the address space; the chain stays sorted, disjoint and within 128 areas. The returned
  address is the start of the region, or, in the one case where two areas are joined, its end.
  With \<open>MAP_POPULATE\<close> exactly the pages from the returned address on are mapped; without it
  no page table is touched.
\<close>

theorem vm_area_map_maps:
  assumes "mm_config_ok cfg" "vms_ok cfg (vm_areas ctx)" "length_ok len"
    and "vm_area_map cfg mmu ctx addr len prot flags k = Returns (ret, ctx', k')"
    and "ret \<noteq> - 1"
  shows "\<exists>base. MMAP_AREA_START cfg \<le> base \<and> base < base + sx (page_round len)
    \<and> base + sx (page_round len) \<le> MMAP_AREA_END cfg
    \<and> region_mapped base (base + sx (page_round len)) prot (vm_areas ctx) (vm_areas ctx')
    \<and> vms_ok cfg (vm_areas ctx') \<and> pgd ctx' = pgd ctx
    \<and> (ret = base
       \<or> ret = base + sx (page_round len) \<and> length (vm_areas ctx') < length (vm_areas ctx))
    \<and> k' = (if flags AND MAP_POPULATE cfg \<noteq> 0
            then fold (map_page mmu (pgd ctx) (page_prot cfg prot))
                   (pages ret (ret + sx (page_round len))) k
            else k)"
  by (rule vm_area_map_spec [OF assms])

theorem vm_area_map_maps_witness:
  "\<exists>base. region_mapped base (base + sx (page_round 5000)) 3
     [new_vm 6442450944 6442455040 1]
     [new_vm 6442450944 6442455040 1, new_vm 6442455040 6442463232 3]"
proof -
  let ?ctx = "example_ctx [new_vm 6442450944 6442455040 1]"
  let ?ctx' = "example_ctx [new_vm 6442450944 6442455040 1, new_vm 6442455040 6442463232 3]"
  have "vm_area_map example_cfg example_mmu ?ctx 0 5000 3 2 [] =
      Returns (6442455040, ?ctx', [(6442459136, 3), (6442455040, 3)])"
    by code_simp
  moreover have "vms_ok example_cfg (vm_areas ?ctx)"
    by (simp add: vms_ok_def example_cfg_def example_ctx_def)
  moreover have "length_ok 5000"
    by (simp add: length_ok_def)
  ultimately show ?thesis
    using vm_area_map_maps [OF example_cfg_ok, of ?ctx 5000 example_mmu 0 3 2 "[]" 6442455040 ?ctx']
    by (auto simp: example_ctx_def)
qed

text \<open>
  When \<open>vm_area_map\<close> returns \<open>-1\<close> it has changed neither the chain nor the page tables.
\<close>

theorem vm_area_map_failure:
  assumes "mm_config_ok cfg" "vms_ok cfg (vm_areas ctx)" "length_ok len"
    and "vm_area_map cfg mmu ctx addr len prot flags k = Returns (- 1, ctx', k')"
  shows "ctx' = ctx \<and> k' = k"
  using vm_area_map_cases [OF assms(4) length_ok_page_round(2) [OF assms(3)]]
    vm_area_map_placed [OF assms(1-3)] minus_one_high
  by blast

theorem vm_area_map_failure_witness:
  "\<exists>ctx' k'. vm_area_map example_cfg example_mmu (example_ctx [new_vm 6442450944 6442455040 1])
       6442450944 4096 3 1 [] = Returns (- 1, ctx', k')
     \<and> ctx' = example_ctx [new_vm 6442450944 6442455040 1] \<and> k' = []"
proof -
  let ?ctx = "example_ctx [new_vm 6442450944 6442455040 1]"
  have "vm_area_map example_cfg example_mmu ?ctx 6442450944 4096 3 1 [] =
      Returns (- 1, ?ctx, [])"
    by code_simp
  moreover have "vms_ok example_cfg (vm_areas ?ctx)" "length_ok 4096"
    by (simp_all add: vms_ok_def length_ok_def example_cfg_def example_ctx_def)
  ultimately show ?thesis
    using vm_area_map_failure [OF example_cfg_ok, of ?ctx 4096 example_mmu 6442450944 3 1 "[]"]
    by blast
qed

text \<open>
  A hint address is honoured: when the rounded region at the hint lies in the mmap area
  and is free, and the process has fewer than 128 areas, the hint is returned.
\<close>

theorem vm_area_map_hint_honoured:
  assumes "mm_config_ok cfg" "vms_ok cfg (vm_areas ctx)" "length_ok len"
    and "MMAP_AREA_START cfg \<le> addr" "addr \<le> MMAP_AREA_END cfg"
    and "addr + sx (page_round len) \<le> MMAP_AREA_END cfg"
    and "window_free (vm_areas ctx) addr (addr + sx (page_round len))"
    and "length (vm_areas ctx) < 128"
  shows "\<exists>ctx' k'. vm_area_map cfg mmu ctx addr len prot flags k = Returns (addr, ctx', k')"
proof -
  let ?L = "page_round len" and ?vms = "vm_areas ctx"
  have "addr \<noteq> 0"
    using assms(1,4) by (auto simp: mm_config_ok_def)
  have vms: "vms_in (MMAP_AREA_START cfg) (MMAP_AREA_END cfg) ?vms"
    using assms(2) by (simp add: vms_ok_def)
  note f = mm_config_fits [OF assms(1,3,5)]
  obtain pre suf where sp: "split_vms addr ?vms = (pre, suf)"
    by (cases "split_vms addr ?vms")
  note vms_eq = split_vms_append [OF sp]
  have "\<exists>vms'. map_hint cfg (length ?vms) ?vms addr ?L prot flags = Placed vms' addr"
  proof (cases "?vms = [] \<or> addr + sx ?L \<le> vm_start (hd ?vms) \<or> suf = []")
    case True
    then show ?thesis
      using assms(4-6,8) sp by (auto simp: map_hint_def)
  next
    case False
    then obtain cur rest where suf: "suf = cur # rest"
      by (cases suf) auto
    have c: "addr < vm_end cur" "vm_start cur < vm_end cur"
      using split_vms_suf sp vms vms_eq suf by (auto simp: vms_in_append_Cons)
    have "window_free suf addr (addr + sx ?L)"
      using assms(7) split_vms_pre [OF sp vms assms(4)] perm_at_outside [of _ addr pre]
      unfolding window_free_def vms_eq by (auto simp: perm_at_append)
    then have "vm_end cur \<le> addr" if "vm_start cur < addr + sx ?L"
      using that c(2) f unfolding suf by (intro window_free_behind)
    with c(1) have s: "addr + sx ?L \<le> vm_start cur"
      by (meson leD not_le)
    then have "pre \<noteq> []"
      using False vms_eq suf by auto
    have "addr < vm_start cur"
      using s f by auto
    moreover from this have "\<not> vm_start cur \<le> addr"
      by simp
    ultimately have "map_hint cfg (length ?vms) ?vms addr ?L prot flags =
        map_between (length ?vms) pre cur rest addr ?L prot"
      using assms(4-6) False sp suf s by (simp add: map_hint_def not_less leD)
    then show ?thesis
      using assms(8) \<open>pre \<noteq> []\<close> by (simp add: map_between_def Let_def)
  qed
  with \<open>addr \<noteq> 0\<close> obtain vms' where "map_place cfg ?vms addr ?L prot flags = Placed vms' addr"
    by (auto simp: map_place_def)
  then show ?thesis
    by (intro exI) (rule vm_area_map_eq_Placed [OF assms(1-3)])
qed

theorem vm_area_map_hint_honoured_witness:
  "\<exists>ctx' k'. vm_area_map example_cfg example_mmu (example_ctx [new_vm 6442450944 6442455040 1])
     6442459136 4096 3 0 [] = Returns (6442459136, ctx', k')"
proof -
  let ?ctx = "example_ctx [new_vm 6442450944 6442455040 1]"
  have L: "sx (page_round 4096) = 4096"
    by code_simp
  have "window_free (vm_areas ?ctx) 6442459136 (6442459136 + sx (page_round 4096))"
    by (simp add: L window_free_Cons example_ctx_def) (simp add: window_free_def)
  then show ?thesis
    by (intro vm_area_map_hint_honoured [OF example_cfg_ok])
      (simp_all add: L vms_ok_def length_ok_def example_cfg_def example_ctx_def)
qed

text \<open>
  With \<open>MAP_FIXED\<close> as the only flag the call returns the requested address or fails; it
  never maps elsewhere.
\<close>

theorem vm_area_map_fixed:
  assumes "MAP_FIXED cfg \<noteq> 0" "addr \<noteq> 0"
    and "vm_area_map cfg mmu ctx addr len prot (MAP_FIXED cfg) k = Returns (ret, ctx', k')"
  shows "ret = addr \<or> ret = - 1"
  using assms
  by (subst (asm) vm_area_map.simps)
    (auto simp: Let_def map_place_def map_hint_fixed_no_retry run_of_option_def
      dest: map_hint_addr split: if_splits placement.splits option.splits)

theorem vm_area_map_fixed_witness:
  "fst (case vm_area_map example_cfg example_mmu (example_ctx []) 6442459136 4096 3 1 [] of
     Returns r \<Rightarrow> r) \<in> {6442459136, - 1}"
proof -
  have "vm_area_map example_cfg example_mmu (example_ctx []) 6442459136 4096 3 1 [] =
      Returns (6442459136, example_ctx [new_vm 6442459136 6442463232 3], [])"
    by code_simp
  then show ?thesis
    using vm_area_map_fixed [of example_cfg 6442459136 example_mmu "example_ctx []" 4096 3 "[]"]
    by (simp add: example_cfg_def)
qed

text \<open>
  C25: Without a hint, the call spins in its search loop exactly when the chain is not empty
  and no window of the rounded length is free in the mmap area: the search has no exit for a
  full address space, where it should return \<open>-1\<close>.
\<close>

theorem vm_area_map_hangs:
  assumes "mm_config_ok cfg" "vms_ok cfg (vm_areas ctx)" "length_ok len"
  shows "vm_area_map cfg mmu ctx 0 len prot flags k = Hangs \<longleftrightarrow>
    vm_areas ctx \<noteq> [] \<and>
    (\<forall>base. MMAP_AREA_START cfg \<le> base \<longrightarrow> base \<le> MMAP_AREA_END cfg \<longrightarrow>
       base + sx (page_round len) \<le> MMAP_AREA_END cfg \<longrightarrow>
       \<not> window_free (vm_areas ctx) base (base + sx (page_round len)))"
proof -
  let ?L = "page_round len" and ?e = "MMAP_AREA_END cfg"
  note L = length_ok_page_round [OF assms(3)]
  have vms: "vms_in (MMAP_AREA_START cfg) ?e (vm_areas ctx)" "length (vm_areas ctx) \<le> 128"
    using assms(2) by (simp_all add: vms_ok_def)
  have e: "?e \<le> 2 ^ 62"
    using assms(1) by (simp add: mm_config_ok_def)
  then have "?e \<le> 2 ^ 63"
    by (rule order.trans) simp
  note spin = map_nohint_spin [OF vms(1) this L(1)]
  have "\<exists>k'. map_range cfg mmu (pgd ctx) r prot ?L k = Some k'"
    if "map_nohint cfg (length (vm_areas ctx)) (vm_areas ctx) ?L prot = Placed vms' r" for vms' r
  proof -
    from map_nohint_spec [OF that vms(1) mm_config_fits [OF assms(1,3)]] obtain base where
      "base + sx ?L \<le> ?e" "r = base \<or> r = base + sx ?L" "base < base + sx ?L"
      unfolding placed_at_def by blast
    then have "r \<le> 2 ^ 62"
      using e by auto
    then show ?thesis
      using L(1) by (simp add: map_range_pages)
  qed
  then have "vm_area_map cfg mmu ctx 0 len prot flags k = Hangs \<longleftrightarrow>
    map_nohint cfg (length (vm_areas ctx)) (vm_areas ctx) ?L prot = Spin"
    using vms(2) by (cases "map_nohint cfg (length (vm_areas ctx)) (vm_areas ctx) ?L prot")
      (auto simp: vm_area_map.simps [of _ _ _ 0] map_place_def Let_def map_nohint_no_retry
        split: option.splits)
  then show ?thesis
    unfolding spin .
qed

theorem vm_area_map_hangs_witness:
  "\<not> window_free [new_vm 6442450944 7516192768 1] 7516188672 (7516188672 + sx (page_round 4096))"
proof -
  let ?ctx = "example_ctx [new_vm 6442450944 7516192768 1]"
  have L: "sx (page_round 4096) = 4096"
    by code_simp
  have "vm_area_map example_cfg example_mmu ?ctx 0 4096 3 0 [] = Hangs"
    by code_simp
  moreover have "vms_ok example_cfg (vm_areas ?ctx)" "length_ok 4096"
    by (simp_all add: vms_ok_def length_ok_def example_cfg_def example_ctx_def)
  ultimately have "\<forall>base. MMAP_AREA_START example_cfg \<le> base \<longrightarrow> base \<le> MMAP_AREA_END example_cfg \<longrightarrow>
       base + sx (page_round 4096) \<le> MMAP_AREA_END example_cfg \<longrightarrow>
       \<not> window_free (vm_areas ?ctx) base (base + sx (page_round 4096))"
    by (subst (asm) vm_area_map_hangs [OF example_cfg_ok]) simp_all
  from this [rule_format, of 7516188672] show ?thesis
    by (simp add: L example_cfg_def example_ctx_def)
qed

text \<open>
  \<open>vm_area_map\<close> never dereferences a null pointer, whatever the chain, the length and the
  flags: where \<open>prev_vm\<close> is used it has been set.
\<close>

theorem vm_area_map_no_fault: "vm_area_map cfg mmu ctx addr len prot flags k \<noteq> Faults"
proof (induction cfg mmu ctx addr len prot flags k rule: vm_area_map.induct)
  case (1 cfg mmu ctx addr len prot flags k)
  then show ?case
    by (subst vm_area_map.simps)
      (auto simp: Let_def map_place_no_crash run_of_option_def split: placement.splits option.splits)
qed

text \<open>
  When the new region exactly closes the gap behind the first area and both neighbours
  have the requested flags, the three become one area, and the call returns the start of the
  old second area: the address behind the new region instead of its start.
\<close>

theorem vm_area_map_merge_address:
  assumes "mm_config_ok cfg" "vms_ok cfg (vm_areas ctx)" "length_ok len"
    and "vm_areas ctx = u # v # rest" "vm_start u = MMAP_AREA_START cfg"
    and "vm_end u + sx (page_round len) = vm_start v"
    and "access_flags u = prot" "access_flags v = prot"
  shows "\<exists>k'. vm_area_map cfg mmu ctx 0 len prot flags k =
    Returns (vm_start v, ctx\<lparr>vm_areas := u\<lparr>vm_end := vm_end v\<rparr> # rest\<rparr>, k')"
proof -
  have "map_place cfg (vm_areas ctx) 0 (page_round len) prot flags =
    Placed (u\<lparr>vm_end := vm_end v\<rparr> # rest) (vm_start v)"
    using assms(4-) by (simp add: map_place_def map_nohint_def Let_def)
  then show ?thesis
    by (intro exI) (rule vm_area_map_eq_Placed [OF assms(1-3)])
qed

theorem vm_area_map_merge_address_witness:
  "\<exists>k'. vm_area_map example_cfg example_mmu
      (example_ctx [new_vm 6442450944 6442455040 3, new_vm 6442459136 6442463232 3]) 0 4096 3 0 []
    = Returns (6442459136, example_ctx [new_vm 6442450944 6442463232 3], k')"
proof -
  let ?u = "new_vm 6442450944 6442455040 3" and ?v = "new_vm 6442459136 6442463232 3"
  have L: "sx (page_round 4096) = 4096"
    by code_simp
  show ?thesis
    using vm_area_map_merge_address [OF example_cfg_ok, of "example_ctx [?u, ?v]" 4096 ?u ?v "[]" 3]
    by (simp add: L vms_ok_def length_ok_def example_cfg_def example_ctx_def) (simp add: new_vm_def)
qed

end
