(* ===== verification/Vm_Protect.thy ===== *)
theory Vm_Protect
  imports Vm_Area
begin

text \<open>
  \<open>vm_area_pagefault\<close> and \<open>vm_area_mprotect\<close> of \<open>src/Assignment3/mmap.c\<close>. One activation of
  \<open>vm_area_mprotect\<close> changes the flags of the part of the range that lies in one area;
  what it does then (stop, or call itself for the rest) is a value of type \<open>protect\<close>.
\<close>

section \<open>The page fault handler\<close>

definition vm_area_pagefault ::
  "mm_config \<Rightarrow> 'k mmu \<Rightarrow> exec_context \<Rightarrow> u64 \<Rightarrow> i32 \<Rightarrow> 'k \<Rightarrow> i32 \<times> 'k" where
  "vm_area_pagefault cfg mmu ctx addr error_code k =
     (case find_vm (vm_areas ctx) addr of
        None \<Rightarrow> (- 1, invlpg mmu addr k)
      | Some v \<Rightarrow>
          if error_code = 6 \<and> access_flags v AND PROT_WRITE cfg \<noteq> 0 \<or> error_code = 4
          then (1, map_page mmu (pgd ctx) (page_prot cfg (access_flags v)) addr k)
          else (- 1, invlpg mmu addr k))"

section \<open>Changing the protection\<close>

text \<open>
  The first loop: whether the areas cover the \<open>length\<close> bytes from \<open>temp_addr\<close> on. The
  \<open>continue\<close> examines the same area again, with \<open>temp_addr\<close> at its end, and so goes on to
  the next one. \<open>temp1\<close> is an \<open>int\<close>.
\<close>

fun mprotect_covered :: "vm_area list \<Rightarrow> u64 \<Rightarrow> i32 \<Rightarrow> bool" where
  "mprotect_covered [] a len = False"
| "mprotect_covered (v # vs) a len =
     (if a \<ge> vm_start v \<and> a < vm_end v then
        (if a + sx len \<le> vm_end v then True
         else mprotect_covered vs (vm_end v) (to_int (sx len - (vm_end v - sx (to_int a)))))
      else mprotect_covered vs a len)"

text \<open>
  How an activation ends once the area is found: the new chain with \<open>ret_val = 0\<close>;
  \<open>return -1\<close>; the call for the rest of the range; a null pointer dereference, or a fault in
  the access to a freed area.
\<close>

datatype protect =
    Protected "vm_area list"
  | Unprotected
  | Protect_Rest "vm_area list" u64 i32
  | Protect_Crash

text \<open>The range starts inside \<open>cur\<close>.\<close>

definition protect_inside ::
  "nat \<Rightarrow> vm_area list \<Rightarrow> vm_area \<Rightarrow> vm_area list \<Rightarrow> u64 \<Rightarrow> i32 \<Rightarrow> u32 \<Rightarrow> protect" where
  "protect_inside n pre cur rest addr len prot =
     (if access_flags cur = prot \<and> addr + sx len \<le> vm_end cur then
        Protected (pre @ cur # rest)
      else if addr + sx len < vm_end cur then
        (if n \<ge> 127 then Unprotected
         else Protected (pre @ cur\<lparr>vm_end := addr\<rparr> # new_vm addr (addr + sx len) prot
                # new_vm (addr + sx len) (vm_end cur) (access_flags cur) # rest))
      else if addr + sx len = vm_end cur then
        (if rest = [] \<or> vm_start (hd rest) \<noteq> vm_end cur \<or> access_flags (hd rest) \<noteq> prot then
           (if n \<ge> 128 then Unprotected
            else Protected (pre @ cur\<lparr>vm_end := addr\<rparr> # new_vm addr (addr + sx len) prot # rest))
         else Protected (pre @ cur\<lparr>vm_end := addr\<rparr> # (hd rest)\<lparr>vm_start := addr\<rparr> # tl rest))
      else if rest = [] then Unprotected
      else if access_flags cur = prot then
        Protect_Rest (pre @ cur # rest) (vm_end cur) (to_int (sx len - (vm_end cur - addr)))
      else if n \<ge> 128 then Unprotected
      else Protect_Rest (pre @ cur\<lparr>vm_end := addr\<rparr> # new_vm addr (vm_end cur) prot # rest)
             (vm_end cur) (to_int (sx len - (vm_end cur - addr))))"

text \<open>
  The range starts at the start of \<open>cur\<close>. When \<open>cur\<close> is absorbed by its predecessor, the code
  frees it and then reads its \<open>vm_end\<close> and what its \<open>vm_next\<close> points to. What is found there is
  the parameter \<open>freed\<close>: any area with any areas behind it, or \<^const>\<open>None\<close> when the access faults.
\<close>

type_synonym freed_view = "vm_area \<Rightarrow> vm_area list \<Rightarrow> (vm_area \<times> vm_area list) option"

definition joins_prev :: "vm_area list \<Rightarrow> vm_area \<Rightarrow> u32 \<Rightarrow> bool" where
  "joins_prev pre cur prot \<longleftrightarrow>
     pre \<noteq> [] \<and> vm_end (last pre) = vm_start cur \<and> access_flags (last pre) = prot"

definition joins_next :: "vm_area \<Rightarrow> vm_area list \<Rightarrow> u32 \<Rightarrow> bool" where
  "joins_next cur rest prot \<longleftrightarrow>
     rest \<noteq> [] \<and> vm_end cur = vm_start (hd rest) \<and> access_flags (hd rest) = prot"

definition protect_front ::
  "freed_view \<Rightarrow> nat \<Rightarrow> vm_area list \<Rightarrow> vm_area \<Rightarrow> vm_area list \<Rightarrow> u64 \<Rightarrow> i32 \<Rightarrow> u32
     \<Rightarrow> protect" where
  "protect_front freed n pre cur rest addr len prot =
     (let before = butlast pre; prev = last pre in
      if addr + sx len < vm_end cur then
        (if access_flags cur = prot then Protected (pre @ cur # rest)
         else if joins_prev pre cur prot then
           Protected (before @ prev\<lparr>vm_end := addr + sx len\<rparr> # cur\<lparr>vm_start := addr + sx len\<rparr> # rest)
         else if n \<ge> 128 then Unprotected
         else Protected (pre @ new_vm addr (addr + sx len) prot
                # cur\<lparr>vm_start := addr + sx len\<rparr> # rest))
      else if addr + sx len = vm_end cur then
        (if joins_prev pre cur prot then
           (let prev' = prev\<lparr>vm_end := vm_end cur\<rparr> in
            case freed cur rest of
              None \<Rightarrow> Protect_Crash
            | Some (cur', rest') \<Rightarrow>
                if joins_next cur' rest' prot then
                  (if rest = [] then Protect_Crash
                   else Protected (before @ prev'\<lparr>vm_end := vm_end (hd rest)\<rparr> # tl rest))
                else Protected (before @ prev' # rest))
         else
           (let cur' = cur\<lparr>access_flags := prot\<rparr> in
            if joins_next cur' rest prot then
              Protected (pre @ cur'\<lparr>vm_end := vm_end (hd rest)\<rparr> # tl rest)
            else Protected (pre @ cur' # rest)))
      else if rest = [] then Unprotected
      else
        (let len' = to_int (sx len - (vm_end cur - addr)) in
         if joins_prev pre cur prot then
           Protect_Rest (before @ prev\<lparr>vm_end := vm_end cur\<rparr> # rest) (vm_end cur) len'
         else if access_flags cur = prot then Protect_Rest (pre @ cur # rest) (vm_end cur) len'
         else Protect_Rest (pre @ cur\<lparr>access_flags := prot\<rparr> # rest) (vm_end cur) len'))"

definition protect_step ::
  "freed_view \<Rightarrow> vm_area list \<Rightarrow> u64 \<Rightarrow> i32 \<Rightarrow> u32 \<Rightarrow> protect" where
  "protect_step freed vms addr len prot =
     (let (pre, suf) = split_vms addr vms in
      case suf of
        [] \<Rightarrow> Unprotected
      | cur # rest \<Rightarrow>
          if addr < vm_start cur then Unprotected
          else if addr > vm_start cur then protect_inside (length vms) pre cur rest addr len prot
          else protect_front freed (length vms) pre cur rest addr len prot)"

lemma protect_step_rest:
  "protect_step freed vms addr len prot = Protect_Rest vms' a len' \<Longrightarrow> addr < a"
  by (auto simp: protect_step_def protect_inside_def protect_front_def Let_def
      dest: split_vms_suf split: prod.splits list.splits if_splits option.splits)

function vm_area_mprotect ::
  "mm_config \<Rightarrow> 'k mmu \<Rightarrow> freed_view \<Rightarrow> exec_context \<Rightarrow> u64 \<Rightarrow> i32 \<Rightarrow> u32 \<Rightarrow> 'k
     \<Rightarrow> (i32 \<times> exec_context \<times> 'k) run" where
  "vm_area_mprotect cfg mmu freed ctx addr len prot k =
     (let vms = vm_areas ctx in
      if \<not> mprotect_covered vms addr len then Returns (- 1, ctx, k)
      else
        (let len = page_round len in
         if length vms > 128 then Returns (- 1, ctx, k)
         else if addr < MMAP_AREA_START cfg \<or> addr + sx len > MMAP_AREA_END cfg then
           Returns (- 1, ctx, k)
         else
           (case protect_step freed vms addr len prot of
              Unprotected \<Rightarrow> Returns (- 1, ctx, k)
            | Protect_Crash \<Rightarrow> Faults
            | Protect_Rest vms' a len' \<Rightarrow>
                vm_area_mprotect cfg mmu freed (ctx\<lparr>vm_areas := vms'\<rparr>) a len' prot k
            | Protected vms' \<Rightarrow>
                (let ctx' = ctx\<lparr>vm_areas := vms'\<rparr> in
                 run_of_option (map_option (\<lambda>k'. (0, ctx', k'))
                   (update_map cfg mmu ctx' addr prot len k))))))"
  by pat_completeness auto
termination
proof (relation "measure (\<lambda>(cfg, mmu, freed, ctx, addr, len, prot, k). 2 ^ 64 - unat addr)", goal_cases)
  case (2 cfg mmu freed ctx addr len prot k vms len1 vms' a len')
  then have "unat addr < unat a"
    using protect_step_rest [OF "2"(6)] by (simp add: word_less_nat_alt)
  moreover have "unat a < 2 ^ 64"
    using unsigned_less [of a, where ?'a = nat] by simp
  ultimately show ?case
    by simp
qed simp

declare vm_area_mprotect.simps [simp del]

definition mprotect_refuses ::
  "mm_config \<Rightarrow> vm_area list \<Rightarrow> u64 \<Rightarrow> i32 \<Rightarrow> bool" where
  "mprotect_refuses cfg vms a len \<longleftrightarrow> \<not> mprotect_covered vms a len \<or> length vms > 128
     \<or> a < MMAP_AREA_START cfg \<or> a + sx (page_round len) > MMAP_AREA_END cfg"

lemma vm_area_mprotect_refuses:
  "mprotect_refuses cfg (vm_areas ctx) a len \<Longrightarrow>
    vm_area_mprotect cfg mmu freed ctx a len p k = Returns (- 1, ctx, k)"
  by (subst vm_area_mprotect.simps) (auto simp: mprotect_refuses_def Let_def)

lemma vm_area_mprotect_step:
  "\<not> mprotect_refuses cfg (vm_areas ctx) a len \<Longrightarrow>
    vm_area_mprotect cfg mmu freed ctx a len p k =
      (case protect_step freed (vm_areas ctx) a (page_round len) p of
         Unprotected \<Rightarrow> Returns (- 1, ctx, k)
       | Protect_Crash \<Rightarrow> Faults
       | Protect_Rest vms' a' len' \<Rightarrow>
           vm_area_mprotect cfg mmu freed (ctx\<lparr>vm_areas := vms'\<rparr>) a' len' p k
       | Protected vms' \<Rightarrow> run_of_option (map_option (\<lambda>k'. (0, ctx\<lparr>vm_areas := vms'\<rparr>, k'))
           (update_map cfg mmu (ctx\<lparr>vm_areas := vms'\<rparr>) a p (page_round len) k)))"
  by (subst vm_area_mprotect.simps)
    (simp add: mprotect_refuses_def Let_def cong: protect.case_cong)

section \<open>Coverage\<close>

definition covered :: "vm_area list \<Rightarrow> u64 \<Rightarrow> u64 \<Rightarrow> bool" where
  "covered vms a e \<longleftrightarrow> (\<forall>x. a \<le> x \<longrightarrow> x < e \<longrightarrow> perm_at vms x \<noteq> None)"

lemma to_int_minus: "to_int (x - y) = to_int x - to_int y"
proof -
  have "x - y = word_of_int (uint x - uint y)"
    unfolding wi_hom_sub [symmetric] by simp
  then show ?thesis
    by (simp only: to_int_word_of_int) (simp only: to_int_eq wi_hom_sub)
qed

lemma to_int_rest: "to_int (sx len - (b - sx (to_int a))) = to_int (sx len - (b - a))"
  by (simp add: to_int_minus)

lemma covered_Cons_in:
  assumes "vms_in b hi (v # vs)" "vm_start v \<le> a" "a < vm_end v"
  shows "covered (v # vs) a e \<longleftrightarrow> covered vs (vm_end v) e"
proof -
  have "\<not> x < vm_end v" if "vm_end v \<le> x" for x
    using that by auto
  then show ?thesis
    using assms unfolding covered_def by (auto simp: not_less)
qed

lemma covered_Cons_out:
  assumes "vms_in b hi (v # vs)" "\<not> (vm_start v \<le> a \<and> a < vm_end v)" "a < e"
  shows "covered (v # vs) a e \<longleftrightarrow> covered vs a e"
proof (cases "a < vm_start v")
  case True
  then have "perm_at (v # vs) a = None" "perm_at vs a = None"
    using assms(1) by (auto intro!: perm_at_outside [of "vm_end v" hi])
  then show ?thesis
    using assms(3) unfolding covered_def by (metis order.refl)
next
  case False
  then have "\<not> x < vm_end v" if "a \<le> x" for x
    using assms(2) that by auto
  then show ?thesis
    unfolding covered_def by auto
qed

lemma mprotect_covered_iff:
  assumes "hi \<le> 2 ^ 62" "hi - lo \<le> 2 ^ 31 - 4096" "lo \<le> b"
  shows "vms_in b hi vms \<Longrightarrow> 0 < sint len \<Longrightarrow> a \<le> 2 ^ 62 \<Longrightarrow>
    mprotect_covered vms a len \<longleftrightarrow> covered vms a (a + sx len)"
  using assms(3)
proof (induction vms arbitrary: a len b)
  case Nil
  have "(2::u64) ^ 62 \<le> 2 ^ 63"
    by simp
  then have "a < a + sx len"
    using Nil by (intro less_add_sx) (auto intro: order.trans)
  then show ?case
    unfolding covered_def by (metis mprotect_covered.simps(1) order.refl perm_at_Nil)
next
  case (Cons v vs)
  have v: "b \<le> vm_start v" "vm_start v < vm_end v" "vms_in (vm_end v) hi vs"
    using Cons.prems(1) by simp_all
  have l: "lo \<le> vm_start v" "lo \<le> vm_end v"
    using v Cons.prems(4) by auto
  have h: "vm_end v \<le> hi"
    using v(3) by (rule vms_in_le)
  have "(2::u64) ^ 62 \<le> 2 ^ 63"
    by simp
  then have lt: "a < a + sx len"
    using Cons.prems by (intro less_add_sx) (auto intro: order.trans)
  show ?case
  proof (cases "vm_start v \<le> a \<and> a < vm_end v")
    case inv: True
    show ?thesis
    proof (cases "a + sx len \<le> vm_end v")
      case True
      then have "covered (v # vs) a (a + sx len)"
        using inv by (auto simp: covered_def)
      with True inv show ?thesis
        by simp
    next
      case False
      let ?len = "to_int (sx len - (vm_end v - a))"
      have r: "0 < sint ?len \<and> vm_end v + sx ?len = a + sx len"
      proof (rule rest_length(1))
        show "a \<le> vm_end v" "lo \<le> a + sx len" "lo \<le> hi"
          using inv l lt h by auto
      qed (use False assms Cons.prems h in auto)
      have "vm_end v \<le> 2 ^ 62"
        using h assms(1) by (rule order.trans)
      from Cons.IH [OF v(3) _ this l(2), of ?len] r
      have "mprotect_covered vs (vm_end v) ?len \<longleftrightarrow> covered vs (vm_end v) (a + sx len)"
        by simp
      then show ?thesis
        using False inv covered_Cons_in [OF Cons.prems(1)] by (simp add: to_int_rest)
    qed
  next
    case False
    then have "mprotect_covered (v # vs) a len \<longleftrightarrow> mprotect_covered vs a len"
      by auto
    then show ?thesis
      using Cons.IH [OF v(3) Cons.prems(2,3) l(2)] covered_Cons_out [OF Cons.prems(1) False lt] by simp
  qed
qed

section \<open>Protected ranges\<close>

definition protects ::
  "u64 \<Rightarrow> u64 \<Rightarrow> u64 \<Rightarrow> u64 \<Rightarrow> u32 \<Rightarrow> vm_area list \<Rightarrow> vm_area list \<Rightarrow> bool" where
  "protects b hi a m p vms vms' \<longleftrightarrow>
     (\<forall>x. perm_at vms' x = (if a \<le> x \<and> x < m then Some p else perm_at vms x))
     \<and> vms_in b hi vms'"

lemma protects_append:
  assumes "protects c hi a m p vs vs'" "vms_in b c pre" "c \<le> a"
  shows "protects b hi a m p (pre @ vs) (pre @ vs')"
proof -
  have "perm_at pre x = None" if "a \<le> x" for x
    using assms(2,3) that by (intro perm_at_outside [of b c]) auto
  moreover have "vms_in b hi (pre @ vs')"
    using assms by (intro vms_in_append) (auto simp: protects_def)
  ultimately show ?thesis
    using assms(1) by (auto simp: protects_def perm_at_append split: option.splits)
qed

lemma protects_same:
  assumes "vms_in b hi (v # vs)" "vm_start v \<le> a" "m \<le> vm_end v" "access_flags v = p"
  shows "protects b hi a m p (v # vs) (v # vs)"
  using assms by (auto simp: protects_def)

lemma protects_none:
  assumes "vms_in b hi vs"
  shows "protects b hi a a p vs vs"
  using assms by (auto simp: protects_def)

text \<open>The ten shapes an activation gives the chain.\<close>

lemma rest_none: "vms_in b hi (v # vs) \<Longrightarrow> x < vm_end v \<Longrightarrow> perm_at vs x = None"
  by (auto intro!: perm_at_outside [of "vm_end v" hi])

lemma protects_middle:
  assumes v: "vms_in (vm_start v) hi (v # vs)" and "vm_start v < a" "a < m" "m < vm_end v"
  shows "protects (vm_start v) hi a m p (v # vs)
    (v\<lparr>vm_end := a\<rparr> # new_vm a m p # new_vm m (vm_end v) (access_flags v) # vs)"
  using assms rest_none [OF v] by (auto simp: protects_def not_less)

lemma protects_tail:
  assumes v: "vms_in (vm_start v) hi (v # vs)" and "vm_start v < a" "a < vm_end v"
  shows "protects (vm_start v) hi a (vm_end v) p (v # vs)
    (v\<lparr>vm_end := a\<rparr> # new_vm a (vm_end v) p # vs)"
  using assms rest_none [OF v] by (auto simp: protects_def not_less)

lemma protects_head:
  assumes v: "vms_in (vm_start v) hi (v # vs)" and "vm_start v < m" "m < vm_end v"
  shows "protects (vm_start v) hi (vm_start v) m p (v # vs)
    (new_vm (vm_start v) m p # v\<lparr>vm_start := m\<rparr> # vs)"
  using assms rest_none [OF v] by (auto simp: protects_def not_less)

lemma protects_flags:
  assumes v: "vms_in (vm_start v) hi (v # vs)"
  shows "protects (vm_start v) hi (vm_start v) (vm_end v) p (v # vs) (v\<lparr>access_flags := p\<rparr> # vs)"
  using v rest_none [OF v] by (auto simp: protects_def not_less)

lemma protects_into_next:
  assumes v: "vms_in (vm_start v) hi (v # w # ws)" and "vm_start v < a" "a < vm_end v"
    and "vm_start w = vm_end v" "access_flags w = p"
  shows "protects (vm_start v) hi a (vm_end v) p (v # w # ws)
    (v\<lparr>vm_end := a\<rparr> # w\<lparr>vm_start := a\<rparr> # ws)"
  using assms by (auto simp: protects_def not_less)

lemma protects_join_next:
  assumes v: "vms_in (vm_start v) hi (v # w # ws)"
    and "vm_start w = vm_end v" "access_flags w = p"
  shows "protects (vm_start v) hi (vm_start v) (vm_end v) p (v # w # ws)
    (v\<lparr>access_flags := p, vm_end := vm_end w\<rparr> # ws)"
  using assms rest_none [of "vm_end v" hi w ws] by (auto simp: protects_def not_less)

lemma protects_prev_grows:
  assumes u: "vms_in (vm_start u) hi (u # v # vs)"
    and "vm_end u = vm_start v" "access_flags u = p" "vm_start v < m" "m < vm_end v"
  shows "protects (vm_start u) hi (vm_start v) m p (u # v # vs)
    (u\<lparr>vm_end := m\<rparr> # v\<lparr>vm_start := m\<rparr> # vs)"
proof -
  have v: "vms_in (vm_start v) hi (v # vs)"
    using u by simp
  show ?thesis
    using assms rest_none [OF v] by (auto simp: protects_def not_less)
qed

lemma protects_prev_absorbs:
  assumes u: "vms_in (vm_start u) hi (u # v # vs)"
    and "vm_end u = vm_start v" "access_flags u = p"
  shows "protects (vm_start u) hi (vm_start v) (vm_end v) p (u # v # vs)
    (u\<lparr>vm_end := vm_end v\<rparr> # vs)"
proof -
  have v: "vms_in (vm_start v) hi (v # vs)"
    using u by simp
  show ?thesis
    using assms rest_none [OF v] by (auto simp: protects_def not_less)
qed

lemma protects_prev_absorbs_two:
  assumes u: "vms_in (vm_start u) hi (u # v # w # ws)"
    and "vm_end u = vm_start v" "access_flags u = p" "vm_end v = vm_start w" "access_flags w = p"
  shows "protects (vm_start u) hi (vm_start v) (vm_end v) p (u # v # w # ws)
    (u\<lparr>vm_end := vm_end w\<rparr> # ws)"
proof -
  have v: "vms_in (vm_start v) hi (v # w # ws)" and w: "vms_in (vm_start w) hi (w # ws)"
    using u by simp_all
  show ?thesis
    using assms rest_none [OF v] rest_none [OF w] by (auto simp: protects_def not_less)
qed

text \<open>
  Behind the freed area the predecessor is merged with the area after it whatever the two are, if
  the freed area shows it so: the gap between them and that area get the flags too.
\<close>

lemma protects_prev_absorbs_gap:
  assumes u: "vms_in (vm_start u) hi (u # v # w # ws)"
    and "vm_end u = vm_start v" "access_flags u = p"
  shows "protects (vm_start u) hi (vm_start v) (vm_end w) p (u # v # w # ws)
    (u\<lparr>vm_end := vm_end w\<rparr> # ws)"
proof -
  have v: "vms_in (vm_start v) hi (v # w # ws)" and w: "vms_in (vm_start w) hi (w # ws)"
    using u by simp_all
  have "vm_end v \<le> vm_start w" "vm_start w < vm_end w"
    using u by simp_all
  then show ?thesis
    using assms rest_none [OF v] rest_none [OF w] by (auto simp: protects_def not_less)
qed

lemma joins_prev_split:
  assumes "joins_prev pre cur p"
  shows "pre = butlast pre @ [last pre]" "vm_end (last pre) = vm_start cur"
    "access_flags (last pre) = p" "1 \<le> length pre"
  using assms by (auto simp: joins_prev_def Suc_le_eq)

text \<open>
  Two views of freed areas: one that shows what the area had, and one whose access faults. A call
  that does not fault with the second one has not read a freed area.
\<close>

definition freed_intact :: freed_view where
  "freed_intact v rest = Some (v, rest)"

definition freed_unreadable :: freed_view where
  "freed_unreadable v rest = None"

text \<open>
  Up to where the flags are changed by an activation that ends the call, for a range that ends at
  \<open>e\<close>: not exactly up to \<open>e\<close> only when a freed area was read, and then up to the end of an area.
\<close>

definition range_done :: "bool \<Rightarrow> vm_area list \<Rightarrow> u64 \<Rightarrow> u64 \<Rightarrow> bool" where
  "range_done exact vms e m \<longleftrightarrow> m = e \<or> \<not> exact \<and> e < m \<and> (\<exists>v \<in> set vms. m = vm_end v)"

text \<open>The activation at the area \<open>cur\<close> behind the areas \<open>pre\<close>.\<close>

definition at_area :: "u64 \<Rightarrow> u64 \<Rightarrow> vm_area list \<Rightarrow> vm_area \<Rightarrow> vm_area list \<Rightarrow> u64 \<Rightarrow> bool" where
  "at_area b hi pre cur rest a \<longleftrightarrow>
     vms_in b hi (pre @ cur # rest) \<and> vm_start cur \<le> a \<and> a < vm_end cur"

lemma at_areaD:
  assumes "at_area b hi pre cur rest a"
  shows "vms_in b (vm_start cur) pre" "vms_in (vm_start cur) hi (cur # rest)"
    "vm_start cur \<le> a" "a < vm_end cur"
  using assms by (auto simp: at_area_def vms_in_append_Cons)

lemma at_area_prev:
  assumes "at_area b hi pre cur rest a" "joins_prev pre cur p"
  shows "vms_in b (vm_start (last pre)) (butlast pre)"
    "vms_in (vm_start (last pre)) hi (last pre # cur # rest)"
    "vm_start (last pre) \<le> vm_start cur"
proof -
  have "vms_in b hi (butlast pre @ last pre # cur # rest)"
    using assms joins_prev_split(1) [OF assms(2)] unfolding at_area_def
    by (metis append.assoc append_Cons append_Nil)
  then show "vms_in b (vm_start (last pre)) (butlast pre)"
    "vms_in (vm_start (last pre)) hi (last pre # cur # rest)"
    "vm_start (last pre) \<le> vm_start cur"
    by (auto simp: vms_in_append_Cons)
qed

lemma protects_behind_prev:
  assumes "at_area b hi pre cur rest a" "joins_prev pre cur p"
    and "protects (vm_start (last pre)) hi (vm_start cur) m p (last pre # cur # rest) vs'"
  shows "protects b hi (vm_start cur) m p (pre @ cur # rest) (butlast pre @ vs')"
proof -
  have e: "pre @ cur # rest = butlast pre @ last pre # cur # rest"
    using joins_prev_split(1) [OF assms(2)] by (metis append.assoc append_Cons append_Nil)
  show ?thesis
    unfolding e by (rule protects_append [OF assms(3) at_area_prev(1,3) [OF assms(1,2)]])
qed

lemma protects_behind:
  assumes "at_area b hi pre cur rest a" 
    and "protects (vm_start cur) hi a m p (cur # rest) vs'"
  shows "protects b hi a m p (pre @ cur # rest) (pre @ vs')"
  using protects_append [OF assms(2)] at_areaD [OF assms(1)] by blast

lemma protect_inside_done:
  assumes "protect_inside n pre cur rest a len p = Protected vms'"
    and "at_area b hi pre cur rest a" "vm_start cur < a" "a < a + sx len"
    and "n = length (pre @ cur # rest)" "n \<le> 128"
  shows "a + sx len \<le> vm_end cur \<and> protects b hi a (a + sx len) p (pre @ cur # rest) vms'
    \<and> length vms' \<le> 128"
proof -
  note D = at_areaD [OF assms(2)]
  note B = protects_behind [OF assms(2)]
  let ?e = "a + sx len"
  consider "access_flags cur = p" "?e \<le> vm_end cur" "vms' = pre @ cur # rest"
    | "?e < vm_end cur" "n < 127" "vms' = pre @ cur\<lparr>vm_end := a\<rparr> # new_vm a ?e p
        # new_vm ?e (vm_end cur) (access_flags cur) # rest"
    | "?e = vm_end cur" "n < 128" "vms' = pre @ cur\<lparr>vm_end := a\<rparr> # new_vm a ?e p # rest"
    | w ws where "?e = vm_end cur" "rest = w # ws" "vm_start w = vm_end cur" "access_flags w = p"
        "vms' = pre @ cur\<lparr>vm_end := a\<rparr> # w\<lparr>vm_start := a\<rparr> # ws"
    using assms(1) by (cases rest) (auto simp: protect_inside_def split: if_splits)
  then show ?thesis
  proof cases
    case 1
    then show ?thesis
      using B protects_same D assms(5,6) by (metis order.refl)
  next
    case 2
    then show ?thesis
      using B [OF protects_middle [OF D(2)]] assms(3-6) by auto
  next
    case 3
    then show ?thesis
      using B [OF protects_tail [OF D(2)]] D assms(3-6) by auto
  next
    case 4
    then show ?thesis
      using B [of "vm_end cur"] protects_into_next [of cur hi w ws a p] D assms(3-6) by auto
  qed
qed

lemma protect_front_done:
  assumes "protect_front freed n pre cur rest a len p = Protected vms'"
    and "at_area b hi pre cur rest a" "vm_start cur = a" "a < a + sx len"
    and "n = length (pre @ cur # rest)" "n \<le> 128" "exact \<longrightarrow> freed = freed_intact"
  shows "a + sx len \<le> vm_end cur \<and> length vms' \<le> 128
    \<and> (\<exists>m. range_done exact (pre @ cur # rest) (a + sx len) m \<and> protects b hi a m p (pre @ cur # rest) vms')"
proof -
  note D = at_areaD [OF assms(2)]
  note B = protects_behind [OF assms(2)]
  let ?e = "a + sx len" and ?u = "last pre"
  have exactly: "range_done exact (pre @ cur # rest) ?e ?e"
    by (simp add: range_done_def)
  consider
      (same) "?e < vm_end cur" "access_flags cur = p" "vms' = pre @ cur # rest"
    | (prev_grows) "?e < vm_end cur" "joins_prev pre cur p"
        "vms' = butlast pre @ ?u\<lparr>vm_end := ?e\<rparr> # cur\<lparr>vm_start := ?e\<rparr> # rest"
    | (head) "?e < vm_end cur" "n < 128" "vms' = pre @ new_vm a ?e p # cur\<lparr>vm_start := ?e\<rparr> # rest"
    | (prev_absorbs) "?e = vm_end cur" "joins_prev pre cur p"
        "vms' = butlast pre @ ?u\<lparr>vm_end := vm_end cur\<rparr> # rest"
    | (prev_absorbs_two) w ws where "?e = vm_end cur" "joins_prev pre cur p" "rest = w # ws"
        "vm_end cur = vm_start w" "access_flags w = p"
        "vms' = butlast pre @ ?u\<lparr>vm_end := vm_end w\<rparr> # ws"
    | (prev_absorbs_gap) w ws where "\<not> exact" "?e = vm_end cur" "joins_prev pre cur p" "rest = w # ws"
        "vms' = butlast pre @ ?u\<lparr>vm_end := vm_end w\<rparr> # ws"
    | (flags) "?e = vm_end cur" "vms' = pre @ cur\<lparr>access_flags := p\<rparr> # rest"
    | (flags_next) w ws where "?e = vm_end cur" "rest = w # ws"
        "vm_end cur = vm_start w" "access_flags w = p"
        "vms' = pre @ cur\<lparr>access_flags := p, vm_end := vm_end w\<rparr> # ws"
  proof -
    have f: "freed cur rest = Some (cur, rest) \<or> \<not> exact"
      using assms(7) by (auto simp: freed_intact_def)
    show thesis
    proof (cases "?e < vm_end cur")
      case True
      then show ?thesis
        using assms(1,3) that(1-3) by (auto simp: protect_front_def Let_def not_le split: if_splits)
    next
      case False
      show ?thesis
      proof (cases "joins_prev pre cur p")
        case True
        then show ?thesis
          using assms(1) False that(4-6) f
          by (cases rest) (auto simp: protect_front_def Let_def joins_next_def
              split: if_splits prod.splits option.splits)
      next
        case no: False
        then show ?thesis
          using assms(1) False that(7,8)
          by (cases rest) (auto simp: protect_front_def Let_def joins_next_def split: if_splits)
      qed
    qed
  qed
  then show ?thesis
  proof cases
    case same
    then show ?thesis
      using B [OF protects_same [OF D(2)]] assms(3-6) exactly by auto
  next
    case prev_grows
    then show ?thesis
      using protects_behind_prev [OF assms(2) _ protects_prev_grows [OF at_area_prev(2) [OF assms(2)]]]
        joins_prev_split [of pre cur p] assms(3-6) exactly by auto
  next
    case head
    then show ?thesis
      using B [of ?e p] protects_head [OF D(2), of ?e p] assms(3-6) exactly by auto
  next
    case prev_absorbs
    then show ?thesis
      using protects_behind_prev [OF assms(2) _ protects_prev_absorbs [OF at_area_prev(2) [OF assms(2)]]]
        joins_prev_split [of pre cur p] assms(3-6) exactly by auto
  next
    case prev_absorbs_two
    note e = prev_absorbs_two
    have "vms_in (vm_start ?u) hi (?u # cur # w # ws)"
      using at_area_prev(2) [OF assms(2) e(2)] e(3) by simp
    from protects_prev_absorbs_two [OF this, of p] show ?thesis
      using e protects_behind_prev [OF assms(2) e(2)]
        joins_prev_split [OF e(2)] assms(3-6) exactly by auto
  next
    case prev_absorbs_gap
    note e = prev_absorbs_gap
    have u: "vms_in (vm_start ?u) hi (?u # cur # w # ws)"
      using at_area_prev(2) [OF assms(2) e(3)] e(4) by simp
    then have "?e < vm_end w"
      using e(2) by auto
    then have "range_done exact (pre @ cur # rest) ?e (vm_end w)"
      using e(1,4) by (auto simp: range_done_def)
    moreover have "protects b hi a (vm_end w) p (pre @ cur # rest) vms'"
      using protects_prev_absorbs_gap [OF u, of p] protects_behind_prev [OF assms(2) e(3), of "vm_end w"]
        joins_prev_split [OF e(3)] e(4,5) assms(3) by auto
    ultimately show ?thesis
      using e(2,4,5) assms(5,6) by auto
  next
    case flags
    then show ?thesis
      using B [of ?e p] protects_flags [OF D(2), of p] assms(3-6) exactly by auto
  next
    case flags_next
    note e = flags_next
    have "vms_in (vm_start cur) hi (cur # w # ws)"
      using D(2) e(2) by simp
    from protects_join_next [OF this e(3) [symmetric] e(4)]
    have "protects b hi a ?e p (pre @ cur # rest) vms'"
      unfolding e(5) e(1) e(2) assms(3) by (rule B [unfolded e(2) assms(3)])
    with e(1,2,5) assms(5,6) exactly show ?thesis
      by auto
  qed
qed

lemma protects_append_right:
  assumes "protects b c a m p us us'" "vms_in c hi vs"
  shows "protects b hi a m p (us @ vs) (us' @ vs)"
  using assms unfolding protects_def
  by (auto simp: perm_at_append intro: vms_in_append)

definition rest_left :: "u64 \<Rightarrow> vm_area list \<Rightarrow> vm_area \<Rightarrow> vm_area list \<Rightarrow> u64 \<Rightarrow> i32 \<Rightarrow> u32
    \<Rightarrow> vm_area list \<Rightarrow> u64 \<Rightarrow> i32 \<Rightarrow> bool" where
  "rest_left b pre cur rest a len p vms' a' len' \<longleftrightarrow>
     vm_end cur < a + sx len \<and> rest \<noteq> [] \<and> a' = vm_end cur
     \<and> len' = to_int (sx len - (vm_end cur - a))
     \<and> (\<exists>front. vms' = front @ rest \<and> protects b (vm_end cur) a (vm_end cur) p (pre @ [cur]) front
          \<and> length front \<le> length pre + (if vm_start cur < a then 2 else 1))"

lemma at_area_front:
  assumes "at_area b hi pre cur rest a"
  shows "at_area b (vm_end cur) pre cur [] a"
  using assms by (simp add: at_area_def vms_in_append_Cons)

lemma protect_inside_rest:
  assumes "protect_inside n pre cur rest a len p = Protect_Rest vms' a' len'"
    and "at_area b hi pre cur rest a" "vm_start cur < a" 
    and "n = length (pre @ cur # rest)" "n \<le> 128"
  shows "rest_left b pre cur rest a len p vms' a' len' \<and> length vms' \<le> 128"
proof -
  note A = at_area_front [OF assms(2)]
  note D = at_areaD [OF A]
  note B = protects_behind [OF A]
  have x: "\<not> a + sx len < vm_end cur \<and> a + sx len \<noteq> vm_end cur"
    "rest \<noteq> []" "a' = vm_end cur" "len' = to_int (sx len - (vm_end cur - a))"
    using assms(1) by (auto simp: protect_inside_def split: if_splits)
  consider "access_flags cur = p" "vms' = pre @ cur # rest"
    | "n < 128" "vms' = pre @ cur\<lparr>vm_end := a\<rparr> # new_vm a (vm_end cur) p # rest"
    using assms(1) by (auto simp: protect_inside_def split: if_splits)
  then show ?thesis
  proof cases
    case 1
    then have "protects b (vm_end cur) a (vm_end cur) p (pre @ [cur]) (pre @ [cur])"
      using B [OF protects_same [OF D(2)]] assms(3) by auto
    with 1 x assms(4,5) show ?thesis
      unfolding rest_left_def by (auto intro!: exI [of _ "pre @ [cur]"])
  next
    case 2
    have "protects b (vm_end cur) a (vm_end cur) p (pre @ [cur])
        (pre @ [cur\<lparr>vm_end := a\<rparr>, new_vm a (vm_end cur) p])"
      using B [OF protects_tail [OF D(2)]] assms(3) D by auto
    with 2 x assms(3-5) show ?thesis
      unfolding rest_left_def
      by (auto intro!: exI [of _ "pre @ [cur\<lparr>vm_end := a\<rparr>, new_vm a (vm_end cur) p]"])
  qed
qed

lemma protect_front_rest:
  assumes "protect_front freed n pre cur rest a len p = Protect_Rest vms' a' len'"
    and "at_area b hi pre cur rest a" "vm_start cur = a"
    and "n = length (pre @ cur # rest)" "n \<le> 128"
  shows "rest_left b pre cur rest a len p vms' a' len' \<and> length vms' \<le> 128"
proof -
  note A = at_area_front [OF assms(2)]
  note D = at_areaD [OF A]
  note B = protects_behind [OF A]
  let ?u = "last pre"
  have x: "\<not> a + sx len < vm_end cur \<and> a + sx len \<noteq> vm_end cur"
    "rest \<noteq> []" "a' = vm_end cur" "len' = to_int (sx len - (vm_end cur - a))"
    using assms(1) by (auto simp: protect_front_def Let_def split: if_splits prod.splits option.splits)
  consider "joins_prev pre cur p" "vms' = butlast pre @ ?u\<lparr>vm_end := vm_end cur\<rparr> # rest"
    | "access_flags cur = p" "vms' = pre @ cur # rest"
    | "vms' = pre @ cur\<lparr>access_flags := p\<rparr> # rest"
    using assms(1) by (auto simp: protect_front_def Let_def split: if_splits prod.splits option.splits)
  then show ?thesis
  proof cases
    case 1
    note j = joins_prev_split [OF 1(1)]
    from protects_behind_prev [OF A 1(1) protects_prev_absorbs [OF at_area_prev(2) [OF A 1(1)] j(2,3)]]
    have "protects b (vm_end cur) a (vm_end cur) p (pre @ [cur])
        (butlast pre @ [?u\<lparr>vm_end := vm_end cur\<rparr>])"
      unfolding assms(3) .
    with 1 x assms(3-5) joins_prev_split(4) [OF 1(1)] show ?thesis
      unfolding rest_left_def
      by (auto intro!: exI [of _ "butlast pre @ [?u\<lparr>vm_end := vm_end cur\<rparr>]"])
  next
    case 2
    then have "protects b (vm_end cur) a (vm_end cur) p (pre @ [cur]) (pre @ [cur])"
      using B [OF protects_same [OF D(2)]] assms(3) by auto
    with 2 x assms(3-5) show ?thesis
      unfolding rest_left_def by (auto intro!: exI [of _ "pre @ [cur]"])
  next
    case 3
    have "protects b (vm_end cur) a (vm_end cur) p (pre @ [cur]) (pre @ [cur\<lparr>access_flags := p\<rparr>])"
      using B protects_flags [OF D(2), of p] assms(3) by auto
    with 3 x assms(3-5) show ?thesis
      unfolding rest_left_def by (auto intro!: exI [of _ "pre @ [cur\<lparr>access_flags := p\<rparr>]"])
  qed
qed

lemma protect_front_no_crash: "protect_front freed_intact n pre cur rest a len p \<noteq> Protect_Crash"
  by (auto simp: protect_front_def Let_def joins_next_def freed_intact_def)

lemma protect_inside_no_crash: "protect_inside n pre cur rest a len p \<noteq> Protect_Crash"
  by (auto simp: protect_inside_def)

text \<open>One activation, at a chain whose areas cover the range.\<close>

lemma protect_step_split:
  assumes "vms_in b hi vms" "b \<le> a" "perm_at vms a \<noteq> None"
  obtains pre cur rest where "split_vms a vms = (pre, cur # rest)" "vms = pre @ cur # rest"
    "at_area b hi pre cur rest a"
proof -
  obtain pre suf where s: "split_vms a vms = (pre, suf)"
    by (cases "split_vms a vms")
  note v = split_vms_append [OF s]
  have pre: "perm_at pre a = None"
    using split_vms_pre [OF s assms(1,2)] by (rule perm_at_outside) simp
  then obtain cur rest where suf: "suf = cur # rest"
    using assms(3) v by (cases suf) auto
  with s have e: "a < vm_end cur"
    by (simp add: split_vms_suf)
  have "vms_in (vm_end cur) hi rest"
    using assms(1) v suf by (simp add: vms_in_append_Cons)
  then have "perm_at rest a = None"
    by (rule perm_at_outside) (simp add: e)
  then have "vm_start cur \<le> a"
    using assms(3) v suf pre by (auto simp: perm_at_append split: if_splits)
  with e s v suf assms(1) show thesis
    by (intro that) (auto simp: at_area_def)
qed

lemma protect_step_cases:
  assumes "vms_in b hi vms" "b \<le> a" "covered vms a (a + sx len)" "a < a + sx len"
    and "length vms \<le> 128" "exact \<longrightarrow> freed = freed_intact"
  obtains
      (crash) "\<not> exact" "protect_step freed vms a len p = Protect_Crash"
    | (refused) "protect_step freed vms a len p = Unprotected"
        "127 \<le> length vms" "(\<exists>v \<in> set vms. vm_start v = a) \<Longrightarrow> 128 \<le> length vms"
    | (stop) pre cur rest vms' m where "protect_step freed vms a len p = Protected vms'"
        "vms = pre @ cur # rest" "at_area b hi pre cur rest a" "a + sx len \<le> vm_end cur"
        "range_done exact vms (a + sx len) m" "protects b hi a m p vms vms'" "length vms' \<le> 128"
    | (more) pre cur rest vms' a' len' where
        "protect_step freed vms a len p = Protect_Rest vms' a' len'"
        "vms = pre @ cur # rest" "at_area b hi pre cur rest a"
        "rest_left b pre cur rest a len p vms' a' len'" "length vms' \<le> 128"
proof -
  have "perm_at vms a \<noteq> None"
    using assms(3,4) by (auto simp: covered_def)
  from protect_step_split [OF assms(1,2) this] obtain pre cur rest where
    s: "split_vms a vms = (pre, cur # rest)" and v: "vms = pre @ cur # rest"
    and A: "at_area b hi pre cur rest a"
    by blast
  note D = at_areaD [OF A]
  have rest: "rest \<noteq> []" if "vm_end cur < a + sx len"
  proof
    assume "rest = []"
    moreover have "perm_at pre (vm_end cur) = None"
      using D by (intro perm_at_outside [OF D(1)]) auto
    ultimately have "perm_at vms (vm_end cur) = None"
      using v by (auto simp: perm_at_append)
    then show False
      using assms(3) that less_imp_le [OF D(4)] by (auto simp: covered_def)
  qed
  have start: "\<not> (\<exists>z \<in> set vms. vm_start z = a)" if "vm_start cur < a"
  proof
    assume "\<exists>z \<in> set vms. vm_start z = a"
    then obtain z where z: "z \<in> set pre \<or> z = cur \<or> z \<in> set rest" "vm_start z = a"
      using v by auto
    have "z \<in> set pre \<Longrightarrow> vm_start z < vm_start cur" "z \<in> set rest \<Longrightarrow> vm_end cur \<le> vm_start z"
      using vms_in_set [OF D(1), of z] vms_in_set [of "vm_end cur" hi rest z] D(2) by auto
    then show False
      using z that D by auto
  qed
  let ?n = "length vms"
  show thesis
  proof (cases "vm_start cur < a")
    case True
    then have st: "protect_step freed vms a len p = protect_inside ?n pre cur rest a len p"
      using s by (auto simp: protect_step_def)
    show ?thesis
    proof (cases "protect_inside ?n pre cur rest a len p")
      case (Protected vms')
      then show ?thesis
        using protect_inside_done [OF Protected A True assms(4)] v A assms(5) st
        by (intro stop [of vms' pre cur rest "a + sx len"]) (auto simp: range_done_def)
    next
      case Unprotected
      then have "127 \<le> ?n"
        using rest by (auto simp: protect_inside_def split: if_splits)
      then show ?thesis
        using Unprotected st start [OF True] by (intro refused) auto
    next
      case (Protect_Rest vms' a' len')
      then show ?thesis
        using protect_inside_rest [OF Protect_Rest A True] v A assms(5) st
        by (intro more [of vms' a' len' pre cur rest]) auto
    next
      case Protect_Crash
      then show ?thesis
        by (simp add: protect_inside_no_crash)
    qed
  next
    case False
    then have a: "vm_start cur = a"
      using D by auto
    then have st: "protect_step freed vms a len p = protect_front freed ?n pre cur rest a len p"
      using s by (auto simp: protect_step_def)
    show ?thesis
    proof (cases "protect_front freed ?n pre cur rest a len p")
      case (Protected vms')
      with protect_front_done [OF Protected A a assms(4) _ _ assms(6)] v A assms(5) st show ?thesis
        using stop [of vms' pre cur rest] by auto
    next
      case Unprotected
      then have "128 \<le> ?n"
        using rest by (auto simp: protect_front_def Let_def split: if_splits prod.splits option.splits)
      then show ?thesis
        using Unprotected st by (intro refused) auto
    next
      case (Protect_Rest vms' a' len')
      then show ?thesis
        using protect_front_rest [OF Protect_Rest A a] v A assms(5) st
        by (intro more [of vms' a' len' pre cur rest]) auto
    next
      case Protect_Crash
      moreover from this have "\<not> exact"
        using assms(6) protect_front_no_crash by auto
      ultimately show ?thesis
        using st by (intro crash) simp_all
    qed
  qed
qed

section \<open>The whole call\<close>

text \<open>
  Where the last activation starts: at the start of the last area that starts inside the
  range, or at \<open>a\<close>.
\<close>

fun last_piece :: "vm_area list \<Rightarrow> u64 \<Rightarrow> u64 \<Rightarrow> u64" where
  "last_piece [] a e = a"
| "last_piece (v # vs) a e =
     last_piece vs (if a < vm_start v \<and> vm_start v < e then vm_start v else a) e"

lemma last_piece_before:
  "(\<And>v. v \<in> set us \<Longrightarrow> vm_start v \<le> a) \<Longrightarrow> last_piece (us @ vs) a e = last_piece vs a e"
  by (induction us) (auto simp: leD)

lemma last_piece_behind:
  "(\<And>v. v \<in> set vs \<Longrightarrow> e \<le> vm_start v) \<Longrightarrow> last_piece vs a e = a"
  by (induction vs) (auto simp: leD)

definition page_aligned :: "u64 \<Rightarrow> bool" where
  "page_aligned x \<longleftrightarrow> uint x mod 4096 = 0"

lemma covered_le:
  assumes "covered vms a e" "a < e" "vms_in b hi vms"
  shows "e \<le> hi"
proof (rule ccontr)
  assume "\<not> e \<le> hi"
  then have "a \<le> max a hi" "max a hi < e"
    using assms(2) by auto
  then have "perm_at vms (max a hi) \<noteq> None"
    using assms(1) unfolding covered_def by blast
  then show False
    using perm_at_outside [OF assms(3), of "max a hi"] by simp
qed

lemma protects_trans:
  assumes "protects b hi a c p vms vms1" "protects b hi c m p vms1 vms'" "a \<le> c" "c \<le> m"
  shows "protects b hi a m p vms vms'"
proof -
  have "(if c \<le> x \<and> x < m then Some p else if a \<le> x \<and> x < c then Some p else q)
      = (if a \<le> x \<and> x < m then Some p else q)" for x q
    using assms(3,4) by auto
  moreover have "perm_at vms1 x = (if a \<le> x \<and> x < c then Some p else perm_at vms x)"
    "perm_at vms' x = (if c \<le> x \<and> x < m then Some p else perm_at vms1 x)" for x
    using assms(1,2) by (simp_all add: protects_def)
  ultimately have "perm_at vms' x = (if a \<le> x \<and> x < m then Some p else perm_at vms x)" for x
    by (simp only:)
  with assms(2) show ?thesis
    by (simp add: protects_def)
qed

lemma at_area_start:
  assumes "at_area b hi pre cur rest a" "z \<in> set (pre @ cur # rest)" "vm_start z = a"
  shows "vm_start cur = a"
proof -
  note D = at_areaD [OF assms(1)]
  have "z \<in> set pre \<Longrightarrow> vm_start z < vm_start cur" "z \<in> set rest \<Longrightarrow> vm_end cur \<le> vm_start z"
    using vms_in_set [OF D(1), of z] vms_in_set [of "vm_end cur" hi rest z] D(2) by auto
  then show ?thesis
    using assms(2,3) D(3,4) by auto
qed

text \<open>The chain an activation leaves to the next one.\<close>

lemma rest_left_spec:
  assumes R: "rest_left b pre cur rest a len p vms' a' len'"
    and A: "at_area b hi pre cur rest a" and C: "covered (pre @ cur # rest) a (a + sx len)"
    and H: "0 < sint len" "hi \<le> 2 ^ 62" "lo \<le> b" "b \<le> a" "hi - lo \<le> 2 ^ 31 - 4096"
  shows "protects b hi a a' p (pre @ cur # rest) vms'" "a < a'" "a' < a + sx len"
    "0 < sint len'" "a' + sx len' = a + sx len" "sint len' = sint len - (uint a' - uint a)"
    "covered vms' a' (a + sx len)" "\<exists>v \<in> set vms'. vm_start v = a'"
    "length vms' \<le> length (pre @ cur # rest) + (if vm_start cur < a then 1 else 0)"
    "last_piece vms' a' (a + sx len) = last_piece (pre @ cur # rest) a (a + sx len)"
    "{v \<in> set vms'. a' < vm_end v} \<subseteq> set rest"
proof -
  let ?e = "a + sx len"
  note D = at_areaD [OF A]
  obtain front where vms': "vms' = front @ rest" and ne: "rest \<noteq> []"
    and front: "protects b (vm_end cur) a (vm_end cur) p (pre @ [cur]) front"
      "length front \<le> length pre + (if vm_start cur < a then 2 else 1)"
    and a': "a' = vm_end cur" and e: "vm_end cur < ?e"
    and len': "len' = to_int (sx len - (vm_end cur - a))"
    using R unfolding rest_left_def by blast
  have v: "vms_in (vm_end cur) hi rest"
    using D(2) by simp
  have "protects b hi a (vm_end cur) p ((pre @ [cur]) @ rest) (front @ rest)"
    by (rule protects_append_right [OF front(1) v])
  then show P: "protects b hi a a' p (pre @ cur # rest) vms'"
    unfolding a' vms' by simp
  show a: "a < a'" "a' < ?e"
    using D e a' by simp_all
  have "vm_end cur \<le> hi"
    using v by (rule vms_in_le)
  moreover from this have "lo \<le> hi" "lo \<le> ?e"
    using H(3,4) a unfolding a' by auto
  ultimately show l: "0 < sint len'" "a' + sx len' = ?e"
    using rest_length(1) [of len a "vm_end cur" hi lo] H D(4) e unfolding len' a' by auto
  show "covered vms' a' ?e"
    using C P less_imp_le [OF a(1)] unfolding covered_def protects_def by (auto simp: not_less)
  obtain w ws where w: "rest = w # ws"
    using ne by (cases rest) auto
  have "perm_at (pre @ cur # rest) a' \<noteq> None"
    using C a unfolding covered_def by (meson less_imp_le order.refl)
  moreover have "vms_in b (vm_end cur) (pre @ [cur])"
    using A by (simp add: at_area_def vms_in_append_Cons)
  then have "perm_at (pre @ [cur]) a' = None"
    unfolding a' by (rule perm_at_outside) simp
  then have "perm_at (pre @ cur # rest) a' = perm_at rest a'"
    by (auto simp: perm_at_append split: option.splits if_splits)
  ultimately have "\<not> a' < vm_start w"
    using perm_at_outside [of "vm_start w" hi "w # ws" a'] v w by auto
  then have ws: "vm_start w = a'"
    using v w a' by auto
  then show "\<exists>v \<in> set vms'. vm_start v = a'"
    using w vms' by auto
  show "length vms' \<le> length (pre @ cur # rest) + (if vm_start cur < a then 1 else 0)"
    using front(2) vms' by auto
  have "vm_start z \<le> a'" if "z \<in> set front" for z
    using vms_in_set [of b "vm_end cur" front z] front(1) that
    unfolding protects_def a' by auto
  then have "last_piece vms' a' ?e = last_piece ws a' ?e"
    unfolding vms' w by (subst last_piece_before) (auto simp: ws)
  moreover have "vm_start z \<le> a" if "z \<in> set (pre @ [cur])" for z
    using vms_in_set [OF D(1), of z] that D(3) by auto
  then have "last_piece ((pre @ [cur]) @ rest) a ?e = last_piece ws a' ?e"
    using a ws by (subst last_piece_before) (auto simp: w)
  ultimately show "last_piece vms' a' ?e = last_piece (pre @ cur # rest) a ?e"
    by simp
  have "vm_end z \<le> a'" if "z \<in> set front" for z
    using vms_in_set [of b "vm_end cur" front z] front(1) that
    unfolding protects_def a' by auto
  then show "{v \<in> set vms'. a' < vm_end v} \<subseteq> set rest"
    unfolding vms' by (auto simp: leD)
  have "(2::u64) ^ 62 \<le> 2 ^ 63"
    by simp
  with \<open>vm_end cur \<le> hi\<close> have b: "a' \<le> 2 ^ 63"
    using H(2) unfolding a' by (meson order.trans)
  then have "a \<le> 2 ^ 63"
    using a(1) by auto
  then have "uint a' + sint len' = uint a + sint len"
    using l b H(1) uint_add_sx [of a' len'] uint_add_sx [of a len] by simp
  then show "sint len' = sint len - (uint a' - uint a)"
    by simp
qed

lemma update_map_pages:
  assumes "a \<le> 2 ^ 62" "0 \<le> sint len"
  shows "update_map cfg mmu ctx a p len k
    = Some (fold (update_page mmu ctx (page_prot cfg p)) (pages a (a + sx len)) k)"
  unfolding update_map_def by (rule page_loop_pages [OF add_sx_le [OF assms]])

lemma update_page_vms [simp]:
  "update_page mmu (ctx\<lparr>vm_areas := vms\<rparr>) = update_page mmu ctx"
  by (rule ext)+ (simp add: update_page_def split: option.split)

lemma ctx_update:
  "vm_areas (ctx\<lparr>vm_areas := vms\<rparr>) = vms"
  "ctx\<lparr>vm_areas := vms\<rparr>\<lparr>vm_areas := vms'\<rparr> = ctx\<lparr>vm_areas := vms'\<rparr>"
  by simp_all

lemma page_round_same: "0 \<le> sint len \<Longrightarrow> sint len mod 4096 = 0 \<Longrightarrow> page_round len = len"
  using c_rem_eq [of len] by (simp add: page_round_def)

lemma mod_rest:
  "x mod n = 0 \<Longrightarrow> y mod n = 0 \<Longrightarrow> z mod n = 0 \<Longrightarrow> (x - (y - z)) mod n = 0" for x y z n :: int
  by (simp add: mod_eq_0_iff_dvd)

text \<open>
  The outcome of a call for \<open>[a, e)\<close>: the flags of \<open>[a, m)\<close> are changed, where \<open>m\<close> is \<open>e\<close> if
  the call succeeds; \<open>exact\<close> excludes what a freed area may do to that.
\<close>

definition mprotect_outcome ::
  "bool \<Rightarrow> mm_config \<Rightarrow> 'k mmu \<Rightarrow> exec_context \<Rightarrow> u64 \<Rightarrow> u64 \<Rightarrow> u32 \<Rightarrow> 'k
     \<Rightarrow> (i32 \<times> exec_context \<times> 'k) run \<Rightarrow> bool" where
  "mprotect_outcome exact cfg mmu ctx a e p k res \<longleftrightarrow> \<not> exact \<and> res = Faults \<or>
     (\<exists>vms' k' r m. res = Returns (r, ctx\<lparr>vm_areas := vms'\<rparr>, k')
      \<and> protects (MMAP_AREA_START cfg) (MMAP_AREA_END cfg) a m p (vm_areas ctx) vms'
      \<and> length vms' \<le> 128 \<and> a \<le> m
      \<and> (if r = 0 then range_done exact (vm_areas ctx) e m \<and> k' = fold (update_page mmu ctx (page_prot cfg p))
            (pages (last_piece (vm_areas ctx) a e) e) k
         else r = - 1 \<and> m < e \<and> k' = k \<and> 127 \<le> length (vm_areas ctx)
           \<and> ((\<exists>v \<in> set (vm_areas ctx). vm_start v = a) \<longrightarrow> 128 \<le> length (vm_areas ctx))))"

lemma vm_area_mprotect_main:
  assumes cfg: "mm_config_ok cfg" and freed: "exact \<longrightarrow> freed = freed_intact"
  shows "vms_in (MMAP_AREA_START cfg) (MMAP_AREA_END cfg) (vm_areas ctx) \<Longrightarrow>
    length (vm_areas ctx) \<le> 128 \<Longrightarrow> MMAP_AREA_START cfg \<le> a \<Longrightarrow> a \<le> 2 ^ 62 \<Longrightarrow>
    0 < sint len \<Longrightarrow> sint len mod 4096 = 0 \<Longrightarrow> covered (vm_areas ctx) a (a + sx len) \<Longrightarrow>
    page_aligned a \<Longrightarrow> \<forall>v \<in> set (vm_areas ctx). a < vm_end v \<longrightarrow> page_aligned (vm_end v) \<Longrightarrow>
    mprotect_outcome exact cfg mmu ctx a (a + sx len) p k (vm_area_mprotect cfg mmu freed ctx a len p k)"
proof (induction "2 ^ 64 - unat a" arbitrary: ctx a len rule: less_induct)
  case less
  let ?s = "MMAP_AREA_START cfg" and ?h = "MMAP_AREA_END cfg" and ?e = "a + sx len"
  let ?vms = "vm_areas ctx"
  note prems = less.prems
  have c: "?h \<le> 2 ^ 62" "?h - ?s \<le> 2 ^ 31 - 4096" "?s < ?h"
    using cfg by (simp_all add: mm_config_ok_def)
  have "(2::u64) ^ 62 \<le> 2 ^ 63"
    by simp
  then have lt: "a < ?e"
    using prems(4,5) by (intro less_add_sx) (auto intro: order.trans)
  have eh: "?e \<le> ?h"
    by (rule covered_le [OF prems(7) lt prems(1)])
  have chk: "mprotect_covered ?vms a len"
    using mprotect_covered_iff [OF c(1,2) order.refl prems(1,5,4)] prems(7) by simp
  have pr: "page_round len = len"
    using prems(5,6) by (intro page_round_same) simp_all
  have unfold: "vm_area_mprotect cfg mmu freed ctx a len p k =
      (case protect_step freed ?vms a len p of
         Unprotected \<Rightarrow> Returns (- 1, ctx, k)
       | Protect_Crash \<Rightarrow> Faults
       | Protect_Rest vms' a' len' \<Rightarrow>
           vm_area_mprotect cfg mmu freed (ctx\<lparr>vm_areas := vms'\<rparr>) a' len' p k
       | Protected vms' \<Rightarrow> run_of_option (map_option (\<lambda>k'. (0, ctx\<lparr>vm_areas := vms'\<rparr>, k'))
           (update_map cfg mmu (ctx\<lparr>vm_areas := vms'\<rparr>) a p len k)))"
    using chk prems(2,3) eh pr
    by (subst vm_area_mprotect.simps) (simp add: Let_def not_less leD cong: protect.case_cong)
  from prems(1,3,7) lt prems(2) freed show ?case
  proof (cases rule: protect_step_cases [where p = p])
    case crash
    then show ?thesis
      unfolding unfold mprotect_outcome_def by simp
  next
    case refused
    have "ctx\<lparr>vm_areas := vm_areas ctx\<rparr> = ctx"
      by simp
    with refused lt prems(1,2) protects_none [OF prems(1), of a p] show ?thesis
      unfolding unfold mprotect_outcome_def by (intro disjI2 exI [of _ ?vms] exI [of _ k] exI [of _ "- 1"] exI [of _ a]) auto
  next
    case (stop pre cur rest vms' m)
    note D = at_areaD [OF stop(3)]
    have "vm_start z \<le> a" if "z \<in> set (pre @ [cur])" for z
      using vms_in_set [OF D(1), of z] that D(3) by auto
    then have "last_piece ((pre @ [cur]) @ rest) a ?e = last_piece rest a ?e"
      by (rule last_piece_before)
    moreover have "?e \<le> vm_start z" if "z \<in> set rest" for z
      using vms_in_set [of "vm_end cur" ?h rest z] that D(2) stop(4) by auto
    then have "last_piece rest a ?e = a"
      by (rule last_piece_behind)
    ultimately have "last_piece ?vms a ?e = a"
      using stop(2) by simp
    moreover have "a \<le> m"
      using stop(5) lt by (auto simp: range_done_def)
    ultimately show ?thesis
      using stop update_map_pages [OF prems(4), of len cfg mmu _ p k] prems(5) unfolding unfold mprotect_outcome_def
      by (intro disjI2 exI [of _ vms'] exI [of _ "fold (update_page mmu ctx (page_prot cfg p)) (pages a ?e) k"]
          exI [of _ 0] exI [of _ m]) auto
  next
    case (more pre cur rest vms' a' len')
    have cov: "covered (pre @ cur # rest) a ?e"
      using prems(7) more(2) by simp
    note R = rest_left_spec [OF more(4,3) cov prems(5) c(1) order.refl prems(3) c(2)]
    note D = at_areaD [OF more(3)]
    have "vm_end cur \<in> vm_end ` set ?vms" "a' = vm_end cur"
      using more(2,4) by (auto simp: rest_left_def)
    then have al: "page_aligned a'"
      using prems(9) D(4) more(2) by auto
    have "?s \<le> a'" "a' \<le> 2 ^ 62"
      using R(2,3) prems(3) eh c(1) by auto
    moreover have "sint len' mod 4096 = 0"
      unfolding R(6) using prems(6,8) al unfolding page_aligned_def by (intro mod_rest)
    moreover have "vms_in ?s ?h vms'"
      using R(1) by (simp add: protects_def)
    moreover have "\<forall>v \<in> set vms'. a' < vm_end v \<longrightarrow> page_aligned (vm_end v)"
      using R(2,11) prems(9) more(2) by (auto dest: less_trans)
    moreover have "2 ^ 64 - unat a' < 2 ^ 64 - unat a"
      using R(2) unsigned_less [of a', where ?'a = nat] by (simp add: word_less_nat_alt)
    ultimately have "mprotect_outcome exact cfg mmu (ctx\<lparr>vm_areas := vms'\<rparr>) a' ?e p k
        (vm_area_mprotect cfg mmu freed (ctx\<lparr>vm_areas := vms'\<rparr>) a' len' p k)"
      using less.hyps [of a' "ctx\<lparr>vm_areas := vms'\<rparr>" len'] more(5) R(4,5,7) al
      by simp
    then consider (crash) "\<not> exact"
        "vm_area_mprotect cfg mmu freed (ctx\<lparr>vm_areas := vms'\<rparr>) a' len' p k = Faults"
      | (returns) vms2 k' r m where
        "vm_area_mprotect cfg mmu freed (ctx\<lparr>vm_areas := vms'\<rparr>) a' len' p k
          = Returns (r, ctx\<lparr>vm_areas := vms2\<rparr>, k')"
        "protects ?s ?h a' m p vms' vms2" "length vms2 \<le> 128" "a' \<le> m"
        "if r = 0 then range_done exact vms' ?e m \<and> k' = fold (update_page mmu ctx (page_prot cfg p))
            (pages (last_piece vms' a' ?e) ?e) k
         else r = - 1 \<and> m < ?e \<and> k' = k \<and> 127 \<le> length vms'
           \<and> ((\<exists>v \<in> set vms'. vm_start v = a') \<longrightarrow> 128 \<le> length vms')"
      unfolding mprotect_outcome_def ctx_update update_page_vms by blast
    then show ?thesis
    proof cases
      case crash
      then show ?thesis
        using more(1) unfolding unfold mprotect_outcome_def by simp
    next
      case I: (returns vms2 k' r m)
      have P: "protects ?s ?h a m p ?vms vms2"
        using protects_trans [OF R(1) I(2)] R(2) I(4) more(2) by auto
      have n: "if r = 0 then True else 127 \<le> length ?vms
          \<and> ((\<exists>v \<in> set ?vms. vm_start v = a) \<longrightarrow> 128 \<le> length ?vms)"
      proof (cases "r = 0")
        case False
        with I(5) R(8) have "128 \<le> length vms'"
          by auto
        with R(9) have l: "128 \<le> length ?vms + (if vm_start cur < a then 1 else 0)"
          unfolding more(2) by linarith
        moreover have "\<not> (\<exists>v \<in> set ?vms. vm_start v = a)" if "vm_start cur < a"
        proof
          assume "\<exists>v \<in> set ?vms. vm_start v = a"
          then obtain z where "z \<in> set (pre @ cur # rest)" "vm_start z = a"
            unfolding more(2) by blast
          from at_area_start [OF more(3) this] that show False
            by simp
        qed
        ultimately show ?thesis
          by (auto split: if_splits)
      qed simp
      have "range_done exact ?vms ?e m" if "range_done exact vms' ?e m"
        using that R(3,11) more(2) by (auto simp: range_done_def)
      then show ?thesis
        using I P n R(2,10) more(1,2) unfolding unfold mprotect_outcome_def
        by (intro disjI2 exI [of _ vms2] exI [of _ k'] exI [of _ r] exI [of _ m]) (auto split: if_splits)
    qed
  qed
qed

text \<open>
  A call that reads no freed area is the same for all views. If it does read one, it ends there:
  it faults, or returns 0.
\<close>

lemma protect_step_view:
  "protect_step freed_unreadable vms a len p \<noteq> Protect_Crash \<Longrightarrow>
    protect_step freed vms a len p = protect_step freed_unreadable vms a len p"
  "protect_step freed_unreadable vms a len p = Protect_Crash \<Longrightarrow>
    protect_step freed vms a len p = Protect_Crash \<or> (\<exists>vms'. protect_step freed vms a len p = Protected vms')"
proof -
  have front: "protect_front freed n pre cur rest a len p = protect_front freed_unreadable n pre cur rest a len p
      \<or> protect_front freed_unreadable n pre cur rest a len p = Protect_Crash
        \<and> (protect_front freed n pre cur rest a len p = Protect_Crash
          \<or> (\<exists>vms'. protect_front freed n pre cur rest a len p = Protected vms'))" for n pre cur rest
  proof (cases "joins_prev pre cur p \<and> a + sx len = vm_end cur")
    case True
    then show ?thesis
      by (simp add: protect_front_def freed_unreadable_def Let_def split: option.split)
  next
    case False
    then show ?thesis
      by (simp add: protect_front_def Let_def)
  qed
  let ?same = "protect_step freed vms a len p = protect_step freed_unreadable vms a len p"
  let ?crash = "protect_step freed_unreadable vms a len p = Protect_Crash
    \<and> (protect_step freed vms a len p = Protect_Crash \<or> (\<exists>vms'. protect_step freed vms a len p = Protected vms'))"
  obtain pre suf where s: "split_vms a vms = (pre, suf)"
    by (cases "split_vms a vms")
  have "?same \<or> ?crash"
  proof (cases suf)
    case (Cons cur rest)
    show ?thesis
      using front [of "length vms" pre cur rest] s Cons
      by (simp add: protect_step_def) (metis linorder_neqE)
  qed (simp add: protect_step_def s)
  then show "protect_step freed_unreadable vms a len p \<noteq> Protect_Crash \<Longrightarrow> ?same"
    "protect_step freed_unreadable vms a len p = Protect_Crash \<Longrightarrow>
      protect_step freed vms a len p = Protect_Crash \<or> (\<exists>vms'. protect_step freed vms a len p = Protected vms')"
    by auto
qed

lemma vm_area_mprotect_view:
  "if vm_area_mprotect cfg mmu freed_unreadable ctx a len p k = Faults
   then (case vm_area_mprotect cfg mmu freed ctx a len p k of Returns (r, _) \<Rightarrow> r = 0 | _ \<Rightarrow> True)
   else vm_area_mprotect cfg mmu freed ctx a len p k = vm_area_mprotect cfg mmu freed_unreadable ctx a len p k"
proof (induction "2 ^ 64 - unat a" arbitrary: ctx a len rule: less_induct)
  case less
  show ?case
  proof (cases "mprotect_refuses cfg (vm_areas ctx) a len")
    case False
    note S = vm_area_mprotect_step [OF False, of mmu _ p k]
    note V = protect_step_view [of "vm_areas ctx" a "page_round len" p]
    show ?thesis
    proof (cases "protect_step freed_unreadable (vm_areas ctx) a (page_round len) p")
      case (Protect_Rest vms' a' len')
      have "2 ^ 64 - unat a' < 2 ^ 64 - unat a"
        using protect_step_rest [OF Protect_Rest] unsigned_less [of a', where ?'a = nat]
        by (simp add: word_less_nat_alt)
      from less [OF this, of "ctx\<lparr>vm_areas := vms'\<rparr>" len'] show ?thesis
        using V(1) [of freed] Protect_Rest by (simp add: S)
    next
      case Protect_Crash
      then show ?thesis
        using V(2) [of freed] by (auto simp: S run_of_option_def split: option.splits)
    qed (use V(1) [of freed] in \<open>simp_all add: S run_of_option_def split: option.split\<close>)
  qed (simp add: vm_area_mprotect_refuses)
qed

definition vms_aligned :: "vm_area list \<Rightarrow> bool" where
  "vms_aligned vms \<longleftrightarrow> (\<forall>v \<in> set vms. page_aligned (vm_start v) \<and> page_aligned (vm_end v))"

lemma find_vm_Some:
  "find_vm vms a = Some v \<Longrightarrow> v \<in> set vms \<and> vm_start v \<le> a \<and> a < vm_end v"
  by (induction vms) (auto split: if_splits)

lemma perm_at_Some: "v \<in> set vms \<Longrightarrow> vm_start v \<le> a \<Longrightarrow> a < vm_end v \<Longrightarrow> perm_at vms a \<noteq> None"
  by (induction vms) auto

lemma round_up_below:
  "a mod 4096 = 0 \<Longrightarrow> c mod 4096 = 0 \<Longrightarrow> a + l \<le> c \<Longrightarrow> a + (l + 4095) div 4096 * 4096 \<le> c"
  for a c l :: int
proof -
  assume m: "a mod 4096 = 0" "c mod 4096 = 0" and le: "a + l \<le> c"
  obtain i j where ij: "a = 4096 * i" "c = 4096 * j"
    using m unfolding mod_eq_0_iff_dvd by (elim dvdE)
  then have "l + 4095 < (j - i + 1) * 4096"
    using le by simp
  then have "(l + 4095) div 4096 < j - i + 1"
    by (simp add: div_less_iff_less_mult)
  then show ?thesis
    using ij by simp
qed

lemma covered_page_round:
  assumes "covered vms a (a + sx len)" "length_ok len" "a \<le> 2 ^ 62" "page_aligned a"
    "vms_aligned vms"
  shows "covered vms a (a + sx (page_round len))"
proof -
  let ?e = "a + sx len"
  have "(2::u64) ^ 62 \<le> 2 ^ 63"
    by simp
  with assms(3) have a63: "a \<le> 2 ^ 63"
    by (rule order.trans)
  have l: "0 < sint len" "sint len \<le> 2 ^ 31 - 4096"
    using assms(2) by (simp_all add: length_ok_def)
  have lt: "a < ?e"
    by (rule less_add_sx [OF a63 l(1)])
  then have "1 \<le> ?e"
    by (auto simp: word_le_def word_less_def) (use uint_ge_0 [of a] in linarith)
  then have e1: "uint (?e - 1) = uint ?e - 1"
    by (simp add: uint_minus_simple_alt)
  then have "a \<le> ?e - 1" "?e - 1 < ?e"
    using lt unfolding word_le_def word_less_def by linarith+
  then have "perm_at vms (?e - 1) \<noteq> None"
    using assms(1) by (simp add: covered_def)
  then obtain v where "find_vm vms (?e - 1) = Some v"
    by (auto simp: perm_at_def)
  then have v: "v \<in> set vms" "vm_start v \<le> ?e - 1" "?e - 1 < vm_end v"
    using find_vm_Some by blast+
  have e: "?e \<le> vm_end v"
    using v(3) e1 unfolding word_le_def word_less_def by linarith
  have "a + sx (page_round len) \<le> vm_end v"
  proof -
    have "uint a + (sint len + 4095) div 4096 * 4096 \<le> uint (vm_end v)"
    proof (rule round_up_below)
      show "uint a mod 4096 = 0" "uint (vm_end v) mod 4096 = 0"
        using assms(4,5) v(1) by (auto simp: vms_aligned_def page_aligned_def)
      show "uint a + sint len \<le> uint (vm_end v)"
        using e l uint_add_sx [OF a63, of len] by (simp add: word_le_def)
    qed
    then show ?thesis
      using l uint_add_sx [OF a63, of "page_round len"] sint_page_round [of len]
        length_ok_page_round(1) [OF assms(2)] by (simp add: word_le_def)
  qed
  moreover have "vm_start v \<le> ?e"
    using v(2) \<open>?e - 1 < ?e\<close> by auto
  ultimately have "perm_at vms x \<noteq> None" if "?e \<le> x" "x < a + sx (page_round len)" for x
    using perm_at_Some [OF v(1), of x] that by (meson less_le_trans order.trans)
  with assms(1) show ?thesis
    unfolding covered_def by (metis not_less)
qed

lemma vm_area_mprotect_uncovered_spec:
  assumes "mm_config_ok cfg" "vms_ok cfg (vm_areas ctx)" "0 < sint len" "a \<le> 2 ^ 62"
  shows "mprotect_covered (vm_areas ctx) a len \<longleftrightarrow> covered (vm_areas ctx) a (a + sx len)"
  by (rule mprotect_covered_iff [where hi = "MMAP_AREA_END cfg" and lo = "MMAP_AREA_START cfg"
        and b = "MMAP_AREA_START cfg"])
    (use assms in \<open>simp_all add: mm_config_ok_def vms_ok_def\<close>)

lemma vm_area_mprotect_round:
  assumes "mprotect_covered (vm_areas ctx) a len" "mprotect_covered (vm_areas ctx) a (page_round len)"
    "length_ok len"
  shows "vm_area_mprotect cfg mmu freed ctx a len p k
    = vm_area_mprotect cfg mmu freed ctx a (page_round len) p k"
  using assms length_ok_page_round(2) [OF assms(3)]
  by (subst (1 2) vm_area_mprotect.simps) (simp add: Let_def)

lemma vm_area_mprotect_spec:
  assumes "mm_config_ok cfg" "exact \<longrightarrow> freed = freed_intact" "vms_ok cfg (vm_areas ctx)" "length_ok len"
    and "a \<le> 2 ^ 62" "page_aligned a" "vms_aligned (vm_areas ctx)"
  shows "if covered (vm_areas ctx) a (a + sx len)
    then mprotect_outcome exact cfg mmu ctx a (a + sx (page_round len)) p k
      (vm_area_mprotect cfg mmu freed ctx a len p k)
    else vm_area_mprotect cfg mmu freed ctx a len p k = Returns (- 1, ctx, k)"
proof -
  let ?L = "page_round len" and ?vms = "vm_areas ctx"
  have l: "0 < sint len" "sint len \<le> 2 ^ 31 - 4096" "0 < sint ?L"
    using assms(4) length_ok_page_round(1) [OF assms(4)] by (simp_all add: length_ok_def)
  note chk = vm_area_mprotect_uncovered_spec [OF assms(1,3) _ assms(5)]
  show ?thesis
  proof (cases "covered ?vms a (a + sx len)")
    case True
    from covered_page_round [OF this assms(4-7)] have C: "covered ?vms a (a + sx ?L)" .
    have "mprotect_outcome exact cfg mmu ctx a (a + sx ?L) p k
        (vm_area_mprotect cfg mmu freed ctx a ?L p k)"
    proof (rule vm_area_mprotect_main [OF assms(1,2)])
      show "vms_in (MMAP_AREA_START cfg) (MMAP_AREA_END cfg) ?vms" "length ?vms \<le> 128"
        using assms(3) by (simp_all add: vms_ok_def)
      have "(2::u64) ^ 62 \<le> 2 ^ 63"
        by simp
      with assms(5) have "a < a + sx len"
        using l(1) by (intro less_add_sx) (auto intro: order.trans)
      then have "perm_at ?vms a \<noteq> None"
        using True by (auto simp: covered_def)
      then show "MMAP_AREA_START cfg \<le> a"
        using perm_at_outside [of "MMAP_AREA_START cfg" "MMAP_AREA_END cfg" ?vms a] assms(3)
        by (meson not_less vms_ok_def)
      show "sint ?L mod 4096 = 0"
        using l sint_page_round [of len] by simp
      show "\<forall>v \<in> set ?vms. a < vm_end v \<longrightarrow> page_aligned (vm_end v)"
        using assms(7) by (simp add: vms_aligned_def)
    qed (use l C assms in auto)
    then show ?thesis
      using True C chk [OF l(1)] chk [OF l(3)] vm_area_mprotect_round [OF _ _ assms(4), of ctx a cfg mmu freed p k] by simp
  next
    case False
    then show ?thesis
      using chk [OF l(1)] by (subst vm_area_mprotect.simps) simp
  qed
qed

lemma last_piece_max:
  "a \<le> last_piece vms a e \<and> (\<forall>v \<in> set vms. vm_start v < e \<longrightarrow> vm_start v \<le> last_piece vms a e)"
proof (induction vms arbitrary: a)
  case (Cons v vs)
  show ?case
    using Cons [of a] Cons [of "vm_start v"] by (auto intro: order.trans less_imp_le)
qed simp

text \<open>A call with any view, and one that reads no freed area.\<close>

lemma vm_area_mprotect_any:
  assumes "mm_config_ok cfg" "vms_ok cfg (vm_areas ctx)" "length_ok len"
    and "a \<le> 2 ^ 62" "page_aligned a" "vms_aligned (vm_areas ctx)"
  shows "if covered (vm_areas ctx) a (a + sx len)
    then mprotect_outcome False cfg mmu ctx a (a + sx (page_round len)) p k
      (vm_area_mprotect cfg mmu freed ctx a len p k)
    else vm_area_mprotect cfg mmu freed ctx a len p k = Returns (- 1, ctx, k)"
  by (rule vm_area_mprotect_spec [OF assms(1) _ assms(2-)]) simp

lemma vm_area_mprotect_unread:
  assumes "mm_config_ok cfg" "vms_ok cfg (vm_areas ctx)" "length_ok len"
    and "a \<le> 2 ^ 62" "page_aligned a" "vms_aligned (vm_areas ctx)"
    and "vm_area_mprotect cfg mmu freed_unreadable ctx a len p k \<noteq> Faults"
  shows "if covered (vm_areas ctx) a (a + sx len)
    then mprotect_outcome True cfg mmu ctx a (a + sx (page_round len)) p k
      (vm_area_mprotect cfg mmu freed ctx a len p k)
    else vm_area_mprotect cfg mmu freed ctx a len p k = Returns (- 1, ctx, k)"
proof -
  have "vm_area_mprotect cfg mmu freed ctx a len p k = vm_area_mprotect cfg mmu freed_intact ctx a len p k"
    using vm_area_mprotect_view [of cfg mmu ctx a len p k freed]
      vm_area_mprotect_view [of cfg mmu ctx a len p k freed_intact] assms(7) by simp
  then show ?thesis
    using vm_area_mprotect_spec [OF assms(1) _ assms(2-6), where exact = True and freed = freed_intact
        and mmu = mmu and p = p and k = k] by simp
qed

section \<open>An example\<close>

definition example_adjacent :: "vm_area list" where
  "example_adjacent = [new_vm 6442450944 6442459136 1, new_vm 6442459136 6442467328 2,
     new_vm 6442475520 6442479616 1]"

lemma example_adjacent_ok:
  "vms_ok example_cfg example_adjacent" "vms_aligned example_adjacent"
  by (simp_all add: vms_ok_def example_cfg_def example_adjacent_def vms_aligned_def page_aligned_def)

section \<open>Properties\<close>

text \<open>The page fault handler in terms of the address space.\<close>

lemma vm_area_pagefault_perm:
  "vm_area_pagefault cfg mmu ctx addr error_code k =
     (case perm_at (vm_areas ctx) addr of
        Some p \<Rightarrow>
          if error_code = 4 \<or> error_code = 6 \<and> p AND PROT_WRITE cfg \<noteq> 0
          then (1, map_page mmu (pgd ctx) (page_prot cfg p) addr k) else (- 1, invlpg mmu addr k)
      | None \<Rightarrow> (- 1, invlpg mmu addr k))"
  by (auto simp: vm_area_pagefault_def perm_at_def split: option.splits)

text \<open>
  \<open>mprotect\<close> of a range that is not completely mapped fails and changes neither the areas
  nor the page tables.
\<close>

theorem vm_area_mprotect_uncovered:
  assumes "mm_config_ok cfg" "vms_ok cfg (vm_areas ctx)" "0 < sint len" "a \<le> 2 ^ 62"
    and "a \<le> x" "x < a + sx len" "perm_at (vm_areas ctx) x = None"
  shows "vm_area_mprotect cfg mmu freed ctx a len p k = Returns (- 1, ctx, k)"
proof -
  have "\<not> mprotect_covered (vm_areas ctx) a len"
    using vm_area_mprotect_uncovered_spec [OF assms(1-4)] assms(5-7) by (auto simp: covered_def)
  then show ?thesis
    by (subst vm_area_mprotect.simps) simp
qed

theorem vm_area_mprotect_uncovered_witness:
  "vm_area_mprotect example_cfg example_mmu freed_intact (example_ctx example_adjacent)
     6442463232 12288 3 [] = Returns (- 1, example_ctx example_adjacent, [])"
  by (rule vm_area_mprotect_uncovered [OF example_cfg_ok, where x = 6442467328])
    (code_simp | simp add: example_adjacent_ok example_ctx_def)+

text \<open>
  C23: The effect of \<open>mprotect\<close> on page-aligned areas and addresses up to 2 ^ 62, for positive
  lengths that can be rounded up, whatever a freed area shows. A call that reads no freed area (it
  does not fault when freed areas are unreadable) returns, whatever they show: when it returns 0 the
  range (rounded up to pages) has the new flags, when it returns -1 a prefix of the range has them,
  as earlier activations of the recursion are not undone; no other address changes. A call that
  reads the area it has just freed faults or returns 0; then the range has the new flags, and
  depending on what is read so has everything up to the end of an area behind the range.
\<close>

theorem vm_area_mprotect_effect:
  assumes "mm_config_ok cfg" "vms_ok cfg (vm_areas ctx)" "length_ok len"
    and "a \<le> 2 ^ 62" "page_aligned a" "vms_aligned (vm_areas ctx)"
  shows "if vm_area_mprotect cfg mmu freed_unreadable ctx a len p k \<noteq> Faults
    then \<exists>r ctx' k' m. vm_area_mprotect cfg mmu freed ctx a len p k = Returns (r, ctx', k')
      \<and> (r = 0 \<and> m = a + sx (page_round len) \<or> r = - 1 \<and> a \<le> m \<and> m < a + sx (page_round len))
      \<and> (\<forall>x. perm_at (vm_areas ctx') x =
           (if a \<le> x \<and> x < m then Some p else perm_at (vm_areas ctx) x))
    else vm_area_mprotect cfg mmu freed ctx a len p k = Faults
      \<or> (\<exists>ctx' k' m. vm_area_mprotect cfg mmu freed ctx a len p k = Returns (0, ctx', k')
          \<and> (m = a + sx (page_round len)
             \<or> a + sx (page_round len) < m \<and> (\<exists>v \<in> set (vm_areas ctx). m = vm_end v))
          \<and> (\<forall>x. perm_at (vm_areas ctx') x =
               (if a \<le> x \<and> x < m then Some p else perm_at (vm_areas ctx) x)))"
proof (cases "vm_area_mprotect cfg mmu freed_unreadable ctx a len p k = Faults")
  case True
  have "vm_area_mprotect cfg mmu freed_unreadable ctx a len p k \<noteq> Returns (- 1, ctx, k)"
    using True by simp
  then have "covered (vm_areas ctx) a (a + sx len)"
    using vm_area_mprotect_any [OF assms, of mmu p k freed_unreadable] by (auto split: if_splits)
  then have O: "mprotect_outcome False cfg mmu ctx a (a + sx (page_round len)) p k
      (vm_area_mprotect cfg mmu freed ctx a len p k)"
    using vm_area_mprotect_any [OF assms, of mmu p k freed] by simp
  show ?thesis
  proof (cases "vm_area_mprotect cfg mmu freed ctx a len p k")
    case (Returns x)
    with O obtain vms' k' r m where r: "vm_area_mprotect cfg mmu freed ctx a len p k = Returns (r, ctx\<lparr>vm_areas := vms'\<rparr>, k')"
      "protects (MMAP_AREA_START cfg) (MMAP_AREA_END cfg) a m p (vm_areas ctx) vms'"
      "r = 0 \<Longrightarrow> range_done False (vm_areas ctx) (a + sx (page_round len)) m"
      by (auto simp: mprotect_outcome_def split: if_splits)
    moreover have "r = 0"
      using vm_area_mprotect_view [of cfg mmu ctx a len p k freed] True r(1) by simp
    ultimately show ?thesis
      using True by (auto simp: protects_def range_done_def)
  qed (use True O in \<open>auto simp: mprotect_outcome_def\<close>)
next
  case False
  have "(2::u64) ^ 62 \<le> 2 ^ 63"
    by simp
  with assms(4) have a: "a < a + sx (page_round len)"
    using length_ok_page_round(1) [OF assms(3)] by (intro less_add_sx) (auto intro: order.trans)
  note S = vm_area_mprotect_unread [OF assms False, of freed]
  have "\<exists>r ctx' k' m. vm_area_mprotect cfg mmu freed ctx a len p k = Returns (r, ctx', k')
      \<and> (r = 0 \<and> m = a + sx (page_round len) \<or> r = - 1 \<and> a \<le> m \<and> m < a + sx (page_round len))
      \<and> (\<forall>x. perm_at (vm_areas ctx') x = (if a \<le> x \<and> x < m then Some p else perm_at (vm_areas ctx) x))"
  proof (cases "covered (vm_areas ctx) a (a + sx len)")
    case True
    with S obtain vms' k' r m where
      "vm_area_mprotect cfg mmu freed ctx a len p k = Returns (r, ctx\<lparr>vm_areas := vms'\<rparr>, k')"
      "protects (MMAP_AREA_START cfg) (MMAP_AREA_END cfg) a m p (vm_areas ctx) vms'" "a \<le> m"
      "if r = 0 then m = a + sx (page_round len) else r = - 1 \<and> m < a + sx (page_round len)"
      by (auto simp: mprotect_outcome_def range_done_def split: if_splits)
    then show ?thesis
      by (intro exI [of _ r] exI [of _ "ctx\<lparr>vm_areas := vms'\<rparr>"] exI [of _ k'] exI [of _ m])
        (auto simp: protects_def split: if_splits)
  next
    case False
    with S a show ?thesis
      by (intro exI [of _ "- 1"] exI [of _ ctx] exI [of _ k] exI [of _ a]) auto
  qed
  with False show ?thesis
    by simp
qed

theorem vm_area_mprotect_effect_witness:
  "\<exists>r ctx' k' m. vm_area_mprotect example_cfg example_mmu freed_intact
       (example_ctx example_adjacent) 6442455040 8192 3 [] = Returns (r, ctx', k')
    \<and> (r = 0 \<and> m = 6442455040 + sx (page_round 8192)
       \<or> r = - 1 \<and> 6442455040 \<le> m \<and> m < 6442455040 + sx (page_round 8192))
    \<and> (\<forall>x. perm_at (vm_areas ctx') x = (if 6442455040 \<le> x \<and> x < m then Some 3
         else perm_at (vm_areas (example_ctx example_adjacent)) x))"
proof -
  have "vm_area_mprotect example_cfg example_mmu freed_unreadable
      (example_ctx example_adjacent) 6442455040 8192 3 [] \<noteq> Faults"
    by code_simp
  with vm_area_mprotect_effect [OF example_cfg_ok, of "example_ctx example_adjacent" 8192 6442455040
      example_mmu 3 "[]" freed_intact] show ?thesis
    by (simp add: example_adjacent_ok example_ctx_def length_ok_def page_aligned_def)
qed

text \<open>The read of a freed area: the code has just freed the middle one of three areas.\<close>

definition example_three :: "vm_area list" where
  "example_three = [new_vm 6442450944 6442455040 1, new_vm 6442455040 6442459136 2,
     new_vm 6442467328 6442471424 2]"

lemma mprotect_reads_freed:
  "vm_area_mprotect example_cfg example_mmu freed_unreadable (example_ctx example_three) 6442455040 4096 1 [] = Faults"
  "vm_area_mprotect example_cfg example_mmu freed_intact (example_ctx example_three) 6442455040 4096 1 []
    = Returns (0, example_ctx [new_vm 6442450944 6442459136 1, new_vm 6442467328 6442471424 2], [])"
  "vm_area_mprotect example_cfg example_mmu (\<lambda>v vs. Some (v, [new_vm 6442459136 0 1]))
      (example_ctx example_three) 6442455040 4096 1 []
    = Returns (0, example_ctx [new_vm 6442450944 6442471424 1], [])"
  by code_simp+

text \<open>
  With room for the two areas a change of protection can add, \<open>mprotect\<close> succeeds exactly
  when every byte of the range is mapped, unless it faults in the access to a freed area.
\<close>

theorem vm_area_mprotect_succeeds:
  assumes "mm_config_ok cfg" "vms_ok cfg (vm_areas ctx)" "length_ok len"
    and "a \<le> 2 ^ 62" "page_aligned a" "vms_aligned (vm_areas ctx)"
    and "length (vm_areas ctx) \<le> 126"
  shows "(vm_area_mprotect cfg mmu freed ctx a len p k = Faults
      \<or> (\<exists>ctx' k'. vm_area_mprotect cfg mmu freed ctx a len p k = Returns (0, ctx', k')))
    \<longleftrightarrow> (\<forall>x. a \<le> x \<longrightarrow> x < a + sx len \<longrightarrow> perm_at (vm_areas ctx) x \<noteq> None)"
  using vm_area_mprotect_any [OF assms(1-6), of mmu p k freed] assms(7)
  by (auto simp: mprotect_outcome_def covered_def split: if_splits)

theorem vm_area_mprotect_succeeds_witness:
  "(vm_area_mprotect example_cfg example_mmu freed_intact
       (example_ctx example_adjacent) 6442455040 8192 3 [] = Faults
    \<or> (\<exists>ctx' k'. vm_area_mprotect example_cfg example_mmu freed_intact
       (example_ctx example_adjacent) 6442455040 8192 3 [] = Returns (0, ctx', k')))
    \<longleftrightarrow> (\<forall>x. 6442455040 \<le> x \<longrightarrow> x < 6442455040 + sx 8192 \<longrightarrow>
          perm_at (vm_areas (example_ctx example_adjacent)) x \<noteq> None)"
  by (rule vm_area_mprotect_succeeds [OF example_cfg_ok])
    (simp_all add: example_adjacent_ok example_ctx_def length_ok_def page_aligned_def,
      simp add: example_adjacent_def)

text \<open>
  \<open>mprotect\<close> keeps the chain well-formed and within 128 areas, whatever it returns and whatever a
  freed area shows.
\<close>

theorem vm_area_mprotect_ok:
  assumes "mm_config_ok cfg" "vms_ok cfg (vm_areas ctx)" "length_ok len"
    and "a \<le> 2 ^ 62" "page_aligned a" "vms_aligned (vm_areas ctx)"
    and "vm_area_mprotect cfg mmu freed ctx a len p k = Returns (r, ctx', k')"
  shows "vms_ok cfg (vm_areas ctx') \<and> pgd ctx' = pgd ctx"
  using vm_area_mprotect_any [OF assms(1-6), of mmu p k freed] assms(2,7)
  by (auto simp: mprotect_outcome_def vms_ok_def protects_def split: if_splits)

theorem vm_area_mprotect_ok_witness:
  "vms_ok example_cfg [new_vm 6442450944 6442455040 1, new_vm 6442455040 6442463232 3,
      new_vm 6442463232 6442467328 2, new_vm 6442475520 6442479616 1]"
proof -
  let ?vms' = "[new_vm 6442450944 6442455040 1, new_vm 6442455040 6442463232 3,
      new_vm 6442463232 6442467328 2, new_vm 6442475520 6442479616 1]"
  have c: "vm_area_mprotect example_cfg example_mmu freed_intact (example_ctx example_adjacent)
      6442455040 8192 3 [(6442459136, 1), (6442455040, 1)] =
    Returns (0, example_ctx ?vms', [(6442459136, 3), (6442455040, 1)])"
    by code_simp
  have "vms_ok example_cfg (vm_areas (example_ctx ?vms')) \<and>
      pgd (example_ctx ?vms') = pgd (example_ctx example_adjacent)"
    by (rule vm_area_mprotect_ok [OF example_cfg_ok _ _ _ _ _ c])
      (simp_all add: example_adjacent_ok example_ctx_def length_ok_def page_aligned_def)
  then show ?thesis
    by (simp add: example_ctx_def)
qed

text \<open>
  A successful \<open>mprotect\<close> updates the page-table entries of the pages from \<open>last_piece\<close> on
  only, the start of the last area in the range: the recursion returns without the call of
  \<open>update_map\<close> for the areas before it, whose pages keep their old protection.
\<close>

theorem vm_area_mprotect_page_tables:
  assumes "mm_config_ok cfg" "vms_ok cfg (vm_areas ctx)" "length_ok len"
    and "a \<le> 2 ^ 62" "page_aligned a" "vms_aligned (vm_areas ctx)"
    and "vm_area_mprotect cfg mmu freed ctx a len p k = Returns (0, ctx', k')"
  shows "k' = fold (update_page mmu ctx (page_prot cfg p))
      (pages (last_piece (vm_areas ctx) a (a + sx (page_round len))) (a + sx (page_round len))) k
    \<and> (\<forall>v \<in> set (vm_areas ctx). vm_start v < a + sx (page_round len) \<longrightarrow>
         vm_start v \<le> last_piece (vm_areas ctx) a (a + sx (page_round len)))"
  using vm_area_mprotect_any [OF assms(1-6), of mmu p k freed] assms(7) last_piece_max
  by (auto simp: mprotect_outcome_def split: if_splits)

theorem vm_area_mprotect_page_tables_witness:
  "[(6442459136, 3), (6442455040, 1)] = fold
      (update_page example_mmu (example_ctx example_adjacent) (page_prot example_cfg 3))
      (pages 6442459136 (6442455040 + sx (page_round 8192))) [(6442459136, 1), (6442455040, 1)]"
proof -
  have c: "vm_area_mprotect example_cfg example_mmu freed_intact (example_ctx example_adjacent)
      6442455040 8192 3 [(6442459136, 1), (6442455040, 1)] =
    Returns (0, example_ctx [new_vm 6442450944 6442455040 1, new_vm 6442455040 6442463232 3,
      new_vm 6442463232 6442467328 2, new_vm 6442475520 6442479616 1],
      [(6442459136, 3), (6442455040, 1)])"
    by code_simp
  have l: "last_piece (vm_areas (example_ctx example_adjacent)) 6442455040
      (6442455040 + sx (page_round 8192)) = 6442459136"
    by code_simp
  from vm_area_mprotect_page_tables [OF example_cfg_ok _ _ _ _ _ c]
  show ?thesis
    unfolding l by (simp add: example_adjacent_ok example_ctx_def length_ok_def page_aligned_def)
qed

end
