(* ===== verification/Vm_Syscalls.thy ===== *)
theory Vm_Syscalls
  imports Vm_Map Vm_Unmap Vm_Protect
begin

text \<open>
  The memory system calls of \<open>src/Assignment3/mmap.c\<close> together: sequences of \<open>mmap\<close>,
  \<open>munmap\<close>, \<open>mprotect\<close> and page faults on one process, the invariant they keep, and how a
  page fault sees what the calls before it did.
\<close>

section \<open>Page alignment\<close>

lemma page_aligned_word_of_int: "page_aligned (word_of_int i) \<longleftrightarrow> i mod 4096 = 0"
proof -
  have "i mod 2 ^ 64 mod 4096 = i mod 4096"
    by (rule mod_mod_cancel) simp
  then show ?thesis
    by (simp add: page_aligned_def uint_word_of_int)
qed

lemma page_aligned_add: "page_aligned x \<Longrightarrow> page_aligned y \<Longrightarrow> page_aligned (x + y)"
proof -
  assume "page_aligned x" "page_aligned y"
  then have "(uint x + uint y) mod 4096 = 0"
    by (simp add: page_aligned_def mod_eq_0_iff_dvd)
  then have "page_aligned (word_of_int (uint x + uint y))"
    by (simp only: page_aligned_word_of_int)
  then show "page_aligned (x + y)"
    unfolding wi_hom_add [symmetric] by simp
qed

lemma page_aligned_minus: "page_aligned x \<Longrightarrow> page_aligned y \<Longrightarrow> page_aligned (x - y)"
proof -
  assume "page_aligned x" "page_aligned y"
  then have "(uint x - uint y) mod 4096 = 0"
    by (simp add: page_aligned_def mod_eq_0_iff_dvd)
  then have "page_aligned (word_of_int (uint x - uint y))"
    by (simp only: page_aligned_word_of_int)
  then show "page_aligned (x - y)"
    unfolding wi_hom_sub [symmetric] by simp
qed

lemma page_aligned_sx: "page_aligned (sx l) \<longleftrightarrow> sint l mod 4096 = 0"
  unfolding sx_def scast_eq by (rule page_aligned_word_of_int)

lemma sint_word_of_int_mod: "sint (word_of_int k :: i32) mod 4096 = k mod 4096"
proof -
  have "sint (word_of_int k :: i32) mod 2 ^ 32 mod 4096 = uint (word_of_int k :: i32) mod 4096"
    by (simp add: uint_sint take_bit_eq_mod)
  moreover have "uint (word_of_int k :: i32) mod 4096 = k mod 2 ^ 32 mod 4096"
    unfolding uint_word_of_int by simp
  ultimately show ?thesis
    by (simp add: mod_mod_cancel)
qed

lemma page_aligned_sx_to_int: "page_aligned w \<Longrightarrow> page_aligned (sx (to_int w))"
  unfolding page_aligned_sx to_int_eq sint_word_of_int_mod by (simp only: page_aligned_def)

lemma round_trunc: "(k + (m - k smod m)) mod m = 0" for k m :: int
  using minus_smod_eq_sdiv_mult [of k m]
  by (metis add_diff_eq diff_add_eq mod_add_self2 mod_mult_self2_is_0)

lemma page_aligned_page_round: "page_aligned (sx (page_round len))"
proof (cases "c_rem len 4096 = 0")
  case True
  then have "sint (c_rem len 4096) mod 4096 = 0"
    by simp
  then have "sint len smod 4096 mod 4096 = 0"
    unfolding c_rem_def sint_word_of_int_mod .
  moreover have "sint len = (sint len + (4096 - sint len smod 4096)) + (sint len smod 4096 - 4096)"
    by simp
  ultimately have "sint len mod 4096 = 0"
    using round_trunc [of "sint len" 4096] unfolding mod_eq_0_iff_dvd by (metis dvd_add dvd_diff dvd_refl)
  with True show ?thesis
    by (simp add: page_round_def page_aligned_sx)
next
  case False
  then have "page_round len = word_of_int (sint len + (4096 - sint len smod 4096))"
    by (simp add: page_round_def c_rem_def)
  then show ?thesis
    using round_trunc [of "sint len" 4096] unfolding page_aligned_sx by (simp only: sint_word_of_int_mod)
qed

lemmas page_aligned_intros =
  page_aligned_add page_aligned_minus page_aligned_sx_to_int page_aligned_page_round

text \<open>Every operation puts the borders of areas at page boundaries.\<close>

lemma vms_aligned_simps [simp]:
  "vms_aligned []"
  "vms_aligned (v # vs) \<longleftrightarrow> page_aligned (vm_start v) \<and> page_aligned (vm_end v) \<and> vms_aligned vs"
  "vms_aligned (us @ vs) \<longleftrightarrow> vms_aligned us \<and> vms_aligned vs"
  by (auto simp: vms_aligned_def)

lemma vms_aligned_last:
  "vms_aligned vs \<Longrightarrow> vs \<noteq> [] \<Longrightarrow> vms_aligned (butlast vs) \<and> page_aligned (vm_start (last vs))
    \<and> page_aligned (vm_end (last vs))"
  by (auto simp: vms_aligned_def dest: in_set_butlastD)

lemma map_gap_aligned:
  "map_gap cfg n len prot vms = Placed vms' r \<Longrightarrow> vms_aligned vms \<Longrightarrow> page_aligned (sx len) \<Longrightarrow>
    vms_aligned vms'"
  by (induction cfg n len prot vms arbitrary: vms' r rule: map_gap.induct)
    (auto intro: page_aligned_add split: if_splits placement.splits)

lemma map_between_aligned:
  assumes "map_between n pre cur rest a len prot = Placed vms' r"
    and "vms_aligned (pre @ cur # rest)" "page_aligned (sx len)" "page_aligned a"
  shows "vms_aligned vms'"
  using assms vms_aligned_last [of pre]
  by (auto simp: map_between_def Let_def intro: page_aligned_add split: if_splits)

lemma map_place_aligned:
  assumes "map_place cfg vms a len prot flags = Placed vms' r"
    and "vms_aligned vms" "page_aligned (sx len)" "page_aligned a"
    and "page_aligned (MMAP_AREA_START cfg)"
  shows "vms_aligned vms'"
proof (cases "a = 0")
  case True
  with assms show ?thesis
    by (auto simp: map_place_def map_nohint_def Let_def intro: page_aligned_add map_gap_aligned
        split: if_splits list.splits)
next
  case False
  obtain pre suf where s: "split_vms a vms = (pre, suf)"
    by (cases "split_vms a vms")
  note v = split_vms_append [OF s]
  show ?thesis
    using assms False s v
    by (auto simp: map_place_def map_hint_def intro: page_aligned_add map_between_aligned
        split: if_splits list.splits)
qed

lemma map_place_retry_aligned:
  assumes "map_place cfg vms a len prot flags = Retry b" "vms_aligned vms"
  shows "page_aligned b"
proof -
  obtain pre suf where s: "split_vms a vms = (pre, suf)"
    by (cases "split_vms a vms")
  note v = split_vms_append [OF s]
  have "page_aligned 0"
    by (simp add: page_aligned_def)
  with assms s v show ?thesis
    by (auto simp: map_place_def map_hint_def map_nohint_no_retry map_between_no_retry
        split: if_splits list.splits)
qed

lemma unmap_loop_aligned:
  "unmap_loop n a len vms = (r, vms') \<Longrightarrow> vms_aligned vms \<Longrightarrow> page_aligned a \<Longrightarrow>
    page_aligned (sx len) \<Longrightarrow> vms_aligned vms'"
proof (induction n a len vms arbitrary: r vms' rule: unmap_loop.induct)
  case (2 n a len v vs)
  note A = page_aligned_intros
  have al: "page_aligned (vm_start v)" "page_aligned (vm_end v)" "vms_aligned vs"
    "page_aligned (a + sx len)"
    using "2.prems" by (auto intro: page_aligned_add)
  consider (stop) "sint len \<le> 0" "vms' = v # vs"
    | (split) "vms' = v # vs
        \<or> vms' = v\<lparr>vm_end := a\<rparr> # new_vm (a + sx len) (vm_end v) (access_flags v) # vs"
    | (tail) ws where "unmap_loop n a (to_int (sx len - (a - a))) vs = (r, ws)"
        "\<not> sint len \<le> 0" "a > vm_start v \<and> a < vm_end v" "\<not> a + sx len < vm_end v"
        "vms' = v\<lparr>vm_end := a\<rparr> # ws"
    | (head) "vms' = v\<lparr>vm_start := a + sx len\<rparr> # vs"
    | (last) "vms' = []"
    | (drop) w ws where "vs = w # ws" "\<not> sint len \<le> 0" "\<not> (a > vm_start v \<and> a < vm_end v)"
        "\<not> (a \<le> vm_start v \<and> a + sx len < vm_end v)" "a \<le> vm_start v \<and> a + sx len \<ge> vm_end v"
        "unmap_loop n (vm_start w) (to_int (sx len - (vm_start w - a))) vs = (r, vms')"
    | (skip) ws where "unmap_loop n a len vs = (r, ws)" "vms' = v # ws" "\<not> sint len \<le> 0"
        "\<not> (a > vm_start v \<and> a < vm_end v)" "\<not> (a \<le> vm_start v \<and> a + sx len < vm_end v)"
        "\<not> (a \<le> vm_start v \<and> a + sx len \<ge> vm_end v)"
    using "2.prems"(1) unfolding unmap_loop.simps(2) Let_def
    by (simp del: unmap_loop.simps split: if_splits prod.splits list.splits)
  then show ?case
  proof cases
    case tail
    have "page_aligned (sx (to_int (sx len - (a - a))))"
      using "2.prems"(4) by (intro page_aligned_sx_to_int) simp
    then have "vms_aligned ws"
      using "2.IH"(1) [of "v\<lparr>vm_end := a\<rparr>"] tail(1-4) al "2.prems"(3) by simp
    then show ?thesis
      using tail(5) al "2.prems"(3) by simp
  next
    case drop
    have "page_aligned (sx (to_int (sx len - (vm_start w - a))))"
      using al drop(1) "2.prems"(3,4) by (intro page_aligned_intros) simp_all
    then show ?thesis
      using "2.IH"(2) [OF drop(2-5,1,6)] al drop(1) by simp
  next
    case skip
    then show ?thesis
      using "2.IH"(3) [OF skip(3-6,1)] al "2.prems"(3,4) by simp
  qed (use al "2.prems" in auto)
qed simp

lemma protect_inside_aligned:
  assumes "protect_inside n pre cur rest a len p = Protected vms'
      \<or> protect_inside n pre cur rest a len p = Protect_Rest vms' a' len'"
    and "vms_aligned (pre @ cur # rest)" "page_aligned a" "page_aligned (sx len)"
  shows "vms_aligned vms'"
  using assms
  by (cases rest) (auto simp: protect_inside_def intro: page_aligned_add split: if_splits)

lemma protect_front_aligned:
  assumes "protect_front freed n pre cur rest a len p = Protected vms'
      \<or> protect_front freed n pre cur rest a len p = Protect_Rest vms' a' len'"
    and "vms_aligned (pre @ cur # rest)" "page_aligned a" "page_aligned (sx len)"
  shows "vms_aligned vms'"
  using assms vms_aligned_last [of pre]
  by (cases rest) (auto simp: protect_front_def Let_def joins_prev_def joins_next_def intro: page_aligned_add
      split: if_splits prod.splits option.splits)

lemma protect_step_aligned:
  assumes "protect_step freed vms a len p = Protected vms'
      \<or> protect_step freed vms a len p = Protect_Rest vms' a' len'"
    and "vms_aligned vms" "page_aligned a" "page_aligned (sx len)"
  shows "vms_aligned vms'"
proof -
  obtain pre suf where s: "split_vms a vms = (pre, suf)"
    by (cases "split_vms a vms")
  note v = split_vms_append [OF s]
  show ?thesis
    using assms v s protect_inside_aligned [of _ pre _ _ a len p vms' a' len']
      protect_front_aligned [of freed _ pre _ _ a len p vms' a' len']
    by (auto simp: protect_step_def split: list.splits if_splits)
qed

lemma protect_step_rest_aligned:
  assumes "protect_step freed vms a len p = Protect_Rest vms' a' len'" "vms_aligned vms"
  shows "page_aligned a'"
proof -
  obtain pre suf where s: "split_vms a vms = (pre, suf)"
    by (cases "split_vms a vms")
  note v = split_vms_append [OF s]
  show ?thesis
    using assms v s
    by (auto simp: protect_step_def protect_inside_def protect_front_def Let_def
        split: list.splits if_splits prod.splits option.splits)
qed

lemma vm_area_mprotect_aligned:
  "vm_area_mprotect cfg mmu freed ctx a len p k = Returns (r, ctx', k') \<Longrightarrow>
    vms_aligned (vm_areas ctx) \<Longrightarrow> page_aligned a \<Longrightarrow> vms_aligned (vm_areas ctx')"
proof (induction "2 ^ 64 - unat a" arbitrary: ctx a len rule: less_induct)
  case less
  note prems = less.prems
  show ?case
  proof (cases "mprotect_refuses cfg (vm_areas ctx) a len")
    case True
    with prems show ?thesis
      by (simp add: vm_area_mprotect_refuses)
  next
    case False
    note S = vm_area_mprotect_step [OF False, of mmu freed p k]
    note A = protect_step_aligned [OF _ prems(2,3) page_aligned_page_round]
    show ?thesis
    proof (cases "protect_step freed (vm_areas ctx) a (page_round len) p")
      case (Protected vms')
      with prems S show ?thesis
        using A [OF disjI1 [OF Protected]]
        by (auto simp: run_of_option_def split: option.splits)
    next
      case (Protect_Rest vms' a' len')
      have "2 ^ 64 - unat a' < 2 ^ 64 - unat a"
        using protect_step_rest [OF Protect_Rest] unsigned_less [of a', where ?'a = nat]
        by (simp add: word_less_nat_alt)
      from less.hyps [OF this, of "ctx\<lparr>vm_areas := vms'\<rparr>" len'] show ?thesis
        using prems(1) S Protect_Rest A [OF disjI2 [OF Protect_Rest]]
          protect_step_rest_aligned [OF Protect_Rest prems(2)]
        by simp
    qed (use prems S in simp_all)
  qed
qed

lemma vm_area_map_aligned:
  "vm_area_map cfg mmu ctx a len prot flags k = Returns (r, ctx', k') \<Longrightarrow>
    vms_aligned (vm_areas ctx) \<Longrightarrow> page_aligned a \<Longrightarrow> page_aligned (MMAP_AREA_START cfg) \<Longrightarrow>
    vms_aligned (vm_areas ctx')"
proof (induction cfg mmu ctx a len prot flags k rule: vm_area_map.induct)
  case (1 cfg mmu ctx addr len prot flags k)
  show ?case
  proof (cases "length (vm_areas ctx) > 128")
    case True
    with "1.prems" show ?thesis
      by (simp add: vm_area_map.simps [of _ _ _ addr])
  next
    case False
    show ?thesis
    proof (cases "map_place cfg (vm_areas ctx) addr (page_round len) prot flags")
      case (Placed vms' r')
      with "1.prems" False map_place_aligned [OF Placed] page_aligned_page_round [of len]
      show ?thesis
        by (simp add: vm_area_map.simps [of _ _ _ addr] Let_def split: if_splits)
          (auto simp: run_of_option_def split: option.splits)
    next
      case (Retry b)
      with "1.prems" False have
        "vm_area_map cfg mmu ctx b (page_round len) prot flags k = Returns (r, ctx', k')"
        by (simp add: vm_area_map.simps [of _ _ _ addr] Let_def)
      from "1.IH" [OF refl refl False Retry this] show ?thesis
        using map_place_retry_aligned [OF Retry] "1.prems" by simp
    qed (use "1.prems" False in \<open>simp_all add: vm_area_map.simps [of _ _ _ addr] Let_def\<close>)
  qed
qed

lemma vm_area_unmap_aligned:
  assumes "vm_area_unmap mmu ctx a len k = Returns (r, ctx', k')"
    and "vms_aligned (vm_areas ctx)" "page_aligned a"
  shows "vms_aligned (vm_areas ctx')"
proof -
  obtain r' vms' where u: "unmap_loop (length (vm_areas ctx)) a (page_round len) (vm_areas ctx) = (r', vms')"
    by fastforce
  with assms unmap_loop_aligned [OF u assms(2,3) page_aligned_page_round] show ?thesis
    by (auto simp: vm_area_unmap_def Let_def run_of_option_def split: if_splits option.splits)
qed

section \<open>Sequences of calls\<close>

datatype vm_call =
    Mmap u64 i32 u32 u32
  | Munmap u64 i32
  | Mprotect u64 i32 u32
  | Page_Fault u64 i32

definition vm_call_step ::
  "mm_config \<Rightarrow> 'k mmu \<Rightarrow> freed_view \<Rightarrow> vm_call \<Rightarrow> exec_context \<times> 'k
     \<Rightarrow> (i64 \<times> exec_context \<times> 'k) run" where
  "vm_call_step cfg mmu freed call s =
     (case s of (ctx, k) \<Rightarrow>
       case call of
         Mmap addr len prot flags \<Rightarrow> vm_area_map cfg mmu ctx addr len prot flags k
       | Munmap addr len \<Rightarrow>
           run_bind (vm_area_unmap mmu ctx addr len k) (\<lambda>(r, t). Returns (sx r, t))
       | Mprotect addr len prot \<Rightarrow>
           run_bind (vm_area_mprotect cfg mmu freed ctx addr len prot k) (\<lambda>(r, t). Returns (sx r, t))
       | Page_Fault addr code \<Rightarrow>
           (case vm_area_pagefault cfg mmu ctx addr code k of (r, k') \<Rightarrow> Returns (sx r, ctx, k')))"

text \<open>
  The calls the theorem speaks of: addresses on page boundaries up to 2 ^ 62, lengths
  that are positive and can be rounded up.
\<close>

definition vm_call_ok :: "mm_config \<Rightarrow> vm_call \<Rightarrow> bool" where
  "vm_call_ok cfg call \<longleftrightarrow>
     (case call of
        Mmap addr len prot flags \<Rightarrow> length_ok len \<and> page_aligned addr
      | Munmap addr len \<Rightarrow>
          length_ok len \<and> page_aligned addr \<and> MMAP_AREA_START cfg \<le> addr \<and> addr \<le> 2 ^ 62
      | Mprotect addr len prot \<Rightarrow> length_ok len \<and> page_aligned addr \<and> addr \<le> 2 ^ 62
      | Page_Fault addr code \<Rightarrow> True)"

definition vm_inv :: "mm_config \<Rightarrow> exec_context \<times> 'k \<Rightarrow> bool" where
  "vm_inv cfg s \<longleftrightarrow>
     mm_config_ok cfg \<and> page_aligned (MMAP_AREA_START cfg)
     \<and> vms_ok cfg (vm_areas (fst s)) \<and> vms_aligned (vm_areas (fst s))"

lemma vm_area_map_vms_ok:
  assumes "mm_config_ok cfg" "vms_ok cfg (vm_areas ctx)" "length_ok len"
    and "vm_area_map cfg mmu ctx addr len prot flags k = Returns (ret, ctx', k')"
  shows "vms_ok cfg (vm_areas ctx')"
proof (cases "ret = - 1")
  case True
  with vm_area_map_cases [OF assms(4) length_ok_page_round(2) [OF assms(3)]]
    vm_area_map_placed [OF assms(1-3)] minus_one_high have "ctx' = ctx"
    by blast
  with assms(2) show ?thesis
    by simp
next
  case False
  then show ?thesis
    using vm_area_map_spec [OF assms] by blast
qed

lemma vm_area_unmap_vms_ok:
  assumes "mm_config_ok cfg" "vms_ok cfg (vm_areas ctx)" "length_ok len" "addr \<le> 2 ^ 62"
    and "MMAP_AREA_START cfg \<le> addr"
    and "vm_area_unmap mmu ctx addr len k = Returns (r, ctx', k')"
  shows "vms_ok cfg (vm_areas ctx')"
  using vm_area_unmap_spec [OF assms(1-4), of mmu k] assms(2,5,6) by (auto split: if_splits)

lemma vm_area_mprotect_vms_ok:
  assumes "mm_config_ok cfg" "vms_ok cfg (vm_areas ctx)" "length_ok len"
    and "a \<le> 2 ^ 62" "page_aligned a" "vms_aligned (vm_areas ctx)"
    and "vm_area_mprotect cfg mmu freed ctx a len p k = Returns (r, ctx', k')"
  shows "vms_ok cfg (vm_areas ctx')"
  using vm_area_mprotect_any [OF assms(1-6), of mmu p k freed] assms(2,7)
  by (auto simp: mprotect_outcome_def vms_ok_def protects_def split: if_splits)

lemma vm_area_map_never_faults: "vm_area_map cfg mmu ctx addr len prot flags k \<noteq> Faults"
proof (induction cfg mmu ctx addr len prot flags k rule: vm_area_map.induct)
  case (1 cfg mmu ctx addr len prot flags k)
  show ?case
  proof (cases "map_place cfg (vm_areas ctx) addr (page_round len) prot flags")
    case (Retry a)
    then show ?thesis
      using "1.IH" [OF refl refl _ Retry]
      by (simp add: vm_area_map.simps [of _ _ _ addr] Let_def)
  qed (simp_all add: vm_area_map.simps [of _ _ _ addr] Let_def map_place_no_crash run_of_option_def
      split: option.split)
qed

lemma vm_area_unmap_returns:
  assumes "mm_config_ok cfg" "vms_ok cfg (vm_areas ctx)" "length_ok len" "addr \<le> 2 ^ 62"
  shows "\<exists>r ctx' k'. vm_area_unmap mmu ctx addr len k = Returns (r, ctx', k')"
  using vm_area_unmap_spec [OF assms, of mmu k] by (auto split: if_splits)

lemma vm_area_mprotect_ends:
  assumes "mm_config_ok cfg" "vms_ok cfg (vm_areas ctx)" "length_ok len"
    and "a \<le> 2 ^ 62" "page_aligned a" "vms_aligned (vm_areas ctx)"
  shows "vm_area_mprotect cfg mmu freed ctx a len p k \<noteq> Hangs"
    and "\<exists>r ctx' k'. vm_area_mprotect cfg mmu freed_intact ctx a len p k = Returns (r, ctx', k')"
  using vm_area_mprotect_any [OF assms, of mmu p k freed]
    vm_area_mprotect_spec [OF assms(1) _ assms(2-6), of True freed_intact mmu p k]
  by (auto simp: mprotect_outcome_def split: if_splits)

text \<open>Every call keeps the invariant, whatever freed areas show.\<close>

interpretation vm: component "vm_call_step cfg mmu freed" "vm_inv cfg" "vm_call_ok cfg"
  for cfg and mmu :: "'k mmu" and freed
proof
  show "vm_inv cfg s'"
    if "vm_inv cfg s" "vm_call_ok cfg call" "vm_call_step cfg mmu freed call s = Returns (r, s')"
    for s :: "exec_context \<times> 'k" and call r s'
    using that
    by (cases call; cases s; cases s')
      (auto simp: vm_inv_def vm_call_ok_def vm_call_step_def run_bind_eq_Returns
        split: prod.splits
        dest: vm_area_map_vms_ok vm_area_map_aligned vm_area_unmap_vms_ok vm_area_unmap_aligned
          vm_area_mprotect_vms_ok vm_area_mprotect_aligned)
qed

text \<open>A call that reads no freed area does the same whatever they show.\<close>

interpretation vm_view: guarded_component "vm_call_step cfg mmu freed_unreadable" "vm_call_step cfg mmu freed"
  for cfg and mmu :: "'k mmu" and freed
proof
  show "vm_call_step cfg mmu freed call s = vm_call_step cfg mmu freed_unreadable call s"
    if "vm_call_step cfg mmu freed_unreadable call s \<noteq> Faults" for s :: "exec_context \<times> 'k" and call
  proof (cases call)
    case (Mprotect addr len prot)
    obtain ctx k where "s = (ctx, k)"
      by fastforce
    then show ?thesis
      using that Mprotect vm_area_mprotect_view [of cfg mmu ctx addr len prot k freed]
      by (auto simp: vm_call_step_def split: if_splits)
  qed (simp_all add: vm_call_step_def)
qed

text \<open>When freed areas show what they had, no null pointer is followed.\<close>

interpretation vm_safe: safe_component "vm_call_step cfg mmu freed_intact" "vm_inv cfg" "vm_call_ok cfg"
  for cfg and mmu :: "'k mmu"
proof
  show "vm_call_step cfg mmu freed_intact call s \<noteq> Faults"
    if "vm_inv cfg s" "vm_call_ok cfg call" for s :: "exec_context \<times> 'k" and call
  proof (cases call)
    case (Munmap addr len)
    then show ?thesis
      using that vm_area_unmap_returns [of cfg "fst s" len addr mmu "snd s"]
      by (auto simp: vm_inv_def vm_call_ok_def vm_call_step_def split: prod.splits)
  next
    case (Mprotect addr len prot)
    then show ?thesis
      using that vm_area_mprotect_ends(2) [of cfg "fst s" len addr mmu prot "snd s"]
      by (auto simp: vm_inv_def vm_call_ok_def vm_call_step_def split: prod.splits)
  qed (auto simp: vm_call_step_def vm_area_map_never_faults split: prod.splits)
qed

text \<open>All calls but \<open>mmap\<close> end; when freed areas show what they had, they return.\<close>

definition vm_call_returns :: "mm_config \<Rightarrow> vm_call \<Rightarrow> bool" where
  "vm_call_returns cfg call \<longleftrightarrow>
     vm_call_ok cfg call \<and> (case call of Mmap addr len prot flags \<Rightarrow> False | _ \<Rightarrow> True)"

lemma vm_call_returns_inv:
  "vm_inv cfg s \<Longrightarrow> vm_call_returns cfg call \<Longrightarrow> vm_call_step cfg mmu freed call s = Returns (r, s') \<Longrightarrow>
    vm_inv cfg s'"
  using vm.step_inv [of cfg s call mmu freed r s'] by (simp add: vm_call_returns_def)

interpretation vm_ending: ending_component "vm_call_step cfg mmu freed" "vm_inv cfg" "vm_call_returns cfg"
  for cfg and mmu :: "'k mmu" and freed
proof
  show "vm_call_step cfg mmu freed call s \<noteq> Hangs"
    if "vm_inv cfg s" "vm_call_returns cfg call" for s :: "exec_context \<times> 'k" and call
  proof (cases call)
    case (Munmap addr len)
    then show ?thesis
      using that vm_area_unmap_returns [of cfg "fst s" len addr mmu "snd s"]
      by (auto simp: vm_inv_def vm_call_returns_def vm_call_ok_def vm_call_step_def
          split: prod.splits)
  next
    case (Mprotect addr len prot)
    then show ?thesis
      using that vm_area_mprotect_ends(1) [of cfg "fst s" len addr mmu freed prot "snd s"]
      by (cases "vm_area_mprotect cfg mmu freed (fst s) addr len prot (snd s)")
        (auto simp: vm_inv_def vm_call_returns_def vm_call_ok_def vm_call_step_def split: prod.splits)
  qed (use that in \<open>auto simp: vm_call_returns_def vm_call_step_def split: prod.splits\<close>)
qed (rule vm_call_returns_inv)

interpretation vm_total: total_component "vm_call_step cfg mmu freed_intact" "vm_inv cfg" "vm_call_returns cfg"
  for cfg and mmu :: "'k mmu"
proof
  show "\<exists>r s'. vm_call_step cfg mmu freed_intact call s = Returns (r, s')"
    if "vm_inv cfg s" "vm_call_returns cfg call" for s :: "exec_context \<times> 'k" and call
    using vm_ending.step_ends [OF that, of mmu freed_intact] vm_safe.step_no_fault [of cfg s call mmu] that
    by (cases "vm_call_step cfg mmu freed_intact call s") (auto simp: vm_call_returns_def)
qed

section \<open>Properties\<close>

text \<open>
  C11: Any sequence of \<open>mmap\<close>, \<open>munmap\<close>, \<open>mprotect\<close> and page faults, in any order and whether or not
  the calls succeed, keeps the areas sorted, disjoint, page-aligned, within the mmap area and at
  most 128, whatever \<open>mprotect\<close> finds when it reads an area it has freed. The calls have page-aligned
  addresses and positive lengths that can be rounded up, \<open>munmap\<close> and \<open>mprotect\<close> addresses of
  at most 2 ^ 62, and \<open>munmap\<close> addresses not below the mmap area, which the code does not check
  (\<open>munmap_below_area\<close> shows what happens there). A run that faults has read a freed area, and when
  freed areas show what they had, no run faults.
\<close>

theorem vm_calls_keep_areas:
  assumes "mm_config_ok cfg" "page_aligned (MMAP_AREA_START cfg)"
    and "vms_ok cfg (vm_areas ctx)" "vms_aligned (vm_areas ctx)"
    and "\<forall>call \<in> set calls. vm_call_ok cfg call"
  shows "(\<forall>rs ctx' k'. run_ops (vm_call_step cfg mmu freed) calls (ctx, k) = Returns (rs, ctx', k') \<longrightarrow>
         vms_ok cfg (vm_areas ctx') \<and> vms_aligned (vm_areas ctx'))
    \<and> (run_ops (vm_call_step cfg mmu freed) calls (ctx, k) = Faults \<longrightarrow>
         run_ops (vm_call_step cfg mmu freed_unreadable) calls (ctx, k) = Faults)
    \<and> run_ops (vm_call_step cfg mmu freed_intact) calls (ctx, k) \<noteq> Faults"
proof -
  have inv: "vm_inv cfg (ctx, k)"
    using assms by (simp add: vm_inv_def)
  have "vms_ok cfg (vm_areas ctx') \<and> vms_aligned (vm_areas ctx')"
    if "run_ops (vm_call_step cfg mmu freed) calls (ctx, k) = Returns (rs, ctx', k')" for rs ctx' k'
    using vm.run_inv [OF inv assms(5) that] by (simp add: vm_inv_def)
  moreover have "run_ops (vm_call_step cfg mmu freed_unreadable) calls (ctx, k) = Faults"
    if "run_ops (vm_call_step cfg mmu freed) calls (ctx, k) = Faults"
    using vm_view.run_same [of cfg mmu calls "(ctx, k)" freed] that by auto
  ultimately show ?thesis
    using vm_safe.run_no_fault [OF inv assms(5)] by blast
qed

theorem vm_calls_keep_areas_witness:
  "vms_ok example_cfg [new_vm 6442450944 6442455040 1, new_vm 6442455040 6442459136 3]"
proof -
  let ?calls = "[Mmap 0 8192 1 0, Mprotect 6442455040 4096 3, Mmap 0 4096 3 0,
    Munmap 6442459136 4096, Page_Fault 6442455040 6]"
  let ?vms = "[new_vm 6442450944 6442455040 1, new_vm 6442455040 6442459136 3]"
  have "run_ops (vm_call_step example_cfg example_mmu freed_intact) ?calls (example_ctx [], [])
      = Returns ([6442450944, 0, 6442459136, 0, 1], example_ctx ?vms, [(6442455040, 3)])"
    by code_simp
  moreover have "vms_ok example_cfg []" "page_aligned (MMAP_AREA_START example_cfg)"
    by (simp_all add: vms_ok_def example_cfg_def page_aligned_def)
  moreover have "\<forall>call \<in> set ?calls. vm_call_ok example_cfg call"
    by (simp add: vm_call_ok_def length_ok_def page_aligned_def example_cfg_def)
  ultimately show ?thesis
    using vm_calls_keep_areas [OF example_cfg_ok, of "example_ctx []" ?calls
        example_mmu freed_intact "[]"]
    by (simp add: example_ctx_def)
qed

text \<open>
  C12: Lazy allocation. After a successful \<open>mmap\<close> every page of the region is served on first
  access: a read always, a write exactly when \<open>PROT_WRITE\<close> was asked for; the page is mapped
  with the protection of the region.
\<close>

theorem vm_mmap_then_fault:
  assumes "mm_config_ok cfg" "vms_ok cfg (vm_areas ctx)" "length_ok len"
    and "vm_area_map cfg mmu ctx addr len prot flags k = Returns (ret, ctx', k')" "ret \<noteq> - 1"
  shows "\<exists>base. (ret = base \<or> ret = base + sx (page_round len)) \<and> base < base + sx (page_round len)
    \<and> (\<forall>x j. base \<le> x \<and> x < base + sx (page_round len) \<longrightarrow>
         vm_area_pagefault cfg mmu ctx' x 4 j = (1, map_page mmu (pgd ctx) (page_prot cfg prot) x j)
         \<and> vm_area_pagefault cfg mmu ctx' x 6 j =
             (if prot AND PROT_WRITE cfg \<noteq> 0
              then (1, map_page mmu (pgd ctx) (page_prot cfg prot) x j) else (- 1, invlpg mmu x j)))"
proof -
  from vm_area_map_spec [OF assms] obtain base where
    b: "base < base + sx (page_round len)" "ret = base \<or> ret = base + sx (page_round len)"
      "pgd ctx' = pgd ctx"
    and m: "region_mapped base (base + sx (page_round len)) prot (vm_areas ctx) (vm_areas ctx')"
    by blast
  have "perm_at (vm_areas ctx') x = Some prot" if "base \<le> x \<and> x < base + sx (page_round len)" for x
    using m that by (simp add: region_mapped_def)
  with b show ?thesis
    by (intro exI [of _ base])
      (auto simp: vm_area_pagefault_perm)
qed

theorem vm_mmap_then_fault_witness:
  "\<exists>base. (6442455040 = base \<or> 6442455040 = base + 8192)
    \<and> vm_area_pagefault example_cfg example_mmu (example_ctx
      [new_vm 6442450944 6442455040 1, new_vm 6442455040 6442463232 3]) base 6 []
    = (1, [(base, 3)])"
proof -
  let ?ctx = "example_ctx [new_vm 6442450944 6442455040 1]"
  let ?ctx' = "example_ctx [new_vm 6442450944 6442455040 1, new_vm 6442455040 6442463232 3]"
  have c: "vm_area_map example_cfg example_mmu ?ctx 0 5000 3 0 [] = Returns (6442455040, ?ctx', [])"
    by code_simp
  have L: "sx (page_round 5000) = 8192"
    by code_simp
  have p: "3 AND PROT_WRITE example_cfg \<noteq> 0" "page_prot example_cfg 3 = 3"
    by (simp_all add: example_cfg_def page_prot_def)
  have "vms_ok example_cfg (vm_areas ?ctx)" "length_ok 5000"
    by (simp_all add: vms_ok_def example_cfg_def example_ctx_def length_ok_def)
  from vm_mmap_then_fault [OF example_cfg_ok this c] obtain base where
    b: "6442455040 = base \<or> 6442455040 = base + 8192" "base < base + 8192"
    and f: "\<forall>x j. base \<le> x \<and> x < base + 8192 \<longrightarrow>
       vm_area_pagefault example_cfg example_mmu ?ctx' x 6 j
         = (1, map_page example_mmu (pgd ?ctx) (page_prot example_cfg 3) x j)"
    unfolding L using p by fastforce
  have "vm_area_pagefault example_cfg example_mmu ?ctx' base 6 []
      = (1, map_page example_mmu (pgd ?ctx) (page_prot example_cfg 3) base [])"
    using f b(2) by simp
  then show ?thesis
    using b(1) by (intro exI [of _ base]) (simp add: p map_page_def example_mmu_def)
qed

text \<open>
  After a successful \<open>munmap\<close> every access to the range is refused: the page fault handler
  returns -1 and maps nothing.
\<close>

theorem vm_munmap_then_fault:
  assumes "mm_config_ok cfg" "vms_ok cfg (vm_areas ctx)" "length_ok len" "addr \<le> 2 ^ 62"
    and "vm_area_unmap mmu ctx addr len k = Returns (0, ctx', k')"
    and "addr \<le> x" "x < addr + sx (page_round len)"
  shows "vm_area_pagefault cfg mmu ctx' x code j = (- 1, invlpg mmu x j)"
  using vm_area_unmap_spec [OF assms(1-4), of mmu k] assms(5-7)
  by (auto simp: vm_area_pagefault_perm unmapped_perm_def split: if_splits)

theorem vm_munmap_then_fault_witness:
  "vm_area_pagefault example_cfg example_mmu
     (example_ctx [new_vm 6442450944 6442455040 3, new_vm 6442459136 6442463232 3,
        new_vm 6442471424 6442475520 1]) 6442455040 4 [] = (- 1, [])"
proof -
  let ?vms = "[new_vm 6442450944 6442463232 3, new_vm 6442471424 6442475520 1]"
  let ?vms' = "[new_vm 6442450944 6442455040 3, new_vm 6442459136 6442463232 3,
      new_vm 6442471424 6442475520 1]"
  have L: "sx (page_round 4096) = 4096"
    by code_simp
  have c: "vm_area_unmap example_mmu (example_ctx ?vms) 6442455040 4096 [] =
      Returns (0, example_ctx ?vms', [])"
    by code_simp
  have "length_ok 4096" "vms_ok example_cfg (vm_areas (example_ctx ?vms))"
    using example_areas_ok by (simp_all add: length_ok_def example_ctx_def)
  then show ?thesis
    using vm_munmap_then_fault [OF example_cfg_ok _ _ _ c, of 6442455040 4 "[]"]
    by (simp add: L example_mmu_def)
qed

text \<open>
  C13: After a successful \<open>mprotect\<close> (page-aligned address of at most 2 ^ 62, positive length that
  can be rounded up) a write fault in the range is served exactly when the new flags allow writing,
  and a read fault always, whatever the code found when it read an area it had freed.
\<close>

theorem vm_mprotect_then_fault:
  assumes "mm_config_ok cfg" "vms_ok cfg (vm_areas ctx)" "length_ok len"
    and "a \<le> 2 ^ 62" "page_aligned a" "vms_aligned (vm_areas ctx)"
    and "vm_area_mprotect cfg mmu freed ctx a len p k = Returns (0, ctx', k')"
    and "a \<le> x" "x < a + sx (page_round len)"
  shows "(fst (vm_area_pagefault cfg mmu ctx' x 6 j) = 1 \<longleftrightarrow> p AND PROT_WRITE cfg \<noteq> 0)
    \<and> vm_area_pagefault cfg mmu ctx' x 4 j = (1, map_page mmu (pgd ctx') (page_prot cfg p) x j)"
  using vm_area_mprotect_any [OF assms(1-6), of mmu p k freed] assms(7-9)
  by (auto simp: vm_area_pagefault_perm mprotect_outcome_def protects_def range_done_def split: if_splits)

theorem vm_mprotect_then_fault_witness:
  "fst (vm_area_pagefault example_cfg example_mmu (example_ctx [new_vm 6442450944 6442455040 1,
     new_vm 6442455040 6442463232 3, new_vm 6442463232 6442467328 2,
     new_vm 6442475520 6442479616 1]) 6442455040 6 []) = 1"
proof -
  have c: "vm_area_mprotect example_cfg example_mmu freed_intact (example_ctx example_adjacent)
      6442455040 8192 3 [(6442459136, 1), (6442455040, 1)] =
    Returns (0, example_ctx [new_vm 6442450944 6442455040 1, new_vm 6442455040 6442463232 3,
      new_vm 6442463232 6442467328 2, new_vm 6442475520 6442479616 1],
      [(6442459136, 3), (6442455040, 1)])"
    by code_simp
  have L: "sx (page_round 8192) = 8192"
    by code_simp
  from vm_mprotect_then_fault [OF example_cfg_ok _ _ _ _ _ c, of 6442455040 "[]"]
  show ?thesis
    by (simp add: L example_adjacent_ok example_ctx_def length_ok_def page_aligned_def)
      (simp add: example_cfg_def)
qed

text \<open>
  C24: Any sequence of \<open>munmap\<close>, \<open>mprotect\<close> and page faults ends, whatever freed areas show: with a
  result for every call, or in a fault of \<open>mprotect\<close> after it has read a freed area. When freed areas
  show what they had there is a result for every call. Of the entry points only \<open>mmap\<close> can hang. The
  calls have page-aligned addresses of at most 2 ^ 62 and positive lengths that can be rounded up,
  and \<open>munmap\<close> addresses not below the mmap area, which the code does not check.
\<close>

theorem vm_calls_return:
  assumes "mm_config_ok cfg" "page_aligned (MMAP_AREA_START cfg)"
    and "vms_ok cfg (vm_areas ctx)" "vms_aligned (vm_areas ctx)"
    and "\<forall>call \<in> set calls. vm_call_ok cfg call \<and>
      (case call of Mmap addr len prot flags \<Rightarrow> False | _ \<Rightarrow> True)"
  shows "((\<exists>rs ctx' k'. run_ops (vm_call_step cfg mmu freed) calls (ctx, k) = Returns (rs, ctx', k'))
      \<or> run_ops (vm_call_step cfg mmu freed) calls (ctx, k) = Faults
        \<and> run_ops (vm_call_step cfg mmu freed_unreadable) calls (ctx, k) = Faults)
    \<and> (\<exists>rs ctx' k'. run_ops (vm_call_step cfg mmu freed_intact) calls (ctx, k) = Returns (rs, ctx', k'))"
proof -
  have inv: "vm_inv cfg (ctx, k)" and calls: "\<forall>call \<in> set calls. vm_call_returns cfg call"
    using assms by (simp_all add: vm_inv_def vm_call_returns_def)
  have "(\<exists>rs ctx' k'. run_ops (vm_call_step cfg mmu freed) calls (ctx, k) = Returns (rs, ctx', k'))
      \<or> run_ops (vm_call_step cfg mmu freed) calls (ctx, k) = Faults"
    using vm_ending.run_ends [OF inv calls, of mmu freed]
    by (cases "run_ops (vm_call_step cfg mmu freed) calls (ctx, k)") auto
  then show ?thesis
    using vm_total.run_returns [OF inv calls, of mmu] vm_view.run_same [of cfg mmu calls "(ctx, k)" freed]
    by fastforce
qed

theorem vm_calls_return_witness:
  "\<exists>rs ctx' k'. run_ops (vm_call_step example_cfg example_mmu freed_intact)
      [Munmap 6442455040 4096, Mprotect 6442450944 4096 1, Page_Fault 6442450944 4]
      (example_ctx [new_vm 6442450944 6442463232 3, new_vm 6442471424 6442475520 1], [])
    = Returns (rs, ctx', k')"
  by (rule vm_calls_return [OF example_cfg_ok, THEN conjunct2])
    (simp_all add: example_ctx_def vms_ok_def vms_aligned_def vm_call_ok_def length_ok_def
      page_aligned_def example_cfg_def new_vm_def)

text \<open>
  \<open>munmap\<close> does not check that its range lies in the mmap area: from a page below the area on it
  returns 0 and moves the start of the first area out of the mmap area.
\<close>

lemma munmap_below_area:
  "vm_area_unmap example_mmu (example_ctx [new_vm 6442459136 6442463232 3]) 6442442752 4096 []
    = Returns (0, example_ctx [new_vm 6442446848 6442463232 3], [])"
  "\<not> vms_ok example_cfg [new_vm 6442446848 6442463232 3]"
  by (code_simp, simp add: vms_ok_def example_cfg_def new_vm_def)

end
