(* ===== verification/File_Table.thy ===== *)
theory File_Table
  imports Prelude
begin

text \<open>
  The objects of \<open>src/Assignment2/file.c\<close> and \<open>src/Assignment2/pipe.c\<close> and the operations
  that create, share and close them: \<open>struct file\<close> with its reference count,
  \<open>struct pipe_info\<close>, the descriptor table of a process, and the abstract contract of the
  reference counts, \<open>refs_ok\<close>, that every operation keeps.
\<close>

section \<open>Data\<close>

text \<open>The macros of \<open>file.h\<close>, \<open>fs.h\<close> and \<open>entry.h\<close>, which are not part of the repository.\<close>

record file_macros =
  MAX_OPEN_FILES :: nat
  O_READ :: u32
  O_WRITE :: u32
  O_CREAT :: u32
  STDIN :: u32
  REGULAR :: u32
  PIPE :: u32
  SEEK_SET :: i32
  SEEK_CUR :: i32
  SEEK_END :: i32
  EINVAL :: i32
  EACCES :: i32
  EOTHERS :: i32
  ENOMEM :: i32

text \<open>The functions a \<open>struct fileops\<close> may point to; \<^const>\<open>None\<close> is the null pointer.\<close>

datatype file_op =
    Do_Read_Kbd | Do_Write_Console
  | Do_Read_Regular | Do_Write_Regular | Do_Lseek_Regular
  | Pipe_Read | Pipe_Write | Generic_Close

record fileops =
  fop_read :: "file_op option"
  fop_write :: "file_op option"
  fop_lseek :: "file_op option"
  fop_close :: "file_op option"

text \<open>Pointers are addresses; the null pointer is \<^const>\<open>None\<close>.\<close>

record file_obj =
  file_type :: u32
  file_mode :: u32
  offp :: u32
  ref_count :: u32
  file_inode :: "u64 option"
  file_pipe :: "u64 option"
  fops :: fileops

text \<open>The flags \<open>is_ropen\<close> and \<open>is_wopen\<close> are only ever set to 0 and 1 and tested.\<close>

record pipe_info =
  pipe_buff :: "u8 list"
  read_pos :: u32
  write_pos :: u32
  buffer_offset :: u32
  is_ropen :: bool
  is_wopen :: bool

text \<open>The live objects, and \<open>stats->file_objects\<close>.\<close>

record heap =
  files :: "u64 \<Rightarrow> file_obj option"
  pipes :: "u64 \<Rightarrow> pipe_info option"
  file_objects :: u64

type_synonym fd_table = "u64 option list"

text \<open>
  The page allocator behind \<open>alloc_file\<close> and \<open>alloc_pipe_info\<close>: for the live objects, the
  address of a fresh one with what its memory happens to hold, or the null pointer.
\<close>

record allocator =
  file_page :: "(u64 \<Rightarrow> file_obj option) \<Rightarrow> (u64 \<times> file_obj) option"
  pipe_page :: "(u64 \<Rightarrow> pipe_info option) \<Rightarrow> (u64 \<times> pipe_info) option"

section \<open>Allocation\<close>

definition no_fops :: fileops where
  "no_fops = \<lparr>fop_read = None, fop_write = None, fop_lseek = None, fop_close = None\<rparr>"

text \<open>
  \<open>alloc_file\<close> writes to \<open>file->fops\<close> before anybody tests the pointer, so a failed
  allocation is a fault; the same holds of \<open>alloc_pipe_info\<close>.
\<close>

definition alloc_file :: "allocator \<Rightarrow> heap \<Rightarrow> (u64 \<times> heap) run" where
  "alloc_file al h =
     (case file_page al (files h) of
        None \<Rightarrow> Faults
      | Some (a, f) \<Rightarrow> Returns (a, h\<lparr>files := (files h)(a \<mapsto> f\<lparr>fops := no_fops\<rparr>),
            file_objects := file_objects h + 1\<rparr>))"

definition free_file_object :: "u64 \<Rightarrow> heap \<Rightarrow> heap" where
  "free_file_object a h =
     h\<lparr>files := (files h)(a := None), file_objects := file_objects h - 1\<rparr>"

definition alloc_pipe_info :: "allocator \<Rightarrow> heap \<Rightarrow> (u64 \<times> heap) run" where
  "alloc_pipe_info al h =
     (case pipe_page al (pipes h) of
        None \<Rightarrow> Faults
      | Some (p, i) \<Rightarrow> Returns (p, h\<lparr>pipes := (pipes h)(p \<mapsto> i)\<rparr>))"

definition free_pipe_info :: "u64 \<Rightarrow> heap \<Rightarrow> heap" where
  "free_pipe_info p h = h\<lparr>pipes := (pipes h)(p := None)\<rparr>"

text \<open>Writing through a pointer to a live file.\<close>

definition set_file :: "u64 \<Rightarrow> (file_obj \<Rightarrow> file_obj) \<Rightarrow> heap \<Rightarrow> heap run" where
  "set_file a upd h =
     (case files h a of
        None \<Rightarrow> Faults
      | Some f \<Rightarrow> Returns (h\<lparr>files := (files h)(a \<mapsto> upd f)\<rparr>))"

section \<open>Closing\<close>

definition close_pipe_end :: "file_macros \<Rightarrow> file_obj \<Rightarrow> pipe_info \<Rightarrow> pipe_info" where
  "close_pipe_end c f i =
     (let i = (if file_mode f = O_READ c \<and> is_ropen i then i\<lparr>is_ropen := False\<rparr> else i) in
      if file_mode f = O_WRITE c \<and> is_wopen i then i\<lparr>is_wopen := False\<rparr> else i)"

definition close_pipe :: "file_macros \<Rightarrow> file_obj \<Rightarrow> heap \<Rightarrow> heap run" where
  "close_pipe c f h =
     (case file_pipe f of
        None \<Rightarrow> Faults
      | Some p \<Rightarrow>
          (case pipes h p of
             None \<Rightarrow> Faults
           | Some i \<Rightarrow>
               (let i' = close_pipe_end c f i; h' = h\<lparr>pipes := (pipes h)(p \<mapsto> i')\<rparr> in
                if \<not> is_wopen i' \<and> \<not> is_ropen i' then Returns (free_pipe_info p h')
                else Returns h')))"

definition generic_close :: "file_macros \<Rightarrow> u64 option \<Rightarrow> heap \<Rightarrow> (i64 \<times> heap) run" where
  "generic_close c filep h =
     (case filep of
        None \<Rightarrow> Returns (sx (- EINVAL c), h)
      | Some a \<Rightarrow>
          (case files h a of
             None \<Rightarrow> Faults
           | Some f \<Rightarrow>
               (let f' = f\<lparr>ref_count := ref_count f - 1\<rparr>;
                    h' = h\<lparr>files := (files h)(a \<mapsto> f')\<rparr> in
                if ref_count f' = 0 then
                  (if file_type f' = PIPE c then
                     run_bind (close_pipe c f' h') (\<lambda>h''. Returns (0, free_file_object a h''))
                   else Returns (0, free_file_object a h'))
                else Returns (0, h'))))"

section \<open>Processes\<close>

text \<open>
  The loops over the descriptors of a new and of an exiting process. The routines here and below get
  the descriptor table of a process that exists: their tests for a null context have no branch.
\<close>

fun do_file_fork :: "fd_table \<Rightarrow> heap \<Rightarrow> heap run" where
  "do_file_fork [] h = Returns h"
| "do_file_fork (None # fds) h = do_file_fork fds h"
| "do_file_fork (Some a # fds) h =
     run_bind (set_file a (\<lambda>f. f\<lparr>ref_count := ref_count f + 1\<rparr>) h) (do_file_fork fds)"

fun do_file_exit :: "file_macros \<Rightarrow> fd_table \<Rightarrow> heap \<Rightarrow> heap run" where
  "do_file_exit c [] h = Returns h"
| "do_file_exit c (None # fds) h = do_file_exit c fds h"
| "do_file_exit c (Some a # fds) h =
     run_bind (generic_close c (Some a) h) (\<lambda>(r, h'). do_file_exit c fds h')"

section \<open>Descriptors\<close>

text \<open>
  \<open>while (files[fd]) { fd++; if (fd >= MAX_OPEN_FILES) return -EOTHERS; }\<close> over a table of
  \<open>MAX_OPEN_FILES\<close> slots: the slot found, \<^const>\<open>None\<close> for the error return, and a fault when
  the first slot it looks at is outside of the table.
\<close>

definition free_slot :: "fd_table \<Rightarrow> nat \<Rightarrow> nat option" where
  "free_slot fds fd = List.find (\<lambda>i. fds ! i = None) [fd..<length fds]"

definition find_fd :: "fd_table \<Rightarrow> nat \<Rightarrow> nat option run" where
  "find_fd fds fd = (if fd \<ge> length fds then Faults else Returns (free_slot fds fd))"

text \<open>\<open>open_standard_IO\<close> scans without a bound.\<close>

definition std_file :: "file_macros \<Rightarrow> u32 \<Rightarrow> file_obj \<Rightarrow> file_obj" where
  "std_file c type f =
     f\<lparr>file_type := type,
       file_mode := (if type = STDIN c then O_READ c else O_WRITE c),
       fops := (if type = STDIN c then no_fops\<lparr>fop_read := Some Do_Read_Kbd\<rparr>
                else no_fops\<lparr>fop_write := Some Do_Write_Console\<rparr>)\<lparr>fop_close := Some Generic_Close\<rparr>,
       ref_count := 1\<rparr>"

definition create_standard_IO ::
  "file_macros \<Rightarrow> allocator \<Rightarrow> u32 \<Rightarrow> heap \<Rightarrow> (u64 \<times> heap) run" where
  "create_standard_IO c al type h =
     run_bind (alloc_file al h) (\<lambda>(a, h').
       run_bind (set_file a (std_file c type) h') (\<lambda>h''. Returns (a, h'')))"

definition open_standard_IO ::
  "file_macros \<Rightarrow> allocator \<Rightarrow> fd_table \<Rightarrow> u32 \<Rightarrow> heap \<Rightarrow> (nat \<times> fd_table \<times> heap) run" where
  "open_standard_IO c al fds type h =
     (let fd = unat type in
      if fd \<ge> length fds then Faults
      else
        (case fds ! fd of
           None \<Rightarrow>
             run_bind (create_standard_IO c al type h)
               (\<lambda>(a, h'). Returns (fd, fds[fd := Some a], h'))
         | Some a \<Rightarrow>
             run_bind (set_file a (\<lambda>f. f\<lparr>ref_count := ref_count f + 1\<rparr>) h) (\<lambda>h'.
               case free_slot fds 3 of
                 None \<Rightarrow> Faults
               | Some fd \<Rightarrow> Returns (fd, fds[fd := Some a], h'))))"

definition fd_dup ::
  "file_macros \<Rightarrow> fd_table \<Rightarrow> i32 \<Rightarrow> heap \<Rightarrow> (i32 \<times> fd_table \<times> heap) run" where
  "fd_dup c fds oldfd h =
     (if sint oldfd \<ge> int (MAX_OPEN_FILES c) \<or> sint oldfd < 0 then Returns (- EINVAL c, fds, h)
      else
        (case fds ! nat (sint oldfd) of
           None \<Rightarrow> Returns (- EINVAL c, fds, h)
         | Some a \<Rightarrow>
             run_bind (find_fd fds 0) (\<lambda>r.
               case r of
                 None \<Rightarrow> Returns (- EOTHERS c, fds, h)
               | Some newfd \<Rightarrow>
                   run_bind (set_file a (\<lambda>f. f\<lparr>ref_count := ref_count f + 1\<rparr>) h) (\<lambda>h'.
                     Returns (of_nat newfd, fds[newfd := Some a], h')))))"

definition fd_dup2 ::
  "file_macros \<Rightarrow> fd_table \<Rightarrow> i32 \<Rightarrow> i32 \<Rightarrow> heap \<Rightarrow> (i32 \<times> fd_table \<times> heap) run" where
  "fd_dup2 c fds oldfd newfd h =
     (if sint oldfd \<ge> int (MAX_OPEN_FILES c) \<or> sint newfd \<ge> int (MAX_OPEN_FILES c)
         \<or> sint oldfd < 0 \<or> sint newfd < 0 then Returns (- EINVAL c, fds, h)
      else
        (case fds ! nat (sint oldfd) of
           None \<Rightarrow> Returns (- EINVAL c, fds, h)
         | Some a \<Rightarrow>
             run_bind (set_file a (\<lambda>f. f\<lparr>ref_count := ref_count f + 1\<rparr>) h) (\<lambda>h'.
               run_bind
                 (case fds ! nat (sint newfd) of
                    None \<Rightarrow> Returns h'
                  | Some b \<Rightarrow> run_bind (generic_close c (Some b) h') (\<lambda>(r, h''). Returns h''))
                 (\<lambda>h''. Returns (newfd, fds[nat (sint newfd) := Some a], h'')))))"

section \<open>The contract of the reference counts\<close>

text \<open>
  \<open>n a\<close> is the number of descriptors that refer to the file at \<open>a\<close>. The contract: a file is
  live exactly while it has a descriptor, its \<open>ref_count\<close> is that number, and a pipe is live
  exactly while one of its ends is, each end being one file object.
\<close>

definition file_macros_ok :: "file_macros \<Rightarrow> bool" where
  "file_macros_ok c \<longleftrightarrow> O_READ c \<noteq> O_WRITE c \<and> REGULAR c \<noteq> PIPE c
     \<and> 3 < MAX_OPEN_FILES c \<and> MAX_OPEN_FILES c < 2 ^ 31
     \<and> 0 < sint (EINVAL c) \<and> 0 < sint (EACCES c) \<and> 0 < sint (EOTHERS c)"

definition pipe_end :: "file_macros \<Rightarrow> heap \<Rightarrow> u64 \<Rightarrow> u32 \<Rightarrow> u64 \<Rightarrow> bool" where
  "pipe_end c h p m a \<longleftrightarrow>
     (\<exists>f. files h a = Some f \<and> file_type f = PIPE c \<and> file_pipe f = Some p \<and> file_mode f = m)"

definition pipes_ok :: "file_macros \<Rightarrow> heap \<Rightarrow> bool" where
  "pipes_ok c h \<longleftrightarrow>
     (\<forall>a f. files h a = Some f \<longrightarrow> file_type f = PIPE c \<longrightarrow>
        (\<exists>p i. file_pipe f = Some p \<and> pipes h p = Some i
           \<and> (file_mode f = O_READ c \<or> file_mode f = O_WRITE c)))
     \<and> (\<forall>p m a b. pipe_end c h p m a \<longrightarrow> pipe_end c h p m b \<longrightarrow> a = b)
     \<and> (\<forall>p i. pipes h p = Some i \<longrightarrow>
          (is_ropen i \<longleftrightarrow> (\<exists>a. pipe_end c h p (O_READ c) a))
          \<and> (is_wopen i \<longleftrightarrow> (\<exists>a. pipe_end c h p (O_WRITE c) a))
          \<and> (is_ropen i \<or> is_wopen i))"

fun counted :: "file_obj option \<Rightarrow> nat \<Rightarrow> bool" where
  "counted None k = (k = 0)"
| "counted (Some f) k = (0 < k \<and> unat (ref_count f) = k)"

definition refs_ok :: "file_macros \<Rightarrow> heap \<Rightarrow> (u64 \<Rightarrow> nat) \<Rightarrow> bool" where
  "refs_ok c h n \<longleftrightarrow>
     (\<forall>a. counted (files h a) (n a)) \<and> pipes_ok c h"

lemma refs_ok_live: "refs_ok c h n \<Longrightarrow> 0 < n a \<Longrightarrow> \<exists>f. files h a = Some f \<and> unat (ref_count f) = n a"
  by (cases "files h a") (auto simp: refs_ok_def dest: spec [of _ a])

lemma pipe_end_upd:
  assumes "files h a = Some f" "file_type g = file_type f" "file_pipe g = file_pipe f"
    "file_mode g = file_mode f"
  shows "pipe_end c (h\<lparr>files := (files h)(a \<mapsto> g)\<rparr>) p m b \<longleftrightarrow> pipe_end c h p m b"
  using assms by (auto simp: pipe_end_def)

lemma pipe_end_pipes [simp]:
  "pipe_end c (h\<lparr>pipes := x\<rparr>) p m b \<longleftrightarrow> pipe_end c h p m b"
  "pipe_end c (h\<lparr>files := y, pipes := x\<rparr>) p m b \<longleftrightarrow> pipe_end c (h\<lparr>files := y\<rparr>) p m b"
  "pipe_end c (h\<lparr>file_objects := z\<rparr>) p m b \<longleftrightarrow> pipe_end c h p m b"
  "pipe_end c (h\<lparr>files := y, file_objects := z\<rparr>) p m b \<longleftrightarrow> pipe_end c (h\<lparr>files := y\<rparr>) p m b"
  by (simp_all add: pipe_end_def)

lemma pipes_ok_upd:
  assumes "pipes_ok c h" "files h a = Some f" "file_type g = file_type f"
    "file_pipe g = file_pipe f" "file_mode g = file_mode f"
  shows "pipes_ok c (h\<lparr>files := (files h)(a \<mapsto> g)\<rparr>)"
  using assms(1) unfolding pipes_ok_def pipe_end_upd [OF assms(2-5)]
  using assms(2-5) by auto

lemma set_file_share:
  assumes "refs_ok c h n" "0 < n a" "n a + 1 < 2 ^ 32"
  shows "\<exists>h'. set_file a (\<lambda>f. f\<lparr>ref_count := ref_count f + 1\<rparr>) h = Returns h'
    \<and> refs_ok c h' (n(a := n a + 1))"
proof -
  obtain f where f: "files h a = Some f" "unat (ref_count f) = n a"
    using refs_ok_live [OF assms(1,2)] by blast
  let ?g = "f\<lparr>ref_count := ref_count f + 1\<rparr>"
  have "unat (ref_count ?g) = n a + 1"
    using f assms(3) unat_plus_1 [of "ref_count f"] by simp
  moreover have "pipes_ok c (h\<lparr>files := (files h)(a \<mapsto> ?g)\<rparr>)"
    by (rule pipes_ok_upd [OF _ f(1)]) (use assms(1) in \<open>simp_all add: refs_ok_def\<close>)
  ultimately have "refs_ok c (h\<lparr>files := (files h)(a \<mapsto> ?g)\<rparr>) (n(a := n a + 1))"
    using assms(1) by (auto simp: refs_ok_def)
  with f show ?thesis
    by (simp add: set_file_def)
qed

lemma unat_minus_1: "0 < unat (w :: u32) \<Longrightarrow> unat (w - 1) = unat w - 1"
  by (subst unat_sub) (simp_all add: word_le_nat_alt)

text \<open>Removing a file object that is not an end of a pipe, and one that is.\<close>

lemma pipes_ok_remove:
  assumes "pipes_ok c h" "files h a = Some f" "file_type f \<noteq> PIPE c"
  shows "pipes_ok c (free_file_object a h)"
proof -
  have e: "pipe_end c (free_file_object a h) p m b \<longleftrightarrow> pipe_end c h p m b" for p m b
    using assms(2,3) by (auto simp: pipe_end_def free_file_object_def)
  show ?thesis
    using assms unfolding pipes_ok_def e by (auto simp: free_file_object_def)
qed

lemma pipes_ok_close:
  assumes "file_macros_ok c" "pipes_ok c h" "files h a = Some f" "file_type f = PIPE c"
  shows "\<exists>h'. close_pipe c f h = Returns h' \<and> pipes_ok c (free_file_object a h')
    \<and> files h' = files h \<and> file_objects h' = file_objects h"
proof -
  let ?m = "file_mode f"
  obtain p i where p: "file_pipe f = Some p" "pipes h p = Some i"
    and m: "?m = O_READ c \<or> ?m = O_WRITE c"
    using assms(2-4) unfolding pipes_ok_def by blast
  have rw: "O_READ c \<noteq> O_WRITE c"
    using assms(1) by (simp add: file_macros_ok_def)
  have a: "pipe_end c h p ?m a"
    using assms(3,4) p by (auto simp: pipe_end_def)
  let ?i = "close_pipe_end c f i"
  let ?h = "h\<lparr>pipes := (pipes h)(p \<mapsto> ?i)\<rparr>"
  have e: "pipe_end c (free_file_object a h') q m' b \<longleftrightarrow>
      pipe_end c h q m' b \<and> b \<noteq> a" if "files h' = files h" for h' q m' b
    using assms(3,4) that by (auto simp: pipe_end_def free_file_object_def)
  have u: "b = a" if "pipe_end c h p ?m b" for b
    using assms(2) a that unfolding pipes_ok_def by blast
  have o: "q = p \<and> m' = ?m" if "pipe_end c h q m' a" for q m'
    using assms(3) p that by (auto simp: pipe_end_def)
  have old: "is_ropen i \<longleftrightarrow> (\<exists>b. pipe_end c h p (O_READ c) b)"
     "is_wopen i \<longleftrightarrow> (\<exists>b. pipe_end c h p (O_WRITE c) b)"
    using assms(2) p(2) unfolding pipes_ok_def by blast+
  have ends: "(is_ropen ?i \<longleftrightarrow> (\<exists>b. pipe_end c h p (O_READ c) b \<and> b \<noteq> a))
      \<and> (is_wopen ?i \<longleftrightarrow> (\<exists>b. pipe_end c h p (O_WRITE c) b \<and> b \<noteq> a))"
  proof (cases "?m = O_READ c")
    case True
    then have "is_ropen ?i = False" "is_wopen ?i = is_wopen i"
      using rw by (simp_all add: close_pipe_end_def Let_def)
    moreover have "b = a" if "pipe_end c h p (O_READ c) b" for b
      using u that True by simp
    moreover have "\<not> pipe_end c h p (O_WRITE c) a"
      using o [of p "O_WRITE c"] True rw by auto
    ultimately show ?thesis
      unfolding old(2) by metis
  next
    case False
    then have W: "?m = O_WRITE c"
      using m by simp
    then have "is_wopen ?i = False" "is_ropen ?i = is_ropen i"
      using False by (simp_all add: close_pipe_end_def Let_def)
    moreover have "b = a" if "pipe_end c h p (O_WRITE c) b" for b
      using u that W by simp
    moreover have "\<not> pipe_end c h p (O_READ c) a"
      using o [of p "O_READ c"] False by auto
    ultimately show ?thesis
      unfolding old(1) by metis
  qed
  let ?h' = "h\<lparr>pipes := (pipes h)(p := if \<not> is_wopen ?i \<and> \<not> is_ropen ?i then None else Some ?i)\<rparr>"
  have ok: "pipes_ok c (free_file_object a ?h')"
    unfolding pipes_ok_def e [of ?h', simplified]
  proof (intro conjI allI impI)
    fix b g
    assume "files (free_file_object a ?h') b = Some g" and t: "file_type g = PIPE c"
    then have g: "files h b = Some g" "b \<noteq> a"
      by (auto simp: free_file_object_def split: if_splits)
    then obtain q j where q: "file_pipe g = Some q" "pipes h q = Some j"
      "file_mode g = O_READ c \<or> file_mode g = O_WRITE c"
      using assms(2) t unfolding pipes_ok_def by blast
    then have "pipe_end c h q (file_mode g) b"
      using g t by (auto simp: pipe_end_def)
    then have "q = p \<Longrightarrow> is_ropen ?i \<or> is_wopen ?i"
      using ends q(3) g(2) by auto
    with q show "\<exists>p i. file_pipe g = Some p \<and> pipes (free_file_object a ?h') p = Some i
        \<and> (file_mode g = O_READ c \<or> file_mode g = O_WRITE c)"
      by (auto simp: free_file_object_def)
  next
    fix q m' x y
    assume "pipe_end c h q m' x \<and> x \<noteq> a" "pipe_end c h q m' y \<and> y \<noteq> a"
    then show "x = y"
      using assms(2) unfolding pipes_ok_def by blast
  next
    fix q j
    assume "pipes (free_file_object a ?h') q = Some j"
    then have "q = p \<and> j = ?i \<and> (is_ropen ?i \<or> is_wopen ?i) \<or> q \<noteq> p \<and> pipes h q = Some j"
      by (auto simp: free_file_object_def split: if_splits)
    then have "(is_ropen j \<longleftrightarrow> (\<exists>b. pipe_end c h q (O_READ c) b \<and> b \<noteq> a))
        \<and> (is_wopen j \<longleftrightarrow> (\<exists>b. pipe_end c h q (O_WRITE c) b \<and> b \<noteq> a)) \<and> (is_ropen j \<or> is_wopen j)"
    proof (elim disjE conjE)
      assume "q \<noteq> p" "pipes h q = Some j"
      moreover from this have "\<not> pipe_end c h q m' a" for m'
        using o by blast
      ultimately show ?thesis
        using assms(2) unfolding pipes_ok_def by metis
    qed (use ends in simp_all)
    then show "is_ropen j \<longleftrightarrow> (\<exists>b. pipe_end c h q (O_READ c) b \<and> b \<noteq> a)"
      "is_wopen j \<longleftrightarrow> (\<exists>b. pipe_end c h q (O_WRITE c) b \<and> b \<noteq> a)" "is_ropen j \<or> is_wopen j"
      by blast+
  qed
  have "close_pipe c f h = Returns ?h'"
    using p by (auto simp: close_pipe_def Let_def free_pipe_info_def)
  with ok show ?thesis
    by auto
qed

lemma generic_close_spec:
  assumes "file_macros_ok c" "refs_ok c h n" "0 < n a"
  shows "\<exists>h'. generic_close c (Some a) h = Returns (0, h') \<and> refs_ok c h' (n(a := n a - 1))"
proof -
  obtain f where f: "files h a = Some f" "unat (ref_count f) = n a"
    using refs_ok_live [OF assms(2,3)] by blast
  have P: "pipes_ok c h"
    using assms(2) by (simp add: refs_ok_def)
  let ?f = "f\<lparr>ref_count := ref_count f - 1\<rparr>"
  let ?h = "h\<lparr>files := (files h)(a \<mapsto> ?f)\<rparr>"
  have r: "unat (ref_count ?f) = n a - 1"
    using f(2) assms(3) unat_minus_1 [of "ref_count f"] by simp
  have P': "pipes_ok c ?h"
    by (rule pipes_ok_upd [OF P f(1)]) simp_all
  have F: "files ?h a = Some ?f"
    by simp
  show ?thesis
  proof (cases "ref_count ?f = 0")
    case False
    then have "0 < n a - 1"
      using r by (metis gr0I unat_eq_0)
    then have "refs_ok c ?h (n(a := n a - 1))"
      using assms(2) P' r by (auto simp: refs_ok_def)
    with f False show ?thesis
      by (simp add: generic_close_def Let_def)
  next
    case True
    then have n: "n a - 1 = 0"
      using r by simp
    have ok: "refs_ok c (free_file_object a h') (n(a := n a - 1))"
      if "pipes_ok c (free_file_object a h')" "files h' = files ?h" for h'
      using assms(2) that n by (auto simp: refs_ok_def free_file_object_def)
    show ?thesis
    proof (cases "file_type f = PIPE c")
      case pipe: True
      then obtain h' where "close_pipe c ?f ?h = Returns h'" "pipes_ok c (free_file_object a h')"
        "files h' = files ?h"
        using pipes_ok_close [OF assms(1) P' F] by auto
      with ok [OF this(2,3)] f True pipe show ?thesis
        by (simp add: generic_close_def Let_def)
    next
      case False
      then have "pipes_ok c (free_file_object a ?h)"
        by (intro pipes_ok_remove [OF P' F]) simp
      with ok [OF this] f True False show ?thesis
        by (simp add: generic_close_def Let_def)
    qed
  qed
qed

definition share_file :: "u64 \<Rightarrow> heap \<Rightarrow> heap run" where
  "share_file a h = set_file a (\<lambda>f. f\<lparr>ref_count := ref_count f + 1\<rparr>) h"

definition release_file :: "file_macros \<Rightarrow> u64 \<Rightarrow> heap \<Rightarrow> heap run" where
  "release_file c a h = run_bind (generic_close c (Some a) h) (\<lambda>(r, h'). Returns h')"

text \<open>
  The contract holds of the code's operations; the invariant contains the configuration, so
  that it holds for every configuration.
\<close>

interpretation refs: shared_objects "\<lambda>h n. file_macros_ok c \<and> refs_ok c h n" share_file
    "release_file c" for c
proof
  show "\<exists>h'. share_file a h = Returns h' \<and> file_macros_ok c \<and> refs_ok c h' (n(a := n a + 1))"
    if "file_macros_ok c \<and> refs_ok c h n" "0 < n a" "n a + 1 < 2 ^ 32" for h n a
    using set_file_share [of c h n a] that by (simp add: share_file_def)
  show "\<exists>h'. release_file c a h = Returns h' \<and> file_macros_ok c \<and> refs_ok c h' (n(a := n a - 1))"
    if "file_macros_ok c \<and> refs_ok c h n" "0 < n a" for h n a
    using generic_close_spec [of c h n a] that by (auto simp: release_file_def)
qed

section \<open>Descriptor tables\<close>

text \<open>The descriptors of a table that refer to a file.\<close>

definition fd_count :: "fd_table \<Rightarrow> u64 \<Rightarrow> nat" where
  "fd_count fds a = count_list fds (Some a)"

lemma fd_count_update:
  "i < length fds \<Longrightarrow> fd_count (fds[i := x]) a =
     fd_count fds a - (if fds ! i = Some a then 1 else 0) + (if x = Some a then 1 else 0)"
proof (induction fds arbitrary: i)
  case (Cons y fds)
  show ?case
  proof (cases i)
    case (Suc j)
    have "fds ! j = Some a \<Longrightarrow> 0 < count_list fds (Some a)"
      using Cons.prems Suc nth_mem [of j fds] by (auto simp: count_list_0_iff intro!: gr0I)
    then show ?thesis
      using Cons Suc by (auto simp: fd_count_def)
  qed (auto simp: fd_count_def)
qed simp

lemma fd_count_pos: "i < length fds \<Longrightarrow> fds ! i = Some a \<Longrightarrow> 0 < fd_count fds a"
  by (auto simp: fd_count_def count_list_0_iff intro!: gr0I) (metis nth_mem)

lemma fd_count_le: "fd_count fds a \<le> length fds"
  by (simp add: fd_count_def count_le_length)

fun live_fds :: "fd_table \<Rightarrow> u64 list" where
  "live_fds [] = []"
| "live_fds (None # fds) = live_fds fds"
| "live_fds (Some a # fds) = a # live_fds fds"

lemma fd_count_live: "fd_count fds a = count_list (live_fds fds) a"
  by (induction fds rule: live_fds.induct) (auto simp: fd_count_def)

lemma do_file_fork_seq: "do_file_fork fds h = seq_run share_file (live_fds fds) h"
  by (induction fds arbitrary: h rule: live_fds.induct)
    (simp_all add: share_file_def run_bind_def split: run.split)

lemma do_file_exit_seq: "do_file_exit c fds h = seq_run (release_file c) (live_fds fds) h"
  by (induction fds arbitrary: h rule: live_fds.induct)
    (simp_all add: release_file_def run_bind_def split: run.split prod.split)

lemma free_slot_Some:
  "free_slot fds k = Some i \<Longrightarrow>
     k \<le> i \<and> i < length fds \<and> fds ! i = None \<and> (\<forall>j. k \<le> j \<longrightarrow> j < i \<longrightarrow> fds ! j \<noteq> None)"
  by (auto simp: free_slot_def find_Some_iff)
    (metis add_diff_inverse_nat add_less_cancel_left less_imp_le_nat nat_le_iff_add not_le nth_upt)

lemma free_slot_None:
  "free_slot fds k = None \<Longrightarrow> k \<le> j \<Longrightarrow> j < length fds \<Longrightarrow> fds ! j \<noteq> None"
  by (auto simp: free_slot_def find_None_iff)

section \<open>The operations keep the contract\<close>

text \<open>
  In each lemma \<open>m\<close> counts the descriptors of the other processes: the table and the heap
  together keep the contract, whatever the others hold.
\<close>

lemma do_file_fork_spec:
  assumes "file_macros_ok c" "refs_ok c h (\<lambda>a. fd_count fds a + m a)"
    and "\<forall>a. fd_count fds a + m a + fd_count fds a < 2 ^ 32"
  shows "\<exists>h'. do_file_fork fds h = Returns h' \<and> refs_ok c h' (\<lambda>a. fd_count fds a + m a + fd_count fds a)"
proof -
  have "\<forall>a \<in> set (live_fds fds). 0 < fd_count fds a + m a"
    by (auto simp: fd_count_live count_list_0_iff intro!: gr0I)
  then show ?thesis
    using refs.share_all [of c h "\<lambda>a. fd_count fds a + m a" "live_fds fds"] assms
    by (simp add: do_file_fork_seq fd_count_live)
qed

lemma do_file_exit_spec:
  assumes "file_macros_ok c" "refs_ok c h (\<lambda>a. fd_count fds a + m a)"
  shows "\<exists>h'. do_file_exit c fds h = Returns h' \<and> refs_ok c h' m"
  using refs.release_all [of c h "live_fds fds" m] assms
  by (simp add: do_file_exit_seq fd_count_live)

definition fd_at :: "fd_table \<Rightarrow> i32 \<Rightarrow> u64 option" where
  "fd_at fds fd = (if 0 \<le> sint fd \<and> sint fd < int (length fds) then fds ! nat (sint fd) else None)"

lemma fd_at_Some:
  "fd_at fds fd = Some a \<Longrightarrow> 0 \<le> sint fd \<and> sint fd < int (length fds)
    \<and> nat (sint fd) < length fds \<and> fds ! nat (sint fd) = Some a"
  by (auto simp: fd_at_def split: if_splits)

lemma fd_dup_unfold:
  assumes "length fds = MAX_OPEN_FILES c"
  shows "fd_dup c fds oldfd h =
    (case fd_at fds oldfd of
       None \<Rightarrow> Returns (- EINVAL c, fds, h)
     | Some a \<Rightarrow>
         (case free_slot fds 0 of
            None \<Rightarrow> Returns (- EOTHERS c, fds, h)
          | Some i \<Rightarrow> run_bind (share_file a h) (\<lambda>h'. Returns (of_nat i, fds[i := Some a], h'))))"
  using assms
  by (auto simp: fd_dup_def fd_at_def find_fd_def share_file_def split: option.splits)

lemma fd_dup2_unfold:
  assumes "length fds = MAX_OPEN_FILES c"
  shows "fd_dup2 c fds oldfd newfd h =
    (case fd_at fds oldfd of
       Some a \<Rightarrow>
         if 0 \<le> sint newfd \<and> sint newfd < int (length fds) then
           run_bind (share_file a h) (\<lambda>h'.
             run_bind (case fd_at fds newfd of None \<Rightarrow> Returns h' | Some b \<Rightarrow> release_file c b h')
               (\<lambda>h''. Returns (newfd, fds[nat (sint newfd) := Some a], h'')))
         else Returns (- EINVAL c, fds, h)
     | None \<Rightarrow> Returns (- EINVAL c, fds, h))"
  using assms
  by (auto simp: fd_dup2_def fd_at_def share_file_def release_file_def cong: option.case_cong
      split: option.split)

lemma fd_count_add:
  assumes "i < length fds" "fds ! i = None"
  shows "fd_count (fds[i := Some a]) = (fd_count fds)(a := fd_count fds a + 1)"
  using assms by (auto simp: fd_count_update)

lemma fd_count_replace:
  assumes "i < length fds" "fds ! i = Some b"
  shows "fd_count (fds[i := Some a]) = (\<lambda>x. ((fd_count fds)(a := fd_count fds a + 1)) x - (if x = b then 1 else 0))"
  using assms fd_count_pos [OF assms] by (auto simp: fd_count_update)


lemma fd_dup_spec:
  assumes "file_macros_ok c" "length fds = MAX_OPEN_FILES c"
    and "refs_ok c h (\<lambda>a. fd_count fds a + m a)" "\<forall>a. fd_count fds a + m a + 1 < 2 ^ 32"
  shows "\<exists>r fds' h'. fd_dup c fds oldfd h = Returns (r, fds', h')
    \<and> refs_ok c h' (\<lambda>a. fd_count fds' a + m a) \<and> length fds' = length fds
    \<and> (case fd_at fds oldfd of
         None \<Rightarrow> r = - EINVAL c \<and> fds' = fds \<and> h' = h
       | Some a \<Rightarrow>
           (case free_slot fds 0 of
              None \<Rightarrow> r = - EOTHERS c \<and> fds' = fds \<and> h' = h
            | Some i \<Rightarrow> r = of_nat i \<and> fds' = fds[i := Some a] \<and> share_file a h = Returns h'))"
proof (cases "\<exists>a i. fd_at fds oldfd = Some a \<and> free_slot fds 0 = Some i")
  case False
  then show ?thesis
    using assms(3) by (auto simp: fd_dup_unfold [OF assms(2)] split: option.splits)
next
  case True
  then obtain a i where a: "fd_at fds oldfd = Some a" and i: "free_slot fds 0 = Some i"
    by blast
  have "0 < fd_count fds a + m a"
    using fd_at_Some [OF a] fd_count_pos by auto
  then obtain h' where h': "share_file a h = Returns h'"
    "refs_ok c h' ((\<lambda>a. fd_count fds a + m a)(a := fd_count fds a + m a + 1))"
    using refs.share_ok [of c h "\<lambda>a. fd_count fds a + m a" a] assms by auto
  have "(\<lambda>a. fd_count fds a + m a)(a := fd_count fds a + m a + 1)
      = (\<lambda>x. fd_count (fds[i := Some a]) x + m x)"
    using free_slot_Some [OF i] by (auto simp: fd_count_add)
  with h' a i show ?thesis
    by (simp add: fd_dup_unfold [OF assms(2)])
qed

lemma fd_dup2_spec:
  assumes "file_macros_ok c" "length fds = MAX_OPEN_FILES c"
    and "refs_ok c h (\<lambda>a. fd_count fds a + m a)" "\<forall>a. fd_count fds a + m a + 1 < 2 ^ 32"
  shows "\<exists>r fds' h'. fd_dup2 c fds oldfd newfd h = Returns (r, fds', h')
    \<and> refs_ok c h' (\<lambda>a. fd_count fds' a + m a) \<and> length fds' = length fds
    \<and> (if fd_at fds oldfd \<noteq> None \<and> 0 \<le> sint newfd \<and> sint newfd < int (length fds)
       then r = newfd \<and> fds' = fds[nat (sint newfd) := fd_at fds oldfd]
       else r = - EINVAL c \<and> fds' = fds \<and> h' = h)"
proof (cases "fd_at fds oldfd \<noteq> None \<and> 0 \<le> sint newfd \<and> sint newfd < int (length fds)")
  case False
  then show ?thesis
    using assms(3) by (auto simp: fd_dup2_unfold [OF assms(2)] split: option.splits)
next
  case True
  then obtain a where a: "fd_at fds oldfd = Some a"
    by blast
  let ?i = "nat (sint newfd)" and ?n = "\<lambda>a. fd_count fds a + m a"
  have i: "?i < length fds"
    using True by auto
  have "0 < ?n a"
    using fd_at_Some [OF a] fd_count_pos by auto
  then obtain h1 where h1: "share_file a h = Returns h1" "refs_ok c h1 (?n(a := ?n a + 1))"
    using refs.share_ok [of c h ?n a] assms by auto
  show ?thesis
  proof (cases "fds ! ?i")
    case None
    then have "fd_at fds newfd = None"
      by (simp add: fd_at_def)
    moreover have "?n(a := ?n a + 1) = (\<lambda>x. fd_count (fds[?i := Some a]) x + m x)"
      using i None by (auto simp: fd_count_add)
    ultimately show ?thesis
      using h1 a True by (simp add: fd_dup2_unfold [OF assms(2)])
  next
    case (Some b)
    then have b: "fd_at fds newfd = Some b"
      using True by (simp add: fd_at_def)
    have pos: "0 < fd_count fds b"
      using fd_count_pos [OF i Some] .
    then have "0 < (?n(a := ?n a + 1)) b"
      by simp
    then obtain h2 where h2: "release_file c b h1 = Returns h2"
      "refs_ok c h2 ((?n(a := ?n a + 1))(b := (?n(a := ?n a + 1)) b - 1))"
      using refs.release_ok [of c h1 "?n(a := ?n a + 1)" b] assms(1) h1(2) by auto
    have "(?n(a := ?n a + 1))(b := (?n(a := ?n a + 1)) b - 1)
        = (\<lambda>x. fd_count (fds[?i := Some a]) x + m x)"
      using i Some pos by (auto simp: fd_count_update)
    with h1 h2 a b True show ?thesis
      by (simp add: fd_dup2_unfold [OF assms(2)])
  qed
qed

section \<open>New objects\<close>

text \<open>What the code relies on of the page allocator: it returns pages that are not in use.\<close>

definition allocator_ok :: "allocator \<Rightarrow> bool" where
  "allocator_ok al \<longleftrightarrow>
     (\<forall>H a f. file_page al H = Some (a, f) \<longrightarrow> H a = None)
     \<and> (\<forall>H p i. pipe_page al H = Some (p, i) \<longrightarrow> H p = None \<and> length (pipe_buff i) = 4096)"

definition add_file :: "u64 \<Rightarrow> file_obj \<Rightarrow> heap \<Rightarrow> heap" where
  "add_file a f h = h\<lparr>file_objects := file_objects h + 1, files := (files h)(a \<mapsto> f)\<rparr>"

lemma alloc_file_then:
  "file_page al (files h) = Some (a, f) \<Longrightarrow>
    run_bind (alloc_file al h) (\<lambda>(a, h). run_bind (set_file a u h) (k a))
      = k a (add_file a (u (f\<lparr>fops := no_fops\<rparr>)) h)"
  by (simp add: alloc_file_def set_file_def add_file_def)

lemma pipes_ok_add:
  assumes "pipes_ok c h" "files h a = None" "file_type g \<noteq> PIPE c"
  shows "pipes_ok c (add_file a g h)"
proof -
  have e: "pipe_end c (add_file a g h) p m b \<longleftrightarrow> pipe_end c h p m b" for p m b
    using assms(2,3) by (auto simp: pipe_end_def add_file_def)
  show ?thesis
    using assms unfolding pipes_ok_def e by (auto simp: add_file_def)
qed

lemma refs_ok_add:
  assumes "refs_ok c h n" "files h a = None" "ref_count g = 1" "pipes_ok c (add_file a g h)"
  shows "refs_ok c (add_file a g h) (n(a := n a + 1))"
proof -
  have "n a = 0"
    using assms(1,2) by (auto simp: refs_ok_def dest: spec [of _ a])
  with assms show ?thesis
    by (auto simp: refs_ok_def add_file_def)
qed

lemma open_standard_IO_spec:
  assumes "file_macros_ok c" "allocator_ok al" "type \<noteq> PIPE c"
    and "refs_ok c h (\<lambda>a. fd_count fds a + m a)" "\<forall>a. fd_count fds a + m a + 1 < 2 ^ 32"
    and "open_standard_IO c al fds type h = Returns (fd, fds', h')"
  shows "refs_ok c h' (\<lambda>a. fd_count fds' a + m a) \<and> length fds' = length fds
    \<and> fd < length fds \<and> fds ! fd = None \<and> fds' ! fd \<noteq> None"
proof -
  let ?n = "\<lambda>a. fd_count fds a + m a"
  have i: "unat type < length fds"
    using assms(6) by (auto simp: open_standard_IO_def Let_def split: if_splits)
  show ?thesis
  proof (cases "fds ! unat type")
    case None
    then obtain a f where a: "file_page al (files h) = Some (a, f)"
      using assms(6) i by (auto simp: open_standard_IO_def Let_def create_standard_IO_def
          alloc_file_def split: option.splits)
    then have fresh: "files h a = None"
      using assms(2) by (simp add: allocator_ok_def)
    let ?g = "std_file c type (f\<lparr>fops := no_fops\<rparr>)"
    have "open_standard_IO c al fds type h
        = Returns (unat type, fds[unat type := Some a], add_file a ?g h)"
      using i None
      by (simp add: open_standard_IO_def Let_def create_standard_IO_def alloc_file_then [OF a])
    moreover have "refs_ok c (add_file a ?g h) (?n(a := ?n a + 1))"
      using assms(3,4) fresh
      by (intro refs_ok_add pipes_ok_add) (simp_all add: refs_ok_def std_file_def)
    moreover have "?n(a := ?n a + 1) = (\<lambda>x. fd_count (fds[unat type := Some a]) x + m x)"
      using i None by (auto simp: fd_count_add)
    ultimately show ?thesis
      using assms(6) i None by simp
  next
    case (Some a)
    have "0 < ?n a"
      using fd_count_pos [OF i Some] by simp
    then obtain h1 where h1: "share_file a h = Returns h1" "refs_ok c h1 (?n(a := ?n a + 1))"
      using refs.share_ok [of c h ?n a] assms by auto
    then obtain j where j: "free_slot fds 3 = Some j"
      using assms(6) i Some by (auto simp: open_standard_IO_def Let_def share_file_def split: option.splits)
    have "?n(a := ?n a + 1) = (\<lambda>x. fd_count (fds[j := Some a]) x + m x)"
      using free_slot_Some [OF j] by (auto simp: fd_count_add)
    then show ?thesis
      using assms(6) i Some j h1 free_slot_Some [OF j]
      by (auto simp: open_standard_IO_def Let_def share_file_def)
  qed
qed

section \<open>Concrete macros and pages\<close>

text \<open>
  Values at which the hypotheses of the theorems hold: the macros of a small kernel, and an
  allocator that hands out the first of eight pages that is not in use.
\<close>

definition example_macros :: file_macros where
  "example_macros = \<lparr>MAX_OPEN_FILES = 8, O_READ = 1, O_WRITE = 2, O_CREAT = 8,
     STDIN = 0, REGULAR = 3, PIPE = 4, SEEK_SET = 0, SEEK_CUR = 1, SEEK_END = 2,
     EINVAL = 1, EACCES = 2, EOTHERS = 3, ENOMEM = 4\<rparr>"

definition example_pages :: "u64 list" where
  "example_pages = [4096, 8192, 12288, 16384, 20480, 24576, 28672, 32768]"

definition blank_file :: file_obj where
  "blank_file = \<lparr>file_type = 0, file_mode = 0, offp = 0, ref_count = 0, file_inode = None,
     file_pipe = None, fops = no_fops\<rparr>"

definition blank_pipe :: pipe_info where
  "blank_pipe = \<lparr>pipe_buff = replicate 4096 0, read_pos = 0, write_pos = 0, buffer_offset = 0,
     is_ropen = False, is_wopen = False\<rparr>"

definition example_allocator :: allocator where
  "example_allocator = \<lparr>
     file_page = (\<lambda>H. map_option (\<lambda>a. (a, blank_file)) (List.find (\<lambda>a. H a = None) example_pages)),
     pipe_page = (\<lambda>H. map_option (\<lambda>a. (a, blank_pipe)) (List.find (\<lambda>a. H a = None) example_pages))\<rparr>"

definition empty_heap :: heap where
  "empty_heap = \<lparr>files = Map.empty, pipes = Map.empty, file_objects = 0\<rparr>"

lemma example_macros_ok: "file_macros_ok example_macros"
  by (simp add: file_macros_ok_def example_macros_def)

lemma example_allocator_ok: "allocator_ok example_allocator"
  by (auto simp: allocator_ok_def example_allocator_def blank_pipe_def find_Some_iff)

lemma empty_heap_ok: "refs_ok c empty_heap (\<lambda>a. 0)"
  by (simp add: refs_ok_def pipes_ok_def pipe_end_def empty_heap_def)

text \<open>One process with one file behind two descriptors.\<close>

definition example_file :: file_obj where
  "example_file = blank_file\<lparr>file_type := 3, ref_count := 2, file_mode := 3, file_inode := Some 64\<rparr>"

definition example_heap :: heap where
  "example_heap = empty_heap\<lparr>files := [4096 \<mapsto> example_file], file_objects := 1\<rparr>"

definition example_fds :: fd_table where
  "example_fds = [None, None, None, Some 4096, None, Some 4096, None, None]"

lemma example_heap_ok: "refs_ok example_macros example_heap (\<lambda>a. fd_count example_fds a + 0)"
  by (auto simp: refs_ok_def pipes_ok_def pipe_end_def example_heap_def empty_heap_def example_fds_def
      fd_count_def example_file_def blank_file_def example_macros_def)

section \<open>Properties\<close>

text \<open>
  \<open>dup\<close> stores the old descriptor's file in the lowest free descriptor, returns that, and
  counts the new reference; it fails with \<open>-EINVAL\<close> for a descriptor that is not open and with
  \<open>-EOTHERS\<close> on a full table, and then changes nothing. The contract of the counts is kept.
\<close>

theorem fd_dup_lowest:
  assumes "file_macros_ok c" "length fds = MAX_OPEN_FILES c"
    and "refs_ok c h (\<lambda>a. fd_count fds a + m a)" "\<forall>a. fd_count fds a + m a + 1 < 2 ^ 32"
  shows "\<exists>r fds' h'. fd_dup c fds oldfd h = Returns (r, fds', h')
    \<and> refs_ok c h' (\<lambda>a. fd_count fds' a + m a)
    \<and> (case fd_at fds oldfd of
         None \<Rightarrow> r = - EINVAL c \<and> fds' = fds \<and> h' = h
       | Some a \<Rightarrow>
           (r = - EOTHERS c \<and> fds' = fds \<and> h' = h \<and> (\<forall>i < length fds. fds ! i \<noteq> None))
           \<or> (\<exists>i < length fds. r = of_nat i \<and> fds ! i = None \<and> (\<forall>j < i. fds ! j \<noteq> None)
                \<and> fds' = fds[i := Some a]))"
proof -
  note S = fd_dup_spec [OF assms, of oldfd]
  show ?thesis
  proof (cases "fd_at fds oldfd")
    case None
    with S show ?thesis
      by auto
  next
    case (Some a)
    show ?thesis
    proof (cases "free_slot fds 0")
      case None
      with S Some free_slot_None [OF None] show ?thesis
        by auto
    next
      case (Some i)
      with S \<open>fd_at fds oldfd = Some a\<close> free_slot_Some [OF Some] show ?thesis
        by auto
    qed
  qed
qed

theorem fd_dup_lowest_witness:
  "\<exists>h'. fd_dup example_macros example_fds 5 example_heap
     = Returns (0, example_fds[0 := Some 4096], h')
   \<and> refs_ok example_macros h' (\<lambda>a. fd_count (example_fds[0 := Some 4096]) a + 0)"
proof -
  have "fd_at example_fds 5 = Some 4096"
    by code_simp
  moreover have b: "\<forall>a. fd_count example_fds a + 0 + 1 < 2 ^ 32"
    by (simp add: example_fds_def fd_count_def)
  moreover have "length example_fds = MAX_OPEN_FILES example_macros"
    by (simp add: example_fds_def example_macros_def)
  moreover have "example_fds ! 0 = None"
    by (simp add: example_fds_def)
  moreover have "\<not> (\<forall>i < length example_fds. example_fds ! i \<noteq> None)"
    by (auto simp: example_fds_def intro!: exI [of _ 0])
  ultimately obtain r fds' h' i where
    "fd_dup example_macros example_fds 5 example_heap = Returns (r, fds', h')"
    "refs_ok example_macros h' (\<lambda>a. fd_count fds' a + 0)"
    "r = of_nat i" "\<forall>j < i. example_fds ! j \<noteq> None" "fds' = example_fds[i := Some 4096]"
    using fd_dup_lowest [OF example_macros_ok _ example_heap_ok b, of 5]
    by (simp del: length_greater_0_conv) (elim exE conjE disjE, auto)
  moreover from this have "i = 0"
    using \<open>example_fds ! 0 = None\<close> by (metis gr0I)
  ultimately show ?thesis
    by simp
qed

text \<open>
  \<open>dup2\<close> makes the new descriptor refer to the old one's file, closing what it referred to
  before, and returns it; the counts stay exact, also when both descriptors are the same.
\<close>

theorem fd_dup2_replaces:
  assumes "file_macros_ok c" "length fds = MAX_OPEN_FILES c"
    and "refs_ok c h (\<lambda>a. fd_count fds a + m a)" "\<forall>a. fd_count fds a + m a + 1 < 2 ^ 32"
  shows "\<exists>r fds' h'. fd_dup2 c fds oldfd newfd h = Returns (r, fds', h')
    \<and> refs_ok c h' (\<lambda>a. fd_count fds' a + m a)
    \<and> (if fd_at fds oldfd \<noteq> None \<and> 0 \<le> sint newfd \<and> sint newfd < int (length fds)
       then r = newfd \<and> fds' = fds[nat (sint newfd) := fd_at fds oldfd]
       else r = - EINVAL c \<and> fds' = fds \<and> h' = h)"
  using fd_dup2_spec [OF assms, of oldfd newfd] by blast

theorem fd_dup2_replaces_witness:
  "\<exists>h'. fd_dup2 example_macros example_fds 5 3 example_heap = Returns (3, example_fds, h')
   \<and> refs_ok example_macros h' (\<lambda>a. fd_count example_fds a + 0)"
proof -
  have "fd_at example_fds 5 = Some 4096" "example_fds[3 := Some 4096] = example_fds"
    by code_simp+
  moreover have b: "\<forall>a. fd_count example_fds a + 0 + 1 < 2 ^ 32"
    by (simp add: example_fds_def fd_count_def)
  moreover have "length example_fds = MAX_OPEN_FILES example_macros" "3 < length example_fds"
    by (simp_all add: example_fds_def example_macros_def)
  ultimately show ?thesis
    using fd_dup2_replaces [OF example_macros_ok _ example_heap_ok b, of 5 3] by auto
qed

text \<open>
  \<open>generic_close\<close> takes one reference away. While others remain only the count changes;
  with the last one the object is freed, and if it is an end of a pipe that end is closed, the
  pipe itself being freed when its other end is closed already. No other object changes.
\<close>

theorem generic_close_effect:
  assumes "file_macros_ok c" "refs_ok c h n" "files h a = Some f"
  shows "\<exists>h'. generic_close c (Some a) h = Returns (0, h') \<and> refs_ok c h' (n(a := n a - 1))
    \<and> (\<forall>b. b \<noteq> a \<longrightarrow> files h' b = files h b)
    \<and> (if ref_count f = 1 then files h' a = None
       else files h' a = Some (f\<lparr>ref_count := ref_count f - 1\<rparr>))
    \<and> (case file_pipe f of
         Some p \<Rightarrow>
           if ref_count f = 1 \<and> file_type f = PIPE c then
             (\<exists>i. pipes h p = Some i \<and> pipes h' = (pipes h)(p :=
               if file_mode f = O_READ c
               then (if is_wopen i then Some (i\<lparr>is_ropen := False\<rparr>) else None)
               else (if is_ropen i then Some (i\<lparr>is_wopen := False\<rparr>) else None)))
           else pipes h' = pipes h
       | None \<Rightarrow> pipes h' = pipes h)"
proof -
  have r: "0 < n a" "unat (ref_count f) = n a" and P: "pipes_ok c h"
    using assms(2,3) by (auto simp: refs_ok_def dest: spec [of _ a])
  obtain h' where h': "generic_close c (Some a) h = Returns (0, h')" "refs_ok c h' (n(a := n a - 1))"
    using generic_close_spec [OF assms(1,2) r(1)] by blast
  show ?thesis
  proof (cases "ref_count f = 1 \<and> file_type f = PIPE c")
    case False
    with h' assms(3) show ?thesis
      by (auto simp: generic_close_def Let_def free_file_object_def split: if_splits option.splits)
  next
    case True
    then obtain p i where p: "file_pipe f = Some p" "pipes h p = Some i"
      and m: "file_mode f = O_READ c \<or> file_mode f = O_WRITE c"
      using P assms(3) unfolding pipes_ok_def by blast
    have "pipe_end c h p (file_mode f) a"
      using assms(3) True p by (auto simp: pipe_end_def)
    then have o: "file_mode f = O_READ c \<Longrightarrow> is_ropen i" "file_mode f = O_WRITE c \<Longrightarrow> is_wopen i"
      using P p(2) unfolding pipes_ok_def by metis+
    have rw: "O_READ c \<noteq> O_WRITE c"
      using assms(1) by (simp add: file_macros_ok_def)
    show ?thesis
    proof (cases "file_mode f = O_READ c")
      case R: True
      with h' assms(3) True p o rw show ?thesis
        by (auto simp: generic_close_def Let_def close_pipe_def close_pipe_end_def free_pipe_info_def
            free_file_object_def split: if_splits)
    next
      case W: False
      with h' assms(3) True p o m show ?thesis
        by (auto simp: generic_close_def Let_def close_pipe_def close_pipe_end_def free_pipe_info_def
            free_file_object_def split: if_splits)
    qed
  qed
qed

theorem generic_close_effect_witness:
  "\<exists>h'. generic_close example_macros (Some 4096) example_heap = Returns (0, h')
   \<and> files h' 4096 = Some (example_file\<lparr>ref_count := 1\<rparr>)"
  using generic_close_effect [OF example_macros_ok example_heap_ok, of 4096 example_file]
  by (auto simp: example_heap_def example_file_def blank_file_def)

end
