(* ===== verification/Pipe.thy ===== *)
theory Pipe
  imports File_Table
begin

text \<open>
  \<open>src/Assignment2/pipe.c\<close>: creating a pipe, and the loops that move bytes between its buffer
  and the buffers of the processes. A loop is a recursive function over the indices of the
  code; an access outside of a buffer is a fault.
\<close>

section \<open>Creating a pipe\<close>

definition pipe_file :: "file_macros \<Rightarrow> u32 \<Rightarrow> u64 \<Rightarrow> file_obj \<Rightarrow> file_obj" where
  "pipe_file c mode p f =
     f\<lparr>file_type := PIPE c, offp := 0, file_mode := mode, ref_count := 1, file_inode := None,
       file_pipe := Some p,
       fops := (fops f)\<lparr>fop_read := Some Pipe_Read, fop_write := Some Pipe_Write,
         fop_close := Some Generic_Close\<rparr>\<rparr>"

definition init_pipe :: "pipe_info \<Rightarrow> pipe_info" where
  "init_pipe i = i\<lparr>read_pos := 0, write_pos := 0, buffer_offset := 0,
     is_ropen := True, is_wopen := True\<rparr>"

text \<open>
  The second scan starts behind the first descriptor, which is not yet in the table. The
  descriptors returned are those stored in \<open>fd[0]\<close> and \<open>fd[1]\<close>.
\<close>

definition create_pipe ::
  "file_macros \<Rightarrow> allocator \<Rightarrow> fd_table \<Rightarrow> heap
     \<Rightarrow> (i32 \<times> (nat \<times> nat) option \<times> fd_table \<times> heap) run" where
  "create_pipe c al fds h =
     run_bind (find_fd fds 3) (\<lambda>r1.
       case r1 of
         None \<Rightarrow> Returns (- EOTHERS c, None, fds, h)
       | Some fd1 \<Rightarrow>
           run_bind (find_fd fds (fd1 + 1)) (\<lambda>r2.
             case r2 of
               None \<Rightarrow> Returns (- EOTHERS c, None, fds, h)
             | Some fd2 \<Rightarrow>
                 run_bind (alloc_pipe_info al h) (\<lambda>(p, h).
                   let h = h\<lparr>pipes := (pipes h)(p := map_option init_pipe (pipes h p))\<rparr> in
                   run_bind (alloc_file al h) (\<lambda>(a, h).
                     run_bind (set_file a (pipe_file c (O_READ c) p) h) (\<lambda>h.
                       let fds = fds[fd1 := Some a] in
                       run_bind (alloc_file al h) (\<lambda>(b, h).
                         run_bind (set_file b (pipe_file c (O_WRITE c) p) h) (\<lambda>h.
                           Returns (0, Some (fd1, fd2), fds[fd2 := Some b], h))))))))"

section \<open>Reading\<close>

text \<open>\<open>while (buf_ind < count) { buff[buf_ind] = pipe_buff[buf_ind]; buf_ind++; }\<close>\<close>

function read_loop :: "u8 list \<Rightarrow> u8 list \<Rightarrow> nat \<Rightarrow> nat \<Rightarrow> u8 list run" where
  "read_loop pb out i n =
     (if i < n then
        (if i < length pb then read_loop pb (out @ [pb ! i]) (Suc i) n else Faults)
      else Returns out)"
  by pat_completeness auto
termination by (relation "measure (\<lambda>(pb, out, i, n). n - i)") auto

text \<open>
  \<open>while (buf_ind < buffer_offset) { pipe_buff[buf_ind2] = pipe_buff[buf_ind]; ... }\<close>; the
  result is the buffer and the final value of \<open>buf_ind2\<close>.
\<close>

function shift_loop :: "u8 list \<Rightarrow> nat \<Rightarrow> nat \<Rightarrow> nat \<Rightarrow> (u8 list \<times> nat) run" where
  "shift_loop pb i j n =
     (if i < n then
        (if i < length pb \<and> j < length pb then shift_loop (pb[j := pb ! i]) (Suc i) (Suc j) n
         else Faults)
      else Returns (pb, j))"
  by pat_completeness auto
termination by (relation "measure (\<lambda>(pb, i, j, n). n - i)") auto

declare read_loop.simps [simp del] shift_loop.simps [simp del]

text \<open>The part of \<open>pipe_read\<close> behind the checks, on the pipe's data.\<close>

definition pipe_take :: "pipe_info \<Rightarrow> u32 \<Rightarrow> (u32 \<times> u8 list \<times> pipe_info) run" where
  "pipe_take i count =
     (let count = (if count > buffer_offset i then buffer_offset i else count) in
      run_bind (read_loop (pipe_buff i) [] 0 (unat count)) (\<lambda>out.
        run_bind (shift_loop (pipe_buff i) (unat count) 0 (unat (buffer_offset i))) (\<lambda>(pb, j).
          Returns (count, out, i\<lparr>pipe_buff := pb, buffer_offset := of_nat j\<rparr>))))"

text \<open>
  \<open>pipe_read\<close>: the value returned, the bytes stored in \<open>buff\<close> from its start on, and the heap.
  \<open>has_buff\<close> says that \<open>buff\<close> is not the null pointer.
\<close>

definition pipe_read ::
  "file_macros \<Rightarrow> u64 option \<Rightarrow> bool \<Rightarrow> u32 \<Rightarrow> heap \<Rightarrow> (i32 \<times> u8 list \<times> heap) run" where
  "pipe_read c filep has_buff count h =
     (case filep of
        None \<Rightarrow> Returns (- EINVAL c, [], h)
      | Some a \<Rightarrow>
          if \<not> has_buff then Returns (- EINVAL c, [], h)
          else
            (case files h a of
               None \<Rightarrow> Faults
             | Some f \<Rightarrow>
                 (case file_pipe f of
                    None \<Rightarrow> Faults
                  | Some p \<Rightarrow>
                      (case pipes h p of
                         None \<Rightarrow> Faults
                       | Some i \<Rightarrow>
                           if \<not> is_ropen i \<or> file_mode f \<noteq> O_READ c then
                             Returns (- EACCES c, [], h)
                           else
                             run_bind (pipe_take i count) (\<lambda>(n, out, i').
                               Returns (n, out, h\<lparr>pipes := (pipes h)(p \<mapsto> i')\<rparr>))))))"

section \<open>Writing\<close>

text \<open>\<open>while (buf_ind < count) { pipe_buff[buf_ind] = buff[buf_ind2]; ... }\<close>\<close>

function write_loop :: "u8 list \<Rightarrow> u8 list \<Rightarrow> nat \<Rightarrow> nat \<Rightarrow> nat \<Rightarrow> u8 list run" where
  "write_loop pb buff i j n =
     (if i < n then
        (if i < length pb \<and> j < length buff then
           write_loop (pb[i := buff ! j]) buff (Suc i) (Suc j) n
         else Faults)
      else Returns pb)"
  by pat_completeness auto
termination by (relation "measure (\<lambda>(pb, buff, i, j, n). n - i)") auto

declare write_loop.simps [simp del]

definition pipe_put :: "pipe_info \<Rightarrow> u8 list \<Rightarrow> u32 \<Rightarrow> pipe_info run" where
  "pipe_put i buff count =
     run_bind (write_loop (pipe_buff i) buff (unat (buffer_offset i)) 0 (unat count)) (\<lambda>pb.
       let off = buffer_offset i + count in
       Returns (i\<lparr>pipe_buff := pb, buffer_offset := off, write_pos := off\<rparr>))"

definition pipe_write ::
  "file_macros \<Rightarrow> u64 option \<Rightarrow> u8 list option \<Rightarrow> u32 \<Rightarrow> heap \<Rightarrow> (i32 \<times> heap) run" where
  "pipe_write c filep buff count h =
     (case (filep, buff) of
        (Some a, Some bytes) \<Rightarrow>
          (case files h a of
             None \<Rightarrow> Faults
           | Some f \<Rightarrow>
               (case file_pipe f of
                  None \<Rightarrow> Faults
                | Some p \<Rightarrow>
                    (case pipes h p of
                       None \<Rightarrow> Faults
                     | Some i \<Rightarrow>
                         if \<not> is_wopen i \<or> file_mode f \<noteq> O_WRITE c then Returns (- EACCES c, h)
                         else if count + buffer_offset i > 4096 then Returns (- EOTHERS c, h)
                         else
                           run_bind (pipe_put i bytes count) (\<lambda>i'.
                             Returns (count, h\<lparr>pipes := (pipes h)(p \<mapsto> i')\<rparr>)))))
      | _ \<Rightarrow> Returns (- EINVAL c, h))"

section \<open>A new pipe\<close>

lemma pipes_ok_new_pipe:
  assumes "file_macros_ok c" "pipes_ok c h" "pipes h p = None" "files h a = None" "files h b = None"
    "a \<noteq> b" "is_ropen i" "is_wopen i"
    and H: "files H = (files h)(a \<mapsto> pipe_file c (O_READ c) p f, b \<mapsto> pipe_file c (O_WRITE c) p g)"
      "pipes H = (pipes h)(p \<mapsto> i)"
  shows "pipes_ok c H"
proof -
  have rw: "O_READ c \<noteq> O_WRITE c"
    using assms(1) by (simp add: file_macros_ok_def)
  have no: "\<not> pipe_end c h p m x" for m x
  proof
    assume "pipe_end c h p m x"
    then obtain i where "pipes h p = Some i"
      using assms(2) unfolding pipes_ok_def pipe_end_def by (metis option.inject)
    with assms(3) show False
      by simp
  qed
  have fresh: "\<not> pipe_end c h q m a" "\<not> pipe_end c h q m b" for q m
    using assms(4,5) by (simp_all add: pipe_end_def)
  have e: "pipe_end c H q m x \<longleftrightarrow> pipe_end c h q m x
      \<or> q = p \<and> (m = O_READ c \<and> x = a \<or> m = O_WRITE c \<and> x = b)" for q m x
    using assms(4-6) H by (auto simp: pipe_end_def pipe_file_def)
  show ?thesis
    unfolding pipes_ok_def e
  proof (intro conjI allI impI)
    fix x k
    assume k: "files H x = Some k" "file_type k = PIPE c"
    show "\<exists>p i. file_pipe k = Some p \<and> pipes H p = Some i
        \<and> (file_mode k = O_READ c \<or> file_mode k = O_WRITE c)"
    proof (cases "x = a \<or> x = b")
      case True
      with k H show ?thesis
        by (auto simp: pipe_file_def split: if_splits)
    next
      case False
      with k H have "files h x = Some k"
        by simp
      with k obtain q j where "file_pipe k = Some q" "pipes h q = Some j"
        "file_mode k = O_READ c \<or> file_mode k = O_WRITE c"
        using assms(2) unfolding pipes_ok_def by blast
      with H assms(3) show ?thesis
        by auto
    qed
  next
    fix q m x y
    assume "pipe_end c h q m x \<or> q = p \<and> (m = O_READ c \<and> x = a \<or> m = O_WRITE c \<and> x = b)"
      "pipe_end c h q m y \<or> q = p \<and> (m = O_READ c \<and> y = a \<or> m = O_WRITE c \<and> y = b)"
    then show "x = y"
      using assms(2) no rw unfolding pipes_ok_def by metis
  next
    fix q j
    assume "pipes H q = Some j"
    then have "q = p \<and> j = i \<or> q \<noteq> p \<and> pipes h q = Some j"
      using H by (auto split: if_splits)
    then have "(is_ropen j \<longleftrightarrow> (\<exists>x. pipe_end c h q (O_READ c) x \<or> q = p \<and> (O_READ c = O_READ c \<and> x = a
          \<or> O_READ c = O_WRITE c \<and> x = b)))
        \<and> (is_wopen j \<longleftrightarrow> (\<exists>x. pipe_end c h q (O_WRITE c) x \<or> q = p \<and> (O_WRITE c = O_READ c \<and> x = a
          \<or> O_WRITE c = O_WRITE c \<and> x = b)))
        \<and> (is_ropen j \<or> is_wopen j)"
      using assms(2,7,8) rw unfolding pipes_ok_def by (elim disjE conjE) auto
    then show "is_ropen j \<longleftrightarrow> (\<exists>x. pipe_end c h q (O_READ c) x \<or> q = p \<and> (O_READ c = O_READ c \<and> x = a
          \<or> O_READ c = O_WRITE c \<and> x = b))"
      "is_wopen j \<longleftrightarrow> (\<exists>x. pipe_end c h q (O_WRITE c) x \<or> q = p \<and> (O_WRITE c = O_READ c \<and> x = a
          \<or> O_WRITE c = O_WRITE c \<and> x = b))"
      "is_ropen j \<or> is_wopen j"
      by blast+
  qed
qed

lemma create_pipe_cases:
  assumes "allocator_ok al" "create_pipe c al fds h = Returns (r, res, fds', h')"
  shows "r = - EOTHERS c \<and> res = None \<and> fds' = fds \<and> h' = h
    \<or> (\<exists>fd1 fd2 a b p i f g. r = 0 \<and> res = Some (fd1, fd2)
        \<and> free_slot fds 3 = Some fd1 \<and> free_slot fds (fd1 + 1) = Some fd2
        \<and> fds' = fds[fd1 := Some a, fd2 := Some b]
        \<and> files h a = None \<and> files h b = None \<and> a \<noteq> b \<and> pipes h p = None
        \<and> length (pipe_buff i) = 4096
        \<and> files h' = (files h)(a \<mapsto> pipe_file c (O_READ c) p f, b \<mapsto> pipe_file c (O_WRITE c) p g)
        \<and> pipes h' = (pipes h)(p \<mapsto> init_pipe i)
        \<and> file_objects h' = file_objects h + 2)"
proof -
  from assms(2) consider "r = - EOTHERS c \<and> res = None \<and> fds' = fds \<and> h' = h"
    | fd1 fd2 where "free_slot fds 3 = Some fd1" "free_slot fds (fd1 + 1) = Some fd2"
    by (auto simp: create_pipe_def find_fd_def run_bind_def split: if_splits option.splits)
  then show ?thesis
  proof cases
    case 2
    show ?thesis
    proof (cases "pipe_page al (pipes h)")
      case None
      with 2 assms(2) show ?thesis
        by (auto simp: create_pipe_def find_fd_def alloc_pipe_info_def split: if_splits)
    next
      case (Some pi)
      then obtain p i where pi: "pipe_page al (pipes h) = Some (p, i)"
        by (cases pi) auto
      then have p: "pipes h p = None" "length (pipe_buff i) = 4096"
        using assms(1) by (auto simp: allocator_ok_def)
      let ?h1 = "h\<lparr>pipes := (pipes h)(p \<mapsto> init_pipe i)\<rparr>"
      let ?K = "\<lambda>a h. run_bind (alloc_file al h) (\<lambda>(b, h).
        run_bind (set_file b (pipe_file c (O_WRITE c) p) h) (\<lambda>h.
          Returns (0 :: i32, Some (fd1, fd2), fds[fd1 := Some a, fd2 := Some b], h)))"
      have slots: "find_fd fds 3 = Returns (Some fd1)" "find_fd fds (fd1 + 1) = Returns (Some fd2)"
        using 2 free_slot_Some [OF 2(1)] free_slot_Some [OF 2(2)] by (simp_all add: find_fd_def)
      have al: "alloc_pipe_info al h = Returns (p, h\<lparr>pipes := (pipes h)(p \<mapsto> i)\<rparr>)"
        using pi by (simp add: alloc_pipe_info_def)
      have eq: "create_pipe c al fds h = run_bind (alloc_file al ?h1) (\<lambda>(a, h).
          run_bind (set_file a (pipe_file c (O_READ c) p) h) (?K a))"
        unfolding create_pipe_def slots al by (simp add: slots [simplified] al Let_def)
      show ?thesis
      proof (cases "file_page al (files ?h1)")
        case None
        then have "alloc_file al ?h1 = Faults"
          by (simp add: alloc_file_def)
        with eq assms(2) show ?thesis
          by simp
      next
        case (Some af)
        then obtain a f where af: "file_page al (files ?h1) = Some (a, f)"
          by (cases af) auto
        then have a: "files h a = None"
          using assms(1) by (auto simp: allocator_ok_def)
        let ?h2 = "add_file a (pipe_file c (O_READ c) p (f\<lparr>fops := no_fops\<rparr>)) ?h1"
        have eq2: "create_pipe c al fds h = ?K a ?h2"
          unfolding eq by (rule alloc_file_then [OF af])
        show ?thesis
        proof (cases "file_page al (files ?h2)")
          case None
          then have "alloc_file al ?h2 = Faults"
            by (simp add: alloc_file_def)
          with eq2 assms(2) show ?thesis
            by simp
        next
          case (Some bg)
          then obtain b g where bg: "file_page al (files ?h2) = Some (b, g)"
            by (cases bg) auto
          then have "files ?h2 b = None"
            using assms(1) by (auto simp: allocator_ok_def)
          then have ab: "a \<noteq> b" "files h b = None"
            by (auto simp: add_file_def split: if_splits)
          let ?h3 = "add_file b (pipe_file c (O_WRITE c) p (g\<lparr>fops := no_fops\<rparr>)) ?h2"
          have "create_pipe c al fds h = Returns (0, Some (fd1, fd2),
              fds[fd1 := Some a, fd2 := Some b], ?h3)"
            unfolding eq2 by (subst alloc_file_then [OF bg]) (rule refl)
          with assms(2) 2 p a ab show ?thesis
            by (intro disjI2) (auto simp: add_file_def intro!: exI)
        qed
      qed
    qed
  qed simp
qed

lemma create_pipe_spec:
  assumes "file_macros_ok c" "allocator_ok al"
    and "refs_ok c h (\<lambda>a. fd_count fds a + m a)"
    and "create_pipe c al fds h = Returns (r, res, fds', h')"
  shows "refs_ok c h' (\<lambda>a. fd_count fds' a + m a) \<and> length fds' = length fds"
  using create_pipe_cases [OF assms(2,4)]
proof (elim disjE exE conjE)
  assume "fds' = fds" "h' = h"
  with assms(3) show ?thesis
    by simp
next
  fix fd1 fd2 a b p i f g
  assume s: "free_slot fds 3 = Some fd1" "free_slot fds (fd1 + 1) = Some fd2"
    and fds': "fds' = fds[fd1 := Some a, fd2 := Some b]"
    and new: "files h a = None" "files h b = None" "a \<noteq> b" "pipes h p = None"
    and H: "files h' = (files h)(a \<mapsto> pipe_file c (O_READ c) p f, b \<mapsto> pipe_file c (O_WRITE c) p g)"
      "pipes h' = (pipes h)(p \<mapsto> init_pipe i)"
  have "pipes_ok c h'"
    by (rule pipes_ok_new_pipe [OF assms(1) _ new(4,1,2,3) _ _ H])
      (use assms(3) in \<open>simp_all add: refs_ok_def init_pipe_def\<close>)
  moreover have "fd_count fds x + m x = 0" if "x = a \<or> x = b" for x
    using assms(3) new that by (auto simp: refs_ok_def dest: spec [of _ x])
  moreover have "fd_count fds' x = fd_count fds x + (if x = a \<or> x = b then 1 else 0)" for x
    unfolding fds' using free_slot_Some [OF s(1)] free_slot_Some [OF s(2)] new(3)
    by (auto simp: fd_count_update)
  ultimately show ?thesis
    using assms(3) H new(3) fds' by (auto simp: refs_ok_def pipe_file_def)
qed

section \<open>What the loops do\<close>

lemma read_loop_spec:
  "i \<le> n \<Longrightarrow> n \<le> length pb \<Longrightarrow> read_loop pb out i n = Returns (out @ take (n - i) (drop i pb))"
proof (induction pb out i n rule: read_loop.induct)
  case (1 pb out i n)
  show ?case
  proof (cases "i < n")
    case True
    then have "take (n - i) (drop i pb) = pb ! i # take (n - Suc i) (drop (Suc i) pb)"
      using 1(3) by (subst Cons_nth_drop_Suc [symmetric]) (auto simp: Suc_diff_Suc [symmetric])
    then show ?thesis
      using 1 True by (subst read_loop.simps) simp
  qed (use 1 in \<open>simp add: read_loop.simps\<close>)
qed

lemma shift_loop_spec:
  "j \<le> i \<Longrightarrow> i \<le> n \<Longrightarrow> n \<le> length pb \<Longrightarrow>
    \<exists>pb'. shift_loop pb i j n = Returns (pb', j + (n - i)) \<and> length pb' = length pb
      \<and> take (j + (n - i)) pb' = take j pb @ take (n - i) (drop i pb)"
proof (induction pb i j n rule: shift_loop.induct)
  case (1 pb i j n)
  show ?case
  proof (cases "i < n")
    case True
    let ?pb = "pb[j := pb ! i]"
    have "i < length pb \<and> j < length pb"
      using 1(2,4) True by simp
    from 1(1) [OF True this] obtain pb' where
      "shift_loop ?pb (Suc i) (Suc j) n = Returns (pb', Suc j + (n - Suc i))" "length pb' = length pb"
      "take (Suc j + (n - Suc i)) pb' = take (Suc j) ?pb @ take (n - Suc i) (drop (Suc i) ?pb)"
      using 1(2-4) True by auto
    moreover have "take (Suc j) ?pb = take j pb @ [pb ! i]"
      using 1(2,4) True by (simp add: take_Suc_conv_app_nth)
    moreover have "drop (Suc i) ?pb = drop (Suc i) pb"
      using 1(2) by simp
    moreover have "take (n - i) (drop i pb) = pb ! i # take (n - Suc i) (drop (Suc i) pb)"
      using 1(4) True by (subst Cons_nth_drop_Suc [symmetric]) (auto simp: Suc_diff_Suc [symmetric])
    ultimately show ?thesis
      using 1(2,4) True by (subst shift_loop.simps) (auto simp: Suc_diff_Suc)
  qed (use 1 in \<open>simp add: shift_loop.simps\<close>)
qed

lemma write_loop_spec:
  "i \<le> n \<Longrightarrow> n \<le> length pb \<Longrightarrow> j + (n - i) \<le> length buff \<Longrightarrow>
    write_loop pb buff i j n = Returns (take i pb @ take (n - i) (drop j buff) @ drop n pb)"
proof (induction pb buff i j n rule: write_loop.induct)
  case (1 pb buff i j n)
  show ?case
  proof (cases "i < n")
    case True
    let ?pb = "pb[i := buff ! j]"
    have "i < length pb \<and> j < length buff"
      using 1(3,4) True by simp
    from 1(1) [OF True this] have
      "write_loop ?pb buff (Suc i) (Suc j) n
        = Returns (take (Suc i) ?pb @ take (n - Suc i) (drop (Suc j) buff) @ drop n ?pb)"
      using 1(3,4) True by simp
    moreover have "take (Suc i) ?pb = take i pb @ [buff ! j]"
      using 1(3) True by (simp add: take_Suc_conv_app_nth)
    moreover have "take (n - i) (drop j buff) = buff ! j # take (n - Suc i) (drop (Suc j) buff)"
      using 1(4) True by (subst Cons_nth_drop_Suc [symmetric]) (auto simp: Suc_diff_Suc [symmetric])
    ultimately show ?thesis
      using 1(3,4) True by (subst write_loop.simps) auto
  qed (use 1 in \<open>simp add: write_loop.simps\<close>)
qed

lemma write_loop_idle: "n \<le> i \<Longrightarrow> write_loop pb buff i j n = Returns pb"
  by (simp add: write_loop.simps)

lemma write_loop_overrun: "length pb < n \<Longrightarrow> i < n \<Longrightarrow> write_loop pb buff i j n = Faults"
proof (induction pb buff i j n rule: write_loop.induct)
  case (1 pb buff i j n)
  then show ?case
    by (subst write_loop.simps) (auto simp: less_Suc_eq_le Suc_le_eq intro: le_neq_implies_less)
qed

section \<open>A pipe as a sequence of bytes\<close>

definition pipe_wf :: "pipe_info \<Rightarrow> bool" where
  "pipe_wf i \<longleftrightarrow> length (pipe_buff i) = 4096 \<and> unat (buffer_offset i) \<le> 4096"

definition pipe_content :: "pipe_info \<Rightarrow> u8 list" where
  "pipe_content i = take (unat (buffer_offset i)) (pipe_buff i)"

lemma pipe_take_spec:
  assumes "pipe_wf i"
  shows "\<exists>i'. pipe_take i count
      = Returns (min count (buffer_offset i), take (unat count) (pipe_content i), i')
    \<and> pipe_wf i' \<and> pipe_content i' = drop (unat count) (pipe_content i)
    \<and> is_ropen i' = is_ropen i \<and> is_wopen i' = is_wopen i"
proof -
  let ?o = "unat (buffer_offset i)" and ?c = "min count (buffer_offset i)"
  have w: "length (pipe_buff i) = 4096" "?o \<le> 4096"
    using assms by (simp_all add: pipe_wf_def)
  have c: "unat ?c = min (unat count) ?o"
    by (auto simp: min_def word_le_nat_alt)
  obtain pb where s: "shift_loop (pipe_buff i) (unat ?c) 0 ?o = Returns (pb, ?o - unat ?c)"
    "length pb = 4096" "take (?o - unat ?c) pb = take (?o - unat ?c) (drop (unat ?c) (pipe_buff i))"
    using shift_loop_spec [of 0 "unat ?c" ?o "pipe_buff i"] w c by auto
  have r: "read_loop (pipe_buff i) [] 0 (unat ?c) = Returns (take (unat ?c) (pipe_buff i))"
    using read_loop_spec [of 0 "unat ?c" "pipe_buff i" "[]"] w c by simp
  let ?i = "i\<lparr>pipe_buff := pb, buffer_offset := of_nat (?o - unat ?c)\<rparr>"
  have k: "(if count > buffer_offset i then buffer_offset i else count) = ?c"
    by (auto simp: min_def dest: leD)
  have t: "pipe_take i count = Returns (?c, take (unat ?c) (pipe_buff i), ?i)"
    by (simp add: pipe_take_def Let_def k r s(1))
  have u: "unat (of_nat (?o - unat ?c) :: u32) = ?o - unat ?c"
    using w(2) by (simp add: unat_of_nat)
  have "take (unat ?c) (pipe_buff i) = take (unat count) (pipe_content i)"
    unfolding c pipe_content_def by (simp add: min.commute)
  moreover have "pipe_content ?i = drop (unat count) (pipe_content i)"
    using s(3) u unfolding pipe_content_def c by (simp add: drop_take min_def)
  moreover have "pipe_wf ?i"
    using s(2) u w(2) by (simp add: pipe_wf_def)
  ultimately show ?thesis
    using t by auto
qed

lemma pipe_put_spec:
  assumes "pipe_wf i" "unat count + unat (buffer_offset i) \<le> 4096" "unat count \<le> length bytes"
  shows "\<exists>i'. pipe_put i bytes count = Returns i' \<and> pipe_wf i'
    \<and> buffer_offset i' = buffer_offset i + count
    \<and> pipe_content i' = pipe_content i @ take (unat count - unat (buffer_offset i)) bytes
        @ take (min (unat count) (unat (buffer_offset i)))
            (drop (max (unat count) (unat (buffer_offset i))) (pipe_buff i))
    \<and> is_ropen i' = is_ropen i \<and> is_wopen i' = is_wopen i"
proof -
  let ?o = "unat (buffer_offset i)" and ?n = "unat count"
  have w: "length (pipe_buff i) = 4096" "?o \<le> 4096"
    using assms(1) by (simp_all add: pipe_wf_def)
  have s: "unat (buffer_offset i + count) = ?o + ?n"
    using assms(2) by (subst unat_add_lem [THEN iffD1]) simp_all
  let ?pb = "if ?o \<le> ?n then take ?o (pipe_buff i) @ take (?n - ?o) bytes @ drop ?n (pipe_buff i)
    else pipe_buff i"
  have l: "length ?pb = 4096"
    using assms(2,3) w by simp
  have "write_loop (pipe_buff i) bytes ?o 0 ?n = Returns ?pb"
    using write_loop_spec [of ?o ?n "pipe_buff i" 0 bytes] write_loop_idle [of ?n ?o] assms(2,3) w
    by simp
  then have p: "pipe_put i bytes count = Returns (i\<lparr>pipe_buff := ?pb,
      buffer_offset := buffer_offset i + count, write_pos := buffer_offset i + count\<rparr>)"
    by (simp only: pipe_put_def Let_def run_bind_simps)
  have "take (?o + ?n) ?pb = take ?o (pipe_buff i) @ take (?n - ?o) bytes
      @ take (min ?n ?o) (drop (max ?n ?o) (pipe_buff i))"
  proof (cases "?o \<le> ?n")
    case True
    then have "min ?n ?o = ?o" "max ?n ?o = ?n" "length (take (?n - ?o) bytes) = ?n - ?o"
      using assms(3) by simp_all
    with True w(1) assms(2) show ?thesis
      by simp
  next
    case False
    then have "min ?n ?o = ?n" "max ?n ?o = ?o" "?n - ?o = 0"
      by simp_all
    with False show ?thesis
      by (simp add: take_add)
  qed
  then show ?thesis
    using l s assms(2) p by (simp add: pipe_wf_def pipe_content_def add.commute)
qed

section \<open>Sources of bytes\<close>










definition example_pipe :: "u8 list \<Rightarrow> pipe_info" where
  "example_pipe bytes = blank_pipe\<lparr>pipe_buff := bytes @ replicate (4096 - length bytes) 0,
     buffer_offset := of_nat (length bytes), is_ropen := True, is_wopen := True\<rparr>"

definition example_pipe_heap :: "u8 list \<Rightarrow> heap" where
  "example_pipe_heap bytes = empty_heap\<lparr>
     files := [4096 \<mapsto> pipe_file example_macros 1 64 blank_file,
       8192 \<mapsto> pipe_file example_macros 2 64 blank_file],
     pipes := [64 \<mapsto> example_pipe bytes], file_objects := 2\<rparr>"

lemma example_pipe_wf:
  "length bytes \<le> 4096 \<Longrightarrow> pipe_wf (example_pipe bytes) \<and> pipe_content (example_pipe bytes) = bytes"
  by (simp add: pipe_wf_def pipe_content_def example_pipe_def unat_of_nat)

lemma example_pipe_sel:
  "is_ropen (example_pipe bytes)" "is_wopen (example_pipe bytes)"
  "buffer_offset (example_pipe bytes) = of_nat (length bytes)"
  "pipe_buff (example_pipe bytes) = bytes @ replicate (4096 - length bytes) 0"
  "files (example_pipe_heap bytes) 4096 = Some (pipe_file example_macros 1 64 blank_file)"
  "files (example_pipe_heap bytes) 8192 = Some (pipe_file example_macros 2 64 blank_file)"
  "pipes (example_pipe_heap bytes) 64 = Some (example_pipe bytes)"
  "file_pipe (pipe_file example_macros mode p f) = Some p"
  "file_mode (pipe_file example_macros mode p f) = mode"
  "O_READ example_macros = 1" "O_WRITE example_macros = 2"
  by (simp_all add: example_pipe_def example_pipe_heap_def pipe_file_def example_macros_def)

section \<open>Properties\<close>

text \<open>
  \<open>pipe_read\<close> through an open read end hands out the oldest bytes of the pipe, at most
  \<open>count\<close> of them, keeps the others in order, and returns how many it copied.
\<close>

theorem pipe_read_takes:
  assumes "files h a = Some f" "file_pipe f = Some p" "pipes h p = Some i" "pipe_wf i"
    and "is_ropen i" "file_mode f = O_READ c"
  shows "\<exists>n i'. pipe_read c (Some a) True count h
      = Returns (n, take (unat count) (pipe_content i), h\<lparr>pipes := (pipes h)(p \<mapsto> i')\<rparr>)
    \<and> unat n = min (unat count) (length (pipe_content i))
    \<and> pipe_wf i' \<and> pipe_content i' = drop (unat count) (pipe_content i)"
proof -
  obtain i' where "pipe_take i count = Returns (min count (buffer_offset i), take (unat count) (pipe_content i), i')"
    "pipe_wf i'" "pipe_content i' = drop (unat count) (pipe_content i)"
    using pipe_take_spec [OF assms(4), of count] by blast
  moreover have "unat (min count (buffer_offset i)) = min (unat count) (length (pipe_content i))"
    using assms(4) by (auto simp: min_def word_le_nat_alt pipe_wf_def pipe_content_def)
  ultimately show ?thesis
    using assms by (intro exI [of _ "min count (buffer_offset i)"] exI [of _ i']) (simp add: pipe_read_def)
qed

theorem pipe_read_takes_witness:
  "\<exists>n i'. pipe_read example_macros (Some 4096) True 2 (example_pipe_heap [7, 8, 9])
      = Returns (n, [7, 8], (example_pipe_heap [7, 8, 9])\<lparr>pipes :=
          (pipes (example_pipe_heap [7, 8, 9]))(64 \<mapsto> i')\<rparr>)
    \<and> pipe_content i' = [9]"
  using pipe_read_takes [of "example_pipe_heap [7, 8, 9]" 4096 "pipe_file example_macros 1 64 blank_file"
      64 "example_pipe [7, 8, 9]" example_macros 2] example_pipe_wf [of "[7, 8, 9]"]
  by (simp add: example_pipe_sel) blast



text \<open>
  A write to a pipe that is not empty is reported as complete, but only the first
  \<open>count - buffer_offset\<close> bytes arrive; what follows them is the old content of the buffer.
  (The loop runs to \<open>count\<close> instead of \<open>buffer_offset + count\<close>.) If the pipe holds at least as
  many bytes as are written, none arrives.
\<close>

theorem pipe_write_nonempty:
  assumes "files h a = Some f" "file_pipe f = Some p" "pipes h p = Some i" "pipe_wf i"
    and "is_wopen i" "file_mode f = O_WRITE c"
    and "unat count + unat (buffer_offset i) \<le> 4096" "unat count \<le> length bytes"
  shows "\<exists>i'. pipe_write c (Some a) (Some bytes) count h
      = Returns (count, h\<lparr>pipes := (pipes h)(p \<mapsto> i')\<rparr>)
    \<and> pipe_wf i'
    \<and> pipe_content i' = pipe_content i @ take (unat count - unat (buffer_offset i)) bytes
        @ take (min (unat count) (unat (buffer_offset i)))
            (drop (max (unat count) (unat (buffer_offset i))) (pipe_buff i))"
proof -
  have "unat (count + buffer_offset i) = unat count + unat (buffer_offset i)"
    using assms(7) by (subst unat_add_lem [THEN iffD1]) simp_all
  then have "\<not> count + buffer_offset i > 4096"
    using assms(7) by (simp add: word_less_nat_alt)
  with pipe_put_spec [OF assms(4,7,8)] assms(1-6) show ?thesis
    by (auto simp: pipe_write_def)
qed

theorem pipe_write_nonempty_witness:
  "\<exists>i'. pipe_write example_macros (Some 8192) (Some [1, 2]) 2 (example_pipe_heap [7, 8, 9])
      = Returns (2, (example_pipe_heap [7, 8, 9])\<lparr>pipes :=
          (pipes (example_pipe_heap [7, 8, 9]))(64 \<mapsto> i')\<rparr>)
    \<and> pipe_content i' = [7, 8, 9, 0, 0]"
proof -
  let ?p = "example_pipe [7, 8, 9]"
  have w: "pipe_wf ?p" "pipe_content ?p = [7, 8, 9]"
    using example_pipe_wf [of "[7, 8, 9]"] by simp_all
  have u: "unat (2 :: u32) = 2" "unat (buffer_offset ?p) = 3"
    by (simp_all add: example_pipe_sel)
  have t: "take 2 (drop 3 (pipe_buff ?p)) = [0, 0]"
    by (simp add: example_pipe_sel) (simp add: numeral_2_eq_2)
  have m: "min 2 3 = (2 :: nat)" "max 2 3 = (3 :: nat)"
    by simp_all
  obtain i' where "pipe_write example_macros (Some 8192) (Some [1, 2]) 2 (example_pipe_heap [7, 8, 9])
      = Returns (2, (example_pipe_heap [7, 8, 9])\<lparr>pipes :=
          (pipes (example_pipe_heap [7, 8, 9]))(64 \<mapsto> i')\<rparr>)"
    "pipe_content i' = [7, 8, 9] @ take (2 - 3) [1, 2] @ take (min 2 3) (drop (max 2 3) (pipe_buff ?p))"
    using pipe_write_nonempty [OF example_pipe_sel(6,8,7) w(1) example_pipe_sel(2),
        of example_macros 2 "[1, 2]"]
    unfolding u w(2) by (auto simp: example_pipe_sel(9,11))
  then show ?thesis
    unfolding m t by auto
qed

text \<open>
  The check \<open>count + buffer_offset > 4096\<close> is done on 32 bits. For a pipe with some content
  and a count so large that the sum wraps around it passes, and the loop runs over the end of
  the pipe's page.
\<close>

theorem pipe_write_overruns:
  assumes "files h a = Some f" "file_pipe f = Some p" "pipes h p = Some i" "pipe_wf i"
    and "is_wopen i" "file_mode f = O_WRITE c"
    and "2 ^ 32 \<le> unat count + unat (buffer_offset i)"
  shows "pipe_write c (Some a) (Some bytes) count h = Faults"
proof -
  have o: "unat (buffer_offset i) \<le> 4096" "length (pipe_buff i) = 4096"
    using assms(4) by (simp_all add: pipe_wf_def)
  have "unat count < 2 ^ 32"
    using unsigned_less [of count, where ?'a = nat] by simp
  then have "(unat count + unat (buffer_offset i)) mod 2 ^ 32 = unat count + unat (buffer_offset i) - 2 ^ 32"
    using assms(7) o(1) by (subst le_mod_geq) simp_all
  then have "unat (count + buffer_offset i) < 4096"
    using \<open>unat count < 2 ^ 32\<close> assms(7) o(1) by (simp add: unat_word_ariths)
  then have "\<not> count + buffer_offset i > 4096"
    by (simp add: word_less_nat_alt)
  moreover have "pipe_put i bytes count = Faults"
    using o assms(7) write_loop_overrun [of "pipe_buff i" "unat count" "unat (buffer_offset i)" bytes 0]
    by (simp add: pipe_put_def)
  ultimately show ?thesis
    using assms(1-6) by (simp add: pipe_write_def)
qed

theorem pipe_write_overruns_witness:
  "pipe_write example_macros (Some 8192) (Some [1, 2]) 4294967295 (example_pipe_heap [7, 8, 9]) = Faults"
  using pipe_write_overruns [of "example_pipe_heap [7, 8, 9]" 8192
      "pipe_file example_macros 2 64 blank_file" 64 "example_pipe [7, 8, 9]" example_macros 4294967295]
    example_pipe_wf [of "[7, 8, 9]"]
  by (simp add: example_pipe_sel)

text \<open>
  \<open>create_pipe\<close> makes one pipe with two new file objects, an open read end and an open write
  end with one reference each, and stores them in the two lowest free descriptors from 3 on;
  nothing that existed changes. On a full table it changes nothing.
\<close>

theorem create_pipe_creates:
  assumes "allocator_ok al" "create_pipe c al fds h = Returns (r, res, fds', h')"
  shows "case res of
      None \<Rightarrow> r = - EOTHERS c \<and> fds' = fds \<and> h' = h
    | Some (fd1, fd2) \<Rightarrow>
        r = 0 \<and> free_slot fds 3 = Some fd1 \<and> free_slot fds (fd1 + 1) = Some fd2
        \<and> (\<exists>a b p i. fds' = fds[fd1 := Some a, fd2 := Some b]
            \<and> pipe_end c h' p (O_READ c) a \<and> pipe_end c h' p (O_WRITE c) b
            \<and> pipes h p = None \<and> pipes h' = (pipes h)(p \<mapsto> i)
            \<and> pipe_wf i \<and> pipe_content i = [] \<and> is_ropen i \<and> is_wopen i
            \<and> (\<forall>x f. files h x = Some f \<longrightarrow> files h' x = Some f \<and> x \<noteq> a \<and> x \<noteq> b))"
  using create_pipe_cases [OF assms]
proof (elim disjE exE conjE)
  fix fd1 fd2 a b p i f g
  assume res: "r = 0" "res = Some (fd1, fd2)" "free_slot fds 3 = Some fd1"
      "free_slot fds (fd1 + 1) = Some fd2" "fds' = fds[fd1 := Some a, fd2 := Some b]"
    and new: "files h a = None" "files h b = None" "a \<noteq> b" "pipes h p = None"
    and H: "length (pipe_buff i) = 4096" "files h' = (files h)(a \<mapsto> pipe_file c (O_READ c) p f,
        b \<mapsto> pipe_file c (O_WRITE c) p g)" "pipes h' = (pipes h)(p \<mapsto> init_pipe i)"
  have "pipe_end c h' p (O_READ c) a" "pipe_end c h' p (O_WRITE c) b"
    using H new(3) by (simp_all add: pipe_end_def pipe_file_def)
  moreover have "pipe_wf (init_pipe i)" "pipe_content (init_pipe i) = []"
    "is_ropen (init_pipe i)" "is_wopen (init_pipe i)"
    using H(1) by (simp_all add: pipe_wf_def pipe_content_def init_pipe_def)
  moreover have "\<forall>x f. files h x = Some f \<longrightarrow> files h' x = Some f \<and> x \<noteq> a \<and> x \<noteq> b"
    using H(2) new(1,2) by auto
  ultimately show ?thesis
    using res new(4) H(3) by (simp add: case_prod_beta) blast
qed simp

theorem create_pipe_creates_witness:
  "\<exists>fds' h'. create_pipe example_macros example_allocator example_fds empty_heap
      = Returns (0, Some (4, 6), fds', h')
    \<and> (\<exists>a b p i. fds' = example_fds[4 := Some a, 6 := Some b] \<and> pipes h' = [p \<mapsto> i]
      \<and> pipe_end example_macros h' p 1 a \<and> pipe_end example_macros h' p 2 b)"
proof -
  have s: "free_slot example_fds 3 = Some 4" "free_slot example_fds 5 = Some 6"
    by code_simp+
  have fd: "find_fd example_fds 3 = Returns (Some 4)" "find_fd example_fds 5 = Returns (Some 6)"
    using s by (simp_all add: find_fd_def example_fds_def)
  then obtain h' where r: "create_pipe example_macros example_allocator example_fds empty_heap
      = Returns (0, Some (4, 6), example_fds[4 := Some 4096, 6 := Some 8192], h')"
    by (auto simp: create_pipe_def alloc_file_def alloc_pipe_info_def set_file_def Let_def
        example_allocator_def example_pages_def empty_heap_def)
  with create_pipe_creates [OF example_allocator_ok r] show ?thesis
    by (auto simp: example_macros_def empty_heap_def)
qed

end
