(* ===== verification/Regular_File.thy ===== *)
theory Regular_File
  imports File_Table
begin

text \<open>
  Regular files of \<open>src/Assignment2/file.c\<close>: opening, reading, writing and seeking. The flat
  file system behind them is not part of the repository; it is a record of functions over an
  abstract disk state \<open>'d\<close>.
\<close>

section \<open>The file system\<close>

record inode =
  file_size :: u32
  inode_mode :: u32
  s_pos :: u32
  e_pos :: u32

text \<open>
  \<open>lookup_inode(filename)\<close> and \<open>create_inode(filename, mode)\<close>, the fields of an inode, and
  \<open>flat_read(inode, buff, count, &offp)\<close> and \<open>flat_write\<close> with the number of bytes they
  return; they are given a copy of the offset, which the code does not read afterwards.
\<close>

record 'd file_system =
  lookup_inode :: "'d \<Rightarrow> string \<Rightarrow> u64 option"
  create_inode :: "'d \<Rightarrow> string \<Rightarrow> u64 \<Rightarrow> u64 option \<times> 'd"
  inode_at :: "'d \<Rightarrow> u64 \<Rightarrow> inode"
  flat_read :: "'d \<Rightarrow> u64 \<Rightarrow> u32 \<Rightarrow> i32 \<Rightarrow> i32 \<times> u8 list"
  flat_write :: "'d \<Rightarrow> u64 \<Rightarrow> u8 list \<Rightarrow> u32 \<Rightarrow> i32 \<Rightarrow> i32 \<times> 'd"

section \<open>Opening\<close>

definition regular_file :: "file_macros \<Rightarrow> u32 \<Rightarrow> u64 \<Rightarrow> file_obj \<Rightarrow> file_obj" where
  "regular_file c mode ino f =
     f\<lparr>file_type := REGULAR c, file_mode := mode, offp := 0, ref_count := 1,
       file_inode := Some ino,
       fops := (fops f)\<lparr>fop_read := Some Do_Read_Regular, fop_write := Some Do_Write_Regular,
         fop_lseek := Some Do_Lseek_Regular, fop_close := Some Generic_Close\<rparr>,
       file_pipe := None\<rparr>"

text \<open>\<open>(w & bits) == bits\<close>, for a \<open>u64\<close> and for a \<open>u32\<close>.\<close>

definition has_flag :: "u64 \<Rightarrow> u32 \<Rightarrow> bool" where
  "has_flag w bits \<longleftrightarrow> w AND ucast bits = ucast bits"

definition has_mode :: "u32 \<Rightarrow> u32 \<Rightarrow> bool" where
  "has_mode w bits \<longleftrightarrow> w AND bits = bits"

definition open_refused :: "file_macros \<Rightarrow> inode \<Rightarrow> u64 \<Rightarrow> bool" where
  "open_refused c ino flags \<longleftrightarrow>
     \<not> has_mode (inode_mode ino) (O_WRITE c) \<and> has_flag flags (O_WRITE c)
     \<or> \<not> has_mode (inode_mode ino) (O_READ c) \<and> has_flag flags (O_READ c)"

definition do_regular_file_open ::
  "file_macros \<Rightarrow> allocator \<Rightarrow> 'd file_system \<Rightarrow> fd_table \<Rightarrow> string option \<Rightarrow> u64 \<Rightarrow> u64
     \<Rightarrow> heap \<Rightarrow> 'd \<Rightarrow> (i32 \<times> fd_table \<times> heap \<times> 'd) run" where
  "do_regular_file_open c al fs fds filename flags mode h d =
     (case filename of
        None \<Rightarrow> Returns (- EINVAL c, fds, h, d)
      | Some name \<Rightarrow>
          if flags = 0 then Returns (- EINVAL c, fds, h, d)
          else
            (let found = lookup_inode fs d name;
                 created = (found = None \<and> has_flag flags (O_CREAT c));
                 (ino, d) = (if created then create_inode fs d name mode else (found, d)) in
             case ino of
               None \<Rightarrow> Returns (- EINVAL c, fds, h, d)
             | Some a \<Rightarrow>
                 (let ino = inode_at fs d a in
                  if file_size ino > 4096 then Returns (- EOTHERS c, fds, h, d)
                  else if \<not> created \<and> open_refused c ino flags then
                    Returns (- EACCES c, fds, h, d)
                  else
                    run_bind (alloc_file al h) (\<lambda>(f, h).
                      let m = (if created then inode_mode ino else ucast (flags XOR ucast (O_CREAT c))) in
                      run_bind (set_file f (regular_file c m a) h) (\<lambda>h.
                        run_bind (find_fd fds 3) (\<lambda>r.
                          case r of
                            None \<Rightarrow> Returns (- EOTHERS c, fds, h, d)
                          | Some fd \<Rightarrow> Returns (of_nat fd, fds[fd := Some f], h, d)))))))"

section \<open>Reading, writing, seeking\<close>

definition with_regular ::
  "u64 option \<Rightarrow> heap \<Rightarrow> 'a \<Rightarrow> (u64 \<Rightarrow> file_obj \<Rightarrow> 'a run) \<Rightarrow> 'a run" where
  "with_regular filep h none body =
     (case filep of
        None \<Rightarrow> Returns none
      | Some a \<Rightarrow> (case files h a of None \<Rightarrow> Faults | Some f \<Rightarrow> body a f))"

definition do_read_regular ::
  "file_macros \<Rightarrow> 'd file_system \<Rightarrow> u64 option \<Rightarrow> bool \<Rightarrow> u32 \<Rightarrow> heap \<Rightarrow> 'd
     \<Rightarrow> (i32 \<times> u8 list \<times> heap) run" where
  "do_read_regular c fs filep has_buff count h d =
     (if \<not> has_buff then Returns (- EINVAL c, [], h)
      else
        with_regular filep h (- EINVAL c, [], h) (\<lambda>a f.
          if \<not> has_mode (file_mode f) (O_READ c) then Returns (- EACCES c, [], h)
          else
            (case file_inode f of
               None \<Rightarrow> Faults
             | Some i \<Rightarrow>
                 (let size = file_size (inode_at fs d i);
                      count = (if offp f + count > size then size - offp f else count);
                      (n, bytes) = flat_read fs d i count (offp f) in
                  Returns (n, bytes, h\<lparr>files := (files h)(a \<mapsto> f\<lparr>offp := offp f + n\<rparr>)\<rparr>)))))"

definition do_write_regular ::
  "file_macros \<Rightarrow> 'd file_system \<Rightarrow> u64 option \<Rightarrow> u8 list option \<Rightarrow> u32 \<Rightarrow> heap \<Rightarrow> 'd
     \<Rightarrow> (i32 \<times> heap \<times> 'd) run" where
  "do_write_regular c fs filep buff count h d =
     (case buff of
        None \<Rightarrow> Returns (- EINVAL c, h, d)
      | Some bytes \<Rightarrow>
          with_regular filep h (- EINVAL c, h, d) (\<lambda>a f.
            if \<not> has_mode (file_mode f) (O_WRITE c) then Returns (- EACCES c, h, d)
            else if offp f + count > 4096 then Returns (- EOTHERS c, h, d)
            else
              (case file_inode f of
                 None \<Rightarrow> Faults
               | Some i \<Rightarrow>
                   (let (n, d') = flat_write fs d i bytes count (offp f) in
                    Returns (n, h\<lparr>files := (files h)(a \<mapsto> f\<lparr>offp := offp f + n\<rparr>)\<rparr>, d')))))"

text \<open>
  The new offset \<open>lseek\<close> stores before it checks it against the size of the inode's blocks;
  \<^const>\<open>None\<close> where it returns \<open>-EINVAL\<close> first. The sums are \<open>long\<close>, the offset is \<open>u32\<close>.
\<close>

definition lseek_target ::
  "file_macros \<Rightarrow> file_obj \<Rightarrow> inode option \<Rightarrow> i64 \<Rightarrow> i32 \<Rightarrow> u32 option run" where
  "lseek_target c f ino offset whence =
     (if whence = SEEK_SET c then
        Returns (if sint offset < 0 then None else Some (ucast offset))
      else if whence = SEEK_CUR c then
        Returns (if sint (offset + ucast (offp f)) < 0 then None else Some (offp f + ucast offset))
      else if whence = SEEK_END c then
        (case ino of
           None \<Rightarrow> Faults
         | Some ino \<Rightarrow>
             Returns (if sint (offset + ucast (file_size ino)) < 0 then None
                      else Some (file_size ino + ucast offset)))
      else Returns None)"

definition do_lseek_regular ::
  "file_macros \<Rightarrow> 'd file_system \<Rightarrow> u64 option \<Rightarrow> i64 \<Rightarrow> i32 \<Rightarrow> heap \<Rightarrow> 'd
     \<Rightarrow> (i64 \<times> heap) run" where
  "do_lseek_regular c fs filep offset whence h d =
     with_regular filep h (sx (- EINVAL c), h) (\<lambda>a f.
       let ino = map_option (inode_at fs d) (file_inode f) in
       run_bind (lseek_target c f ino offset whence) (\<lambda>r.
         case r of
           None \<Rightarrow> Returns (sx (- EINVAL c), h)
         | Some off \<Rightarrow>
             (case ino of
                None \<Rightarrow> Faults
              | Some ino \<Rightarrow>
                  if off > e_pos ino - s_pos ino then Returns (sx (- EINVAL c), h)
                  else Returns (ucast off, h\<lparr>files := (files h)(a \<mapsto> f\<lparr>offp := off\<rparr>)\<rparr>))))"

section \<open>Opening keeps the reference counts\<close>

lemma do_regular_file_open_cases:
  assumes "allocator_ok al"
    and "do_regular_file_open c al fs fds filename flags mode h d = Returns (r, fds', h', d')"
  shows "(r = - EINVAL c \<or> r = - EOTHERS c \<or> r = - EACCES c) \<and> fds' = fds \<and> h' = h
    \<or> (\<exists>a g. files h a = None \<and> ref_count g = 1 \<and> file_type g = REGULAR c \<and> offp g = 0
        \<and> h' = add_file a g h
        \<and> (case free_slot fds 3 of
             None \<Rightarrow> r = - EOTHERS c \<and> fds' = fds
           | Some fd \<Rightarrow> r = of_nat fd \<and> fds' = fds[fd := Some a]))"
proof (cases filename)
  case None
  with assms(2) show ?thesis
    by (simp add: do_regular_file_open_def)
next
  case (Some name)
  let ?created = "lookup_inode fs d name = None \<and> has_flag flags (O_CREAT c)"
  obtain ino d1 where id: "(if ?created then create_inode fs d name mode
      else (lookup_inode fs d name, d)) = (ino, d1)"
    by fastforce
  define md where "md = (\<lambda>a. if ?created then inode_mode (inode_at fs d1 a)
    else ucast (flags XOR ucast (O_CREAT c)))"
  have eq: "do_regular_file_open c al fs fds filename flags mode h d =
     (if flags = 0 then Returns (- EINVAL c, fds, h, d)
      else
       (case ino of
         None \<Rightarrow> Returns (- EINVAL c, fds, h, d1)
       | Some a \<Rightarrow>
          (if file_size (inode_at fs d1 a) > 4096 then Returns (- EOTHERS c, fds, h, d1)
           else if \<not> ?created \<and> open_refused c (inode_at fs d1 a) flags then
             Returns (- EACCES c, fds, h, d1)
           else
             run_bind (alloc_file al h) (\<lambda>(f, h).
               run_bind (set_file f (regular_file c (md a) a) h) (\<lambda>h.
                 run_bind (find_fd fds 3) (\<lambda>r.
                   case r of
                     None \<Rightarrow> Returns (- EOTHERS c, fds, h, d1)
                   | Some fd \<Rightarrow> Returns (of_nat fd, fds[fd := Some f], h, d1)))))))"
    unfolding do_regular_file_open_def Some Let_def option.case id prod.case md_def ..
  from assms(2) eq consider
      "r = - EINVAL c \<or> r = - EOTHERS c \<or> r = - EACCES c" "fds' = fds" "h' = h"
    | i where "run_bind (alloc_file al h) (\<lambda>(f, h).
               run_bind (set_file f (regular_file c (md i) i) h) (\<lambda>h.
                 run_bind (find_fd fds 3) (\<lambda>r.
                   case r of
                     None \<Rightarrow> Returns (- EOTHERS c, fds, h, d1)
                   | Some fd \<Rightarrow> Returns (of_nat fd, fds[fd := Some f], h, d1))))
        = Returns (r, fds', h', d')"
    by (cases ino) (auto split: if_splits)
  then show ?thesis
  proof cases
    case 2
    show ?thesis
    proof (cases "file_page al (files h)")
      case None
      then have "alloc_file al h = Faults"
        by (simp add: alloc_file_def)
      with 2 show ?thesis
        by simp
    next
      case (Some af)
      then obtain a f where af: "file_page al (files h) = Some (a, f)"
        by (cases af) auto
      then have a: "files h a = None"
        using assms(1) by (auto simp: allocator_ok_def)
      let ?g = "regular_file c (md i) i (f\<lparr>fops := no_fops\<rparr>)"
      have g: "ref_count ?g = 1" "file_type ?g = REGULAR c" "offp ?g = 0"
        by (simp_all add: regular_file_def)
      from 2 a g show ?thesis
        unfolding alloc_file_then [OF af] find_fd_def
        by (intro disjI2 exI [of _ a] exI [of _ ?g]) (auto split: if_splits option.splits)
    qed
  qed simp
qed

lemma do_regular_file_open_spec:
  assumes "file_macros_ok c" "allocator_ok al"
    and "refs_ok c h (\<lambda>a. fd_count fds a + m a)"
    and "do_regular_file_open c al fs fds filename flags mode h d = Returns (r, fds', h', d')"
  shows "length fds' = length fds \<and>
    (refs_ok c h' (\<lambda>a. fd_count fds' a + m a)
     \<or> free_slot fds 3 = None \<and> r = - EOTHERS c \<and> fds' = fds
       \<and> (\<exists>x. files h x = None \<and> refs_ok c h' (\<lambda>a. fd_count fds a + m a + (if a = x then 1 else 0))))"
proof (cases "fds' = fds \<and> h' = h")
  case True
  with assms(3) show ?thesis
    by simp
next
  case False
  with do_regular_file_open_cases [OF assms(2,4)] obtain a g where
    new: "files h a = None" "ref_count g = 1" "file_type g = REGULAR c" "h' = add_file a g h"
    and r: "case free_slot fds 3 of
             None \<Rightarrow> r = - EOTHERS c \<and> fds' = fds
           | Some fd \<Rightarrow> r = of_nat fd \<and> fds' = fds[fd := Some a]"
    by blast
  have "pipes_ok c h'"
    using assms(1,3) new by (auto simp: refs_ok_def file_macros_ok_def intro: pipes_ok_add)
  then have "refs_ok c h' ((\<lambda>a. fd_count fds a + m a)(a := fd_count fds a + m a + 1))"
    using refs_ok_add [OF assms(3) new(1,2)] new(4) by simp
  moreover have "(\<lambda>a. fd_count fds a + m a)(a := fd_count fds a + m a + 1)
      = (\<lambda>x. fd_count fds x + m x + (if x = a then 1 else 0))"
    by auto
  moreover have "(\<lambda>x. fd_count fds x + m x + (if x = a then 1 else 0))
      = (\<lambda>x. fd_count (fds[fd := Some a]) x + m x)" if "free_slot fds 3 = Some fd" for fd
    using free_slot_Some [OF that] by (auto simp: fd_count_add)
  ultimately show ?thesis
    using r new(1) by (auto split: option.splits)
qed

text \<open>What the code relies on of the flat file system: the transfers are bounded by the count.\<close>

definition file_system_ok :: "'d file_system \<Rightarrow> bool" where
  "file_system_ok fs \<longleftrightarrow>
     (\<forall>d i count off n bytes. flat_read fs d i count off = (n, bytes) \<longrightarrow>
        n \<le> count \<and> length bytes = unat n)
     \<and> (\<forall>d i bytes count off n d'. flat_write fs d i bytes count off = (n, d') \<longrightarrow> n \<le> count)"

section \<open>A concrete file system\<close>

text \<open>A disk that is the content of one file, called \<open>a\<close>, at inode 64.\<close>

definition example_fs :: "u8 list file_system" where
  "example_fs = \<lparr>
     lookup_inode = (\<lambda>d name. if name = ''a'' then Some 64 else None),
     create_inode = (\<lambda>d name mode. (None, d)),
     inode_at = (\<lambda>d i. \<lparr>file_size = of_nat (length d), inode_mode = 1, s_pos = 0, e_pos = 4096\<rparr>),
     flat_read = (\<lambda>d i count off.
       let bytes = take (unat count) (drop (unat off) d) in (of_nat (length bytes), bytes)),
     flat_write = (\<lambda>d i bytes count off.
       (count, take (unat off) d @ take (unat count) bytes @ drop (unat off + unat count) d))\<rparr>"

lemma example_fs_ok: "file_system_ok example_fs"
proof -
  have "min k (unat count) < 2 ^ 32" for k and count :: u32
    using unsigned_less [of count, where ?'a = nat] by (simp add: min_less_iff_disj)
  then have len: "min k (unat count) mod 2 ^ 32 = min k (unat count)" for k and count :: u32
    by simp
  show ?thesis
    unfolding file_system_ok_def example_fs_def Let_def
    by (auto simp: word_le_nat_alt unat_of_nat len [simplified])
qed

definition example_open_file :: file_obj where
  "example_open_file = blank_file\<lparr>file_type := 3, ref_count := 1, file_mode := 3, offp := 2,
     file_inode := Some 64\<rparr>"

definition example_open_heap :: heap where
  "example_open_heap = empty_heap\<lparr>files := [4096 \<mapsto> example_open_file], file_objects := 1\<rparr>"

lemma example_open_sel:
  "files example_open_heap 4096 = Some example_open_file"
  "file_inode example_open_file = Some 64" "offp example_open_file = 2"
  "has_mode (file_mode example_open_file) (O_WRITE example_macros)"
  "has_mode (file_mode example_open_file) (O_READ example_macros)"
  by (simp_all add: example_open_heap_def example_open_file_def has_mode_def example_macros_def)

lemma example_open_returns:
  "\<exists>h' d'. do_regular_file_open example_macros example_allocator example_fs example_fds
      (Some ''a'') 1 0 empty_heap [5, 6, 7] = Returns (4, example_fds[4 := Some 4096], h', d')"
proof -
  have "free_slot example_fds 3 = Some 4"
    by code_simp
  then have "find_fd example_fds 3 = Returns (Some 4)"
    by (simp add: find_fd_def example_fds_def)
  moreover have "\<not> open_refused example_macros (inode_at example_fs [5, 6, 7] 64) 1"
    by code_simp
  ultimately show ?thesis
    by (simp add: do_regular_file_open_def alloc_file_def set_file_def Let_def example_fs_def
        example_allocator_def example_pages_def empty_heap_def has_flag_def)
qed

section \<open>Properties\<close>

text \<open>
  \<open>open\<close> returns the lowest free descriptor from 3 on and makes it refer to a new regular
  file object with offset 0 and one reference; or it returns an error and leaves the
  descriptors as they are.
\<close>

theorem do_regular_file_open_result:
  assumes "allocator_ok al"
    and "do_regular_file_open c al fs fds filename flags mode h d = Returns (r, fds', h', d')"
  shows "(r = - EINVAL c \<or> r = - EOTHERS c \<or> r = - EACCES c) \<and> fds' = fds
    \<or> (\<exists>fd a g. free_slot fds 3 = Some fd \<and> r = of_nat fd \<and> fds' = fds[fd := Some a]
        \<and> files h a = None \<and> files h' = (files h)(a \<mapsto> g) \<and> pipes h' = pipes h
        \<and> file_type g = REGULAR c \<and> offp g = 0 \<and> ref_count g = 1)"
proof -
  from do_regular_file_open_cases [OF assms] consider
      "r = - EINVAL c \<or> r = - EOTHERS c \<or> r = - EACCES c" "fds' = fds"
    | a g where "files h a = None" "ref_count g = 1" "file_type g = REGULAR c" "offp g = 0"
        "h' = add_file a g h" "case free_slot fds 3 of
             None \<Rightarrow> r = - EOTHERS c \<and> fds' = fds
           | Some fd \<Rightarrow> r = of_nat fd \<and> fds' = fds[fd := Some a]"
    by blast
  then show ?thesis
  proof cases
    case 2
    then show ?thesis
      by (cases "free_slot fds 3") (auto simp: add_file_def)
  qed simp
qed

theorem do_regular_file_open_result_witness:
  "\<exists>fds' h' d'. do_regular_file_open example_macros example_allocator example_fs example_fds
      (Some ''a'') 1 0 empty_heap [5, 6, 7] = Returns (4, fds', h', d')
    \<and> (\<exists>a g. fds' = example_fds[4 := Some a] \<and> files h' = [a \<mapsto> g] \<and> ref_count g = 1)"
proof -
  obtain h' d' where r: "do_regular_file_open example_macros example_allocator example_fs example_fds
      (Some ''a'') 1 0 empty_heap [5, 6, 7] = Returns (4, example_fds[4 := Some 4096], h', d')"
    using example_open_returns by blast
  have "free_slot example_fds 3 = Some 4"
    by code_simp
  with do_regular_file_open_result [OF example_allocator_ok r] show ?thesis
    unfolding r by (auto simp: example_macros_def empty_heap_def)
qed

lemma has_mode_xor:
  "x AND y = 0 \<Longrightarrow> has_mode (ucast (flags XOR ucast x)) y \<longleftrightarrow> has_flag flags y"
  for flags :: u64 and x y :: u32
proof -
  assume "x AND y = 0"
  then have xy: "bit x n \<Longrightarrow> bit y n \<Longrightarrow> False" for n
    by (metis bit_and_iff bit_0_eq bot_apply bot_bool_def)
  have len: "bit y n \<Longrightarrow> n < 32" for n
    using bit_imp_le_length [of y n] by simp
  then have len64: "bit y n \<Longrightarrow> n < 64" for n
    by fastforce
  show ?thesis
    unfolding has_mode_def has_flag_def bit_eq_iff
    using xy len len64 by (auto simp: bit_simps)
qed

text \<open>
  C28: A successful \<open>open\<close> of an existing file gives a descriptor that can read only if the
  inode may be read and write only if the inode may be written.
\<close>

theorem do_regular_file_open_permissions:
  assumes "allocator_ok al" "O_CREAT c AND O_WRITE c = 0" "O_CREAT c AND O_READ c = 0"
    and "lookup_inode fs d name = Some i"
    and "do_regular_file_open c al fs fds (Some name) flags mode h d = Returns (r, fds', h', d')"
    and "fds' \<noteq> fds"
  shows "\<exists>fd a g. fds' = fds[fd := Some a] \<and> files h' a = Some g \<and> file_inode g = Some i
    \<and> (has_mode (file_mode g) (O_WRITE c) \<longrightarrow> has_mode (inode_mode (inode_at fs d i)) (O_WRITE c))
    \<and> (has_mode (file_mode g) (O_READ c) \<longrightarrow> has_mode (inode_mode (inode_at fs d i)) (O_READ c))"
proof -
  have a: "\<not> open_refused c (inode_at fs d i) flags" and
    n: "file_page al (files h) \<noteq> None"
    using assms(4-6)
    by (auto simp: do_regular_file_open_def alloc_file_def Let_def split: if_splits option.splits)
  then obtain a f where af: "file_page al (files h) = Some (a, f)"
    by auto
  let ?g = "regular_file c (ucast (flags XOR ucast (O_CREAT c))) i (f\<lparr>fops := no_fops\<rparr>)"
  obtain fd where "fds' = fds[fd := Some a]" "h' = add_file a ?g h"
    using assms(4-6)
    by (auto simp: do_regular_file_open_def alloc_file_then [OF af] find_fd_def Let_def
        split: if_splits option.splits)
  then show ?thesis
    using a assms(2,3)
    by (intro exI [of _ fd] exI [of _ a] exI [of _ ?g])
      (auto simp: add_file_def regular_file_def open_refused_def has_mode_xor)
qed

theorem do_regular_file_open_permissions_witness:
  "\<exists>fds' h' d'. do_regular_file_open example_macros example_allocator example_fs example_fds
      (Some ''a'') 1 0 empty_heap [5, 6, 7] = Returns (4, fds', h', d')
    \<and> (\<exists>fd a g. fds' = example_fds[fd := Some a] \<and> files h' a = Some g
       \<and> \<not> has_mode (file_mode g) (O_WRITE example_macros))"
proof -
  obtain h' d' where r: "do_regular_file_open example_macros example_allocator example_fs example_fds
      (Some ''a'') 1 0 empty_heap [5, 6, 7] = Returns (4, example_fds[4 := Some 4096], h', d')"
    using example_open_returns by blast
  have "lookup_inode example_fs [5, 6, 7] ''a'' = Some 64"
    "\<not> has_mode (inode_mode (inode_at example_fs [5, 6, 7] 64)) (O_WRITE example_macros)"
    "O_CREAT example_macros AND O_WRITE example_macros = 0"
    "O_CREAT example_macros AND O_READ example_macros = 0"
    by (simp_all add: example_fs_def has_mode_def example_macros_def)
  moreover have "example_fds[4 := Some 4096] \<noteq> example_fds"
    by (simp add: example_fds_def)
  ultimately show ?thesis
    using do_regular_file_open_permissions [OF example_allocator_ok _ _ _ r, of 64] r by blast
qed

text \<open>
  C29: Writing never moves the offset beyond 4096: a write that would end behind it is refused
  with \<open>-EOTHERS\<close> and changes nothing (when \<open>offset + count\<close> fits in 32 bits).
\<close>

theorem do_write_regular_bounded:
  assumes "file_system_ok fs" "files h a = Some f" "file_inode f = Some i"
    and "has_mode (file_mode f) (O_WRITE c)" "unat (offp f) + unat count < 2 ^ 32"
  shows "if unat (offp f) + unat count > 4096
    then do_write_regular c fs (Some a) (Some bytes) count h d = Returns (- EOTHERS c, h, d)
    else \<exists>n d' f'. do_write_regular c fs (Some a) (Some bytes) count h d
          = Returns (n, h\<lparr>files := (files h)(a \<mapsto> f')\<rparr>, d')
        \<and> flat_write fs d i bytes count (offp f) = (n, d') \<and> n \<le> count
        \<and> f' = f\<lparr>offp := offp f + n\<rparr> \<and> unat (offp f') = unat (offp f) + unat n
        \<and> unat (offp f') \<le> 4096"
proof -
  have s: "unat (offp f + count) = unat (offp f) + unat count"
    using assms(5) by (subst unat_add_lem [THEN iffD1]) simp_all
  show ?thesis
  proof (cases "unat (offp f) + unat count > 4096")
    case True
    then show ?thesis
      using assms(2,4) s by (simp add: do_write_regular_def with_regular_def word_less_nat_alt)
  next
    case False
    obtain n d' where nd: "flat_write fs d i bytes count (offp f) = (n, d')"
      by fastforce
    then have n: "n \<le> count"
      using assms(1) unfolding file_system_ok_def by blast
    then have "unat (offp f + n) = unat (offp f) + unat n"
      using assms(5) by (subst unat_add_lem [THEN iffD1]) (simp_all add: word_le_nat_alt)
    then show ?thesis
      using assms(2-4) False s nd n
      by (simp add: do_write_regular_def with_regular_def word_less_nat_alt word_le_nat_alt)
  qed
qed

theorem do_write_regular_bounded_witness:
  "do_write_regular example_macros example_fs (Some 4096) (Some [1]) 4095 example_open_heap [5, 6, 7]
     = Returns (- EOTHERS example_macros, example_open_heap, [5, 6, 7])"
  using do_write_regular_bounded [OF example_fs_ok, of example_open_heap 4096 example_open_file 64
      example_macros 4095 "[1]" "[5, 6, 7]"]
  by (simp add: example_open_sel)

text \<open>
  Reading at an offset within the file asks the file system for at most what is left of it
  and never moves the offset beyond the end of the file.
\<close>

theorem do_read_regular_bounded:
  assumes "file_system_ok fs" "files h a = Some f" "file_inode f = Some i"
    and "has_mode (file_mode f) (O_READ c)" "unat (offp f) + unat count < 2 ^ 32"
    and "offp f \<le> file_size (inode_at fs d i)"
  shows "\<exists>n bytes f'. do_read_regular c fs (Some a) True count h d
      = Returns (n, bytes, h\<lparr>files := (files h)(a \<mapsto> f')\<rparr>)
    \<and> length bytes = unat n
    \<and> unat n \<le> min (unat count) (unat (file_size (inode_at fs d i)) - unat (offp f))
    \<and> f' = f\<lparr>offp := offp f + n\<rparr> \<and> unat (offp f') = unat (offp f) + unat n
    \<and> offp f' \<le> file_size (inode_at fs d i)"
proof -
  let ?s = "file_size (inode_at fs d i)"
  let ?c = "if offp f + count > ?s then ?s - offp f else count"
  have s: "unat (offp f + count) = unat (offp f) + unat count"
    using assms(5) by (subst unat_add_lem [THEN iffD1]) simp_all
  have m: "unat (?s - offp f) = unat ?s - unat (offp f)"
    using assms(6) by (simp add: unat_sub)
  have u: "unat (offp f) \<le> unat ?s"
    using assms(6) by (simp add: word_le_nat_alt)
  then have c: "unat ?c = min (unat count) (unat ?s - unat (offp f))"
    using s m by (auto simp: word_less_nat_alt min_def)
  obtain n bytes where nb: "flat_read fs d i ?c (offp f) = (n, bytes)"
    by fastforce
  then have n: "n \<le> ?c" "length bytes = unat n"
    using assms(1) unfolding file_system_ok_def by blast+
  then have n': "unat n \<le> min (unat count) (unat ?s - unat (offp f))"
    using c by (simp add: word_le_nat_alt)
  moreover have "unat (offp f + n) = unat (offp f) + unat n"
    using assms(5) n' by (subst unat_add_lem [THEN iffD1]) simp_all
  ultimately show ?thesis
    using assms(2-4) nb n(2) u
    by (auto simp: do_read_regular_def with_regular_def Let_def word_le_nat_alt)
qed

theorem do_read_regular_bounded_witness:
  "\<exists>n bytes f'. do_read_regular example_macros example_fs (Some 4096) True 10 example_open_heap [5, 6, 7]
      = Returns (n, bytes, example_open_heap\<lparr>files := (files example_open_heap)(4096 \<mapsto> f')\<rparr>)
    \<and> unat n \<le> 1"
proof -
  have "file_size (inode_at example_fs [5, 6, 7] 64) = 3"
    by (simp add: example_fs_def)
  then show ?thesis
    using do_read_regular_bounded [OF example_fs_ok, of example_open_heap 4096 example_open_file 64
        example_macros 10 "[5, 6, 7]"]
    by (simp add: example_open_sel) blast
qed

text \<open>The position a seek is relative to.\<close>

definition lseek_base :: "file_macros \<Rightarrow> file_obj \<Rightarrow> inode \<Rightarrow> i32 \<Rightarrow> int option" where
  "lseek_base c f ino whence =
     (if whence = SEEK_SET c then Some 0
      else if whence = SEEK_CUR c then Some (uint (offp f))
      else if whence = SEEK_END c then Some (uint (file_size ino))
      else None)"

lemma sint_of_int64: "- (2 ^ 63) \<le> k \<Longrightarrow> k < 2 ^ 63 \<Longrightarrow> sint (word_of_int k :: i64) = k"
  unfolding sint_sbintrunc' by (rule signed_take_bit_int_eq_self) simp_all

lemma seek_sum: "offset + ucast w = (word_of_int (sint offset + uint w) :: i64)"
  for offset :: i64 and w :: u32
  unfolding wi_hom_add [symmetric] ucast_eq by simp

lemma seek_range:
  fixes x y :: int
  assumes "- (2 ^ 62) \<le> x" "x < 2 ^ 62" "0 \<le> y" "y < 2 ^ 32"
  shows "- (2 ^ 63) \<le> x + y" "x + y < 2 ^ 63"
  using assms by simp_all

lemma sint_offset_add:
  fixes offset :: i64 and w :: u32
  assumes "- (2 ^ 62) \<le> sint offset" "sint offset < 2 ^ 62"
  shows "sint (offset + ucast w) = sint offset + uint w"
proof -
  have "uint w < 2 ^ 32"
    using uint_lt2p [of w] by simp
  from seek_range [OF assms uint_ge_0 this] show ?thesis
    unfolding seek_sum by (rule sint_of_int64)
qed

lemma ucast_offset: "(ucast offset :: u32) = word_of_int (sint offset)" for offset :: i64
  using to_int_word_of_int [of "sint offset"] by (simp add: to_int_def)

lemma seek_target: "w + ucast offset = (word_of_int (uint w + sint offset) :: u32)"
  for offset :: i64 and w :: u32
  unfolding wi_hom_add [symmetric] ucast_offset by simp

lemma uint_seek_target: "uint (word_of_int k :: u32) = k mod 2 ^ 32"
  unfolding uint_word_of_int by simp

text \<open>
  \<open>lseek\<close> in terms of integers. The new position is the base (0, the offset, or the file
  size) plus the given offset; a negative one is refused. Otherwise it is reduced to 32 bits
  before it is compared with the size of the inode's blocks, becomes the offset and is
  returned; a refused seek leaves the offset as it was.
\<close>

theorem do_lseek_regular_moves:
  assumes "files h a = Some f" "file_inode f = Some i"
    and "- (2 ^ 62) \<le> sint offset" "sint offset < 2 ^ 62"
  shows "do_lseek_regular c fs (Some a) offset whence h d =
    (case lseek_base c f (inode_at fs d i) whence of
       None \<Rightarrow> Returns (sx (- EINVAL c), h)
     | Some b \<Rightarrow>
         if b + sint offset < 0
           \<or> uint (e_pos (inode_at fs d i) - s_pos (inode_at fs d i)) < (b + sint offset) mod 2 ^ 32
         then Returns (sx (- EINVAL c), h)
         else Returns (word_of_int ((b + sint offset) mod 2 ^ 32),
                h\<lparr>files := (files h)(a \<mapsto> f\<lparr>offp := word_of_int (b + sint offset)\<rparr>)\<rparr>))"
proof -
  let ?ino = "inode_at fs d i"
  have t: "lseek_target c f (Some ?ino) offset whence = Returns
      (case lseek_base c f ?ino whence of
         None \<Rightarrow> None
       | Some b \<Rightarrow> if b + sint offset < 0 then None else Some (word_of_int (b + sint offset)))"
    using sint_offset_add [OF assms(3,4)]
    by (simp add: lseek_target_def lseek_base_def seek_target ucast_offset add.commute)
  have g: "(word_of_int k :: u32) > e_pos ?ino - s_pos ?ino
      \<longleftrightarrow> uint (e_pos ?ino - s_pos ?ino) < k mod 2 ^ 32" for k
    unfolding word_less_def uint_seek_target ..
  have u: "(ucast (word_of_int k :: u32) :: i64) = word_of_int (k mod 2 ^ 32)" for k
    unfolding ucast_eq uint_seek_target ..
  show ?thesis
  proof (cases "lseek_base c f ?ino whence")
    case None
    with t assms(1,2) show ?thesis
      by (simp add: do_lseek_regular_def with_regular_def)
  next
    case (Some b)
    define k where "k = b + sint offset"
    have "lseek_target c f (Some ?ino) offset whence
        = Returns (if k < 0 then None else Some (word_of_int k))"
      unfolding t Some k_def by simp
    with assms(1,2) show ?thesis
      unfolding Some k_def [symmetric] option.case
      by (simp add: do_lseek_regular_def with_regular_def g u)
  qed
qed

theorem do_lseek_regular_moves_witness:
  "do_lseek_regular example_macros example_fs (Some 4096) 3 1 example_open_heap [5, 6, 7]
     = Returns (5, example_open_heap\<lparr>files :=
         (files example_open_heap)(4096 \<mapsto> example_open_file\<lparr>offp := 5\<rparr>)\<rparr>)"
proof -
  have "lseek_base example_macros example_open_file (inode_at example_fs [5, 6, 7] 64) 1 = Some 2"
    "e_pos (inode_at example_fs [5, 6, 7] 64) - s_pos (inode_at example_fs [5, 6, 7] 64) = 4096"
    by (simp_all add: lseek_base_def example_macros_def example_open_file_def example_fs_def)
  then show ?thesis
    using do_lseek_regular_moves [of example_open_heap 4096 example_open_file 64 3 example_macros
        example_fs 1 "[5, 6, 7]"]
    by (simp add: example_open_sel)
qed

end
