(* ===== verification/File_Calls.thy ===== *)
theory File_Calls
  imports Pipe Regular_File
begin

text \<open>
  Sequences of the descriptor operations of \<open>src/Assignment2\<close> by several processes: opening,
  duplicating, creating pipes, closing, fork and exit. The callers in the kernel are not part
  of the repository; a step does what their contract with the operations requires: fork
  copies the table and calls \<open>do_file_fork\<close> for the copy, exit calls \<open>do_file_exit\<close> and
  drops the table, close calls \<open>generic_close\<close> and clears the descriptor.
\<close>

section \<open>The steps\<close>

record 'd fsys_state =
  tables :: "fd_table list"
  heap_of :: heap
  disk :: 'd

datatype file_call =
    F_Open nat "string option" u64 u64
  | F_Std nat u32
  | F_Dup nat i32
  | F_Dup2 nat i32 i32
  | F_Pipe nat
  | F_Close nat i32
  | F_Fork nat
  | F_Exit nat

definition call_pid :: "file_call \<Rightarrow> nat" where
  "call_pid call =
     (case call of F_Open p _ _ _ \<Rightarrow> p | F_Std p _ \<Rightarrow> p | F_Dup p _ \<Rightarrow> p | F_Dup2 p _ _ \<Rightarrow> p
      | F_Pipe p \<Rightarrow> p | F_Close p _ \<Rightarrow> p | F_Fork p \<Rightarrow> p | F_Exit p \<Rightarrow> p)"

definition proc_step ::
  "file_macros \<Rightarrow> allocator \<Rightarrow> 'd file_system \<Rightarrow> file_call \<Rightarrow> fd_table \<Rightarrow> heap \<Rightarrow> 'd
     \<Rightarrow> (i32 \<times> fd_table list \<times> heap \<times> 'd) run" where
  "proc_step c al fs call fds h d =
     (case call of
        F_Open _ name flags mode \<Rightarrow>
          run_bind (do_regular_file_open c al fs fds name flags mode h d)
            (\<lambda>(r, t, h', d'). Returns (r, [t], h', d'))
      | F_Std _ type \<Rightarrow>
          run_bind (open_standard_IO c al fds type h)
            (\<lambda>(fd, t, h'). Returns (of_nat fd, [t], h', d))
      | F_Dup _ old \<Rightarrow> run_bind (fd_dup c fds old h) (\<lambda>(r, t, h'). Returns (r, [t], h', d))
      | F_Dup2 _ old new \<Rightarrow>
          run_bind (fd_dup2 c fds old new h) (\<lambda>(r, t, h'). Returns (r, [t], h', d))
      | F_Pipe _ \<Rightarrow>
          run_bind (create_pipe c al fds h) (\<lambda>(r, ends, t, h'). Returns (r, [t], h', d))
      | F_Close _ fd \<Rightarrow>
          (case fd_at fds fd of
             None \<Rightarrow> Returns (- EINVAL c, [fds], h, d)
           | Some a \<Rightarrow>
               run_bind (generic_close c (Some a) h)
                 (\<lambda>(r, h'). Returns (ucast r, [fds[nat (sint fd) := None]], h', d)))
      | F_Fork _ \<Rightarrow> run_bind (do_file_fork fds h) (\<lambda>h'. Returns (0, [fds, fds], h', d))
      | F_Exit _ \<Rightarrow> run_bind (do_file_exit c fds h) (\<lambda>h'. Returns (0, [], h', d)))"

text \<open>
  A step of process \<open>i\<close> replaces its table by those \<^const>\<open>proc_step\<close> returns: itself, itself
  and its child, or none. The number of processes is bounded so that the 32-bit reference
  counts cannot overflow.
\<close>

definition too_many :: "file_macros \<Rightarrow> file_call \<Rightarrow> fd_table list \<Rightarrow> bool" where
  "too_many c call ts \<longleftrightarrow>
     (case call of F_Fork _ \<Rightarrow> (length ts + 1) * MAX_OPEN_FILES c > 2 ^ 30 | _ \<Rightarrow> False)"

definition file_step ::
  "file_macros \<Rightarrow> allocator \<Rightarrow> 'd file_system \<Rightarrow> file_call \<Rightarrow> 'd fsys_state
     \<Rightarrow> (i32 \<times> 'd fsys_state) run" where
  "file_step c al fs call s =
     (let i = call_pid call; ts = tables s in
      if i \<ge> length ts \<or> too_many c call ts then Returns (- EINVAL c, s)
      else
        run_bind (proc_step c al fs call (ts ! i) (heap_of s) (disk s)) (\<lambda>(r, new, h', d').
          Returns (r, \<lparr>tables = take i ts @ new @ drop (Suc i) ts, heap_of = h', disk = d'\<rparr>)))"

section \<open>The invariant\<close>

definition ref_total :: "fd_table list \<Rightarrow> u64 \<Rightarrow> nat" where
  "ref_total ts a = (\<Sum>t\<leftarrow>ts. fd_count t a)"

lemma ref_total_simps [simp]:
  "ref_total [] a = 0"
  "ref_total (t # ts) a = fd_count t a + ref_total ts a"
  "ref_total (ts @ us) a = ref_total ts a + ref_total us a"
  by (simp_all add: ref_total_def)

definition tables_ok :: "file_macros \<Rightarrow> fd_table list \<Rightarrow> bool" where
  "tables_ok c ts \<longleftrightarrow>
     (\<forall>t \<in> set ts. length t = MAX_OPEN_FILES c) \<and> length ts * MAX_OPEN_FILES c \<le> 2 ^ 30"

text \<open>
  \<open>leak\<close> counts the file objects an \<open>open\<close> on a full table has left behind; they have no
  descriptor.
\<close>

definition file_inv ::
  "file_macros \<Rightarrow> allocator \<Rightarrow> (u64 \<Rightarrow> nat) \<Rightarrow> 'd fsys_state \<Rightarrow> bool" where
  "file_inv c al leak s \<longleftrightarrow>
     file_macros_ok c \<and> allocator_ok al \<and> tables_ok c (tables s) \<and> (\<forall>a. leak a \<le> 1)
     \<and> refs_ok c (heap_of s) (\<lambda>a. ref_total (tables s) a + leak a)"

lemma ref_total_le:
  "\<forall>t \<in> set ts. length t = m \<Longrightarrow> ref_total ts a \<le> length ts * m"
proof (induction ts)
  case (Cons t ts)
  then show ?case
    using fd_count_le [of t a] by simp
qed simp

text \<open>The results of a step that left a file object behind.\<close>

definition leaked :: "file_macros \<Rightarrow> file_call \<Rightarrow> i32 \<Rightarrow> bool" where
  "leaked c call r \<longleftrightarrow> (case call of F_Open _ _ _ _ \<Rightarrow> r = - EOTHERS c | _ \<Rightarrow> False)"

definition std_type_ok :: "file_macros \<Rightarrow> file_call \<Rightarrow> bool" where
  "std_type_ok c call \<longleftrightarrow> (case call of F_Std _ type \<Rightarrow> type \<noteq> PIPE c | _ \<Rightarrow> True)"

lemma proc_step_ok:
  assumes "file_macros_ok c" "allocator_ok al" "length fds = MAX_OPEN_FILES c"
    and "refs_ok c h (\<lambda>a. fd_count fds a + m a)"
    and "\<forall>a. fd_count fds a + m a + length fds < 2 ^ 32" "std_type_ok c call"
    and "proc_step c al fs call fds h d = Returns (r, new, h', d')"
  shows "(\<forall>t \<in> set new. length t = length fds)
    \<and> length new \<le> (case call of F_Fork _ \<Rightarrow> 2 | _ \<Rightarrow> 1)
    \<and> (refs_ok c h' (\<lambda>a. ref_total new a + m a)
       \<or> leaked c call r \<and> new = [fds]
         \<and> (\<exists>x. files h x = None
              \<and> refs_ok c h' (\<lambda>a. fd_count fds a + m a + (if a = x then 1 else 0))))"
proof -
  have pos: "0 < length fds"
    using assms(1,3) by (simp add: file_macros_ok_def)
  have "fd_count fds a + m a + 1 < 2 ^ 32" for a
    using assms(5) [rule_format, of a] pos by linarith
  then have bound: "\<forall>a. fd_count fds a + m a + 1 < 2 ^ 32"
    by blast
  show ?thesis
  proof (cases call)
    case (F_Open p name flags mode)
    then obtain t where "do_regular_file_open c al fs fds name flags mode h d = Returns (r, t, h', d')"
      "new = [t]"
      using assms(7) by (auto simp: proc_step_def run_bind_eq_Returns)
    with do_regular_file_open_spec [OF assms(1,2,4) this(1)] F_Open show ?thesis
      by (auto simp: leaked_def)
  next
    case (F_Std p type)
    then obtain fd t where o: "open_standard_IO c al fds type h = Returns (fd, t, h')" "new = [t]"
      using assms(7) by (auto simp: proc_step_def run_bind_eq_Returns)
    have "type \<noteq> PIPE c"
      using assms(6) F_Std by (simp add: std_type_ok_def)
    from open_standard_IO_spec [OF assms(1,2) this assms(4) bound o(1)] o(2) F_Std show ?thesis
      by simp
  next
    case (F_Dup p old)
    with fd_dup_spec [OF assms(1,3,4) bound, of old] assms(7) show ?thesis
      by (auto simp: proc_step_def run_bind_eq_Returns)
  next
    case (F_Dup2 p old n)
    with fd_dup2_spec [OF assms(1,3,4) bound, of old n] assms(7) show ?thesis
      by (auto simp: proc_step_def run_bind_eq_Returns)
  next
    case (F_Pipe p)
    then obtain res t where o: "create_pipe c al fds h = Returns (r, res, t, h')" "new = [t]"
      using assms(7) by (auto simp: proc_step_def run_bind_eq_Returns)
    from create_pipe_spec [OF assms(1,2,4) o(1)] o(2) F_Pipe show ?thesis
      by simp
  next
    case (F_Close p fd)
    show ?thesis
    proof (cases "fd_at fds fd")
      case None
      with assms(4,7) F_Close show ?thesis
        by (auto simp: proc_step_def)
    next
      case (Some a)
      note at = fd_at_Some [OF Some]
      have "0 < fd_count fds a + m a"
        using at fd_count_pos [of "nat (sint fd)" fds a] by simp
      then obtain h1 where h1: "generic_close c (Some a) h = Returns (0, h1)"
        "refs_ok c h1 ((\<lambda>a. fd_count fds a + m a)(a := fd_count fds a + m a - 1))"
        using generic_close_spec [OF assms(1,4), of a] by auto
      have "(\<lambda>a. fd_count fds a + m a)(a := fd_count fds a + m a - 1)
          = (\<lambda>x. fd_count (fds[nat (sint fd) := None]) x + m x)"
        using at fd_count_pos [of "nat (sint fd)" fds a] by (auto simp: fd_count_update)
      with h1 Some assms(7) F_Close show ?thesis
        by (auto simp: proc_step_def)
    qed
  next
    case (F_Fork p)
    have "\<forall>a. fd_count fds a + m a + fd_count fds a < 2 ^ 32"
    proof
      fix a
      show "fd_count fds a + m a + fd_count fds a < 2 ^ 32"
        using assms(5) [rule_format, of a] fd_count_le [of fds a] by linarith
    qed
    from do_file_fork_spec [OF assms(1,4) this] assms(7) F_Fork show ?thesis
      by (auto simp: proc_step_def ac_simps)
  next
    case (F_Exit p)
    with do_file_exit_spec [OF assms(1,4)] assms(7) show ?thesis
      by (auto simp: proc_step_def)
  qed
qed

lemma ref_total_split:
  "i < length ts \<Longrightarrow> ref_total ts a = ref_total (take i ts) a + (fd_count (ts ! i) a + ref_total (drop (Suc i) ts) a)"
  by (subst (1) id_take_nth_drop [of i ts]) simp_all

lemma file_step_ok:
  assumes "file_inv c al leak s" "std_type_ok c call" "file_step c al fs call s = Returns (r, s')"
  shows "\<exists>leak'. file_inv c al leak' s' \<and> (leaked c call r \<or> leak' = leak)"
proof (cases "call_pid call \<ge> length (tables s) \<or> too_many c call (tables s)")
  case True
  with assms show ?thesis
    by (auto simp: file_step_def Let_def)
next
  case False
  let ?ts = "tables s" and ?i = "call_pid call" and ?h = "heap_of s"
  let ?fds = "?ts ! ?i" and ?M = "MAX_OPEN_FILES c"
  define m where "m = (\<lambda>a. ref_total (take ?i ?ts) a + ref_total (drop (Suc ?i) ?ts) a + leak a)"
  have i: "?i < length ?ts"
    using False by simp
  note inv = assms(1) [unfolded file_inv_def]
  have t: "\<forall>t \<in> set ?ts. length t = ?M" "length ?ts * ?M \<le> 2 ^ 30"
    using inv by (simp_all add: tables_ok_def)
  have len: "length ?fds = ?M"
    using t(1) i by simp
  have tot: "ref_total ?ts a + leak a = fd_count ?fds a + m a" for a
    using ref_total_split [OF i] by (simp add: m_def)
  then have refs: "refs_ok c ?h (\<lambda>a. fd_count ?fds a + m a)"
    using inv by simp
  have "?M < 2 ^ 31"
    using inv by (simp add: file_macros_ok_def)
  have bound: "\<forall>a. fd_count ?fds a + m a + length ?fds < 2 ^ 32"
  proof
    fix a
    have "ref_total ?ts a \<le> 2 ^ 30" "leak a \<le> 1"
      using ref_total_le [OF t(1), of a] t(2) inv by auto
    then show "fd_count ?fds a + m a + length ?fds < 2 ^ 32"
      using tot [of a] len \<open>?M < 2 ^ 31\<close> by simp
  qed
  obtain new h' d' where st: "proc_step c al fs call ?fds ?h (disk s) = Returns (r, new, h', d')"
    and s': "s' = \<lparr>tables = take ?i ?ts @ new @ drop (Suc ?i) ?ts, heap_of = h', disk = d'\<rparr>"
    using assms(3) False by (auto simp: file_step_def Let_def run_bind_eq_Returns)
  note P = proc_step_ok [OF _ _ len refs bound assms(2) st]
  have n: "\<forall>t \<in> set new. length t = ?M" "length new \<le> (case call of F_Fork _ \<Rightarrow> 2 | _ \<Rightarrow> 1)"
    using P inv len by simp_all
  have l: "length (tables s') + 1 = length ?ts + length new"
    using i s' by simp
  have T: "tables_ok c (tables s')"
  proof -
    have "\<forall>t \<in> set (tables s'). length t = ?M"
      using t(1) n(1) s' by (auto dest: in_set_takeD in_set_dropD)
    moreover have "length (tables s') * ?M \<le> 2 ^ 30"
    proof (cases "\<exists>p. call = F_Fork p")
      case True
      then have "(length ?ts + 1) * ?M \<le> 2 ^ 30" "length (tables s') \<le> length ?ts + 1"
        using False n(2) l by (auto simp: too_many_def)
      then show ?thesis
        by (meson le_trans mult_le_mono1)
    next
      case no: False
      then have "length (tables s') \<le> length ?ts"
        using n(2) l by (cases call) auto
      then show ?thesis
        using t(2) by (meson le_trans mult_le_mono1)
    qed
    ultimately show ?thesis
      by (simp add: tables_ok_def)
  qed
  from P inv consider "refs_ok c h' (\<lambda>a. ref_total new a + m a)"
    | x where "leaked c call r" "new = [?fds]" "files ?h x = None"
        "refs_ok c h' (\<lambda>a. fd_count ?fds a + m a + (if a = x then 1 else 0))"
    by blast
  then show ?thesis
  proof cases
    case 1
    moreover have "ref_total new a + m a = ref_total (tables s') a + leak a" for a
      by (simp add: s' m_def)
    ultimately have "file_inv c al leak s'"
      using inv T s' by (simp add: file_inv_def)
    then show ?thesis
      by blast
  next
    case 2
    let ?leak = "leak(x := leak x + 1)"
    have "fd_count ?fds x + m x = 0"
      using refs 2(3) by (auto simp: refs_ok_def dest: spec [of _ x])
    then have "leak x = 0"
      by (simp add: m_def)
    then have "\<forall>a. ?leak a \<le> 1"
      using inv by simp
    moreover have "fd_count ?fds a + m a + (if a = x then 1 else 0) = ref_total (tables s') a + ?leak a" for a
      using 2(2) by (simp add: s' m_def)
    ultimately have "file_inv c al ?leak s'"
      using inv T s' 2(4) by (simp add: file_inv_def)
    with 2(1) show ?thesis
      by blast
  qed
qed

interpretation descriptors: component "file_step c al fs" "\<lambda>s. \<exists>leak. file_inv c al leak s"
    "std_type_ok c" for c al fs
proof
  show "\<exists>leak. file_inv c al leak s'"
    if "\<exists>leak. file_inv c al leak s" "std_type_ok c call" "file_step c al fs call s = Returns (r, s')"
    for s s' call r
    using that file_step_ok by blast
qed

interpretation tight: checked_component "file_step c al fs" "file_inv c al (\<lambda>a. 0)"
    "\<lambda>call r. std_type_ok c call \<and> \<not> leaked c call r" for c al fs
proof
  show "file_inv c al (\<lambda>a. 0) s'"
    if "file_inv c al (\<lambda>a. 0) s" "file_step c al fs call s = Returns (r, s')"
      "std_type_ok c call \<and> \<not> leaked c call r" for s s' call r
    using that file_step_ok by blast
qed

definition example_start :: "u8 list fsys_state" where
  "example_start = \<lparr>tables = [example_fds], heap_of = example_heap, disk = [5, 6, 7]\<rparr>"

definition run_tables :: "(i32 list \<times> 'd fsys_state) run \<Rightarrow> (i32 list \<times> fd_table list) option" where
  "run_tables r = (case r of Returns (rs, s) \<Rightarrow> Some (rs, tables s) | _ \<Rightarrow> None)"

lemma example_start_ok:
  "tables_ok example_macros (tables example_start)"
  "refs_ok example_macros (heap_of example_start) (ref_total (tables example_start))"
proof -
  have "ref_total (tables example_start) = (\<lambda>a. fd_count example_fds a + 0)"
    by (rule ext) (simp add: example_start_def)
  then show "refs_ok example_macros (heap_of example_start) (ref_total (tables example_start))"
    using example_heap_ok by (simp add: example_start_def)
qed (simp add: tables_ok_def example_start_def example_macros_def example_fds_def)

lemma run_tablesD: "run_tables r = Some (rs, ts) \<Longrightarrow> \<exists>s. r = Returns (rs, s) \<and> tables s = ts"
  by (auto simp: run_tables_def split: run.splits)


lemmas file_evals = example_start_def file_step_def call_pid_def too_many_def proc_step_def Let_def
  fd_at_def generic_close_def set_file_def free_file_object_def run_tables_def fd_dup_def
  fd_dup2_def find_fd_def free_slot_def upt_rec example_heap_def empty_heap_def example_fds_def
  example_macros_def example_file_def blank_file_def

section \<open>Properties\<close>

text \<open>
  C14: No dangling descriptors. Whatever processes do with their descriptors, in any
  interleaving, every descriptor refers to a live file object whose count is at least the
  number of descriptors that refer to it, and the pipe of a pipe's end is live.
\<close>

theorem descriptors_never_dangle:
  assumes "file_macros_ok c" "allocator_ok al" "tables_ok c (tables s)"
    and "refs_ok c (heap_of s) (ref_total (tables s))"
    and "\<forall>call \<in> set calls. std_type_ok c call"
    and "run_ops (file_step c al fs) calls s = Returns (rs, s')"
    and "t \<in> set (tables s')" "Some a \<in> set t"
  shows "\<exists>f. files (heap_of s') a = Some f
    \<and> ref_total (tables s') a \<le> unat (ref_count f)
    \<and> (file_type f = PIPE c \<longrightarrow> (\<exists>p i. file_pipe f = Some p \<and> pipes (heap_of s') p = Some i))"
proof -
  have "file_inv c al (\<lambda>a. 0) s"
    using assms(1-4) by (simp add: file_inv_def)
  then have "\<exists>leak. file_inv c al leak s"
    by blast
  from descriptors.run_inv [OF this assms(5,6)] obtain leak where "file_inv c al leak s'"
    by blast
  then have r: "refs_ok c (heap_of s') (\<lambda>a. ref_total (tables s') a + leak a)"
    by (simp add: file_inv_def)
  have "0 < fd_count t a"
    using assms(8) by (auto simp: fd_count_def count_list_0_iff intro!: gr0I)
  moreover have "fd_count t a \<le> ref_total (tables s') a"
    using assms(7) by (auto simp: ref_total_def intro!: member_le_sum_list)
  ultimately have "0 < ref_total (tables s') a + leak a"
    by linarith
  from refs_ok_live [OF r this] obtain f where
    f: "files (heap_of s') a = Some f" "unat (ref_count f) = ref_total (tables s') a + leak a"
    by blast
  with r show ?thesis
    unfolding refs_ok_def pipes_ok_def by (metis le_add1)
qed

theorem descriptors_never_dangle_witness:
  "\<exists>s' f. run_ops (file_step example_macros example_allocator example_fs)
      [F_Close 0 3, F_Fork 0, F_Dup 1 5, F_Dup2 1 0 3] example_start = Returns ([0, 0, 0, 3], s')
    \<and> files (heap_of s') 4096 = Some f \<and> 4 \<le> unat (ref_count f)"
proof -
  let ?calls = "[F_Close 0 3, F_Fork 0, F_Dup 1 5, F_Dup2 1 0 3]"
  let ?t = "[Some 4096, None, None, Some 4096, None, Some 4096, None, None]"
  have "run_tables (run_ops (file_step example_macros example_allocator example_fs) ?calls
      example_start) = Some ([0, 0, 0, 3], [[None, None, None, None, None, Some 4096, None, None], ?t])"
    by (simp add: file_evals)
  from run_tablesD [OF this] obtain s' where
    s': "run_ops (file_step example_macros example_allocator example_fs) ?calls example_start
        = Returns ([0, 0, 0, 3], s')"
      "tables s' = [[None, None, None, None, None, Some 4096, None, None], ?t]"
    by blast
  have "\<forall>call \<in> set ?calls. std_type_ok example_macros call"
    by (simp add: std_type_ok_def)
  from descriptors_never_dangle [OF example_macros_ok example_allocator_ok example_start_ok this s'(1),
      of ?t 4096]
  show ?thesis
    using s' by (auto simp: fd_count_def)
qed

text \<open>
  C15: Exact reference counts and no leaks. As long as no \<open>open\<close> fails on a full table, the
  count of every live file object is the number of its descriptors, and an object without
  descriptors is freed; so once every process has exited no file object and no pipe is left.
\<close>

theorem exits_free_everything:
  assumes "file_macros_ok c" "allocator_ok al" "tables_ok c (tables s)"
    and "refs_ok c (heap_of s) (ref_total (tables s))"
    and "list_all2 (\<lambda>call r. std_type_ok c call \<and> \<not> leaked c call r) calls rs"
    and "run_ops (file_step c al fs) calls s = Returns (rs, s')"
  shows "refs_ok c (heap_of s') (ref_total (tables s'))
    \<and> (tables s' = [] \<longrightarrow> (\<forall>a. files (heap_of s') a = None) \<and> (\<forall>p. pipes (heap_of s') p = None))"
proof -
  have "file_inv c al (\<lambda>a. 0) s"
    using assms(1-4) by (simp add: file_inv_def)
  from tight.good_run [OF this assms(6,5)] have r: "refs_ok c (heap_of s') (ref_total (tables s'))"
    by (simp add: file_inv_def)
  {
    assume "tables s' = []"
    with r have none: "files (heap_of s') a = None" for a
      by (cases "files (heap_of s') a") (auto simp: refs_ok_def dest: spec [of _ a])
    then have "\<not> pipe_end c (heap_of s') p m a" for p m a
      by (simp add: pipe_end_def)
    then have "pipes (heap_of s') p = None" for p
      using r unfolding refs_ok_def pipes_ok_def by (metis not_None_eq)
    with none have "(\<forall>a. files (heap_of s') a = None) \<and> (\<forall>p. pipes (heap_of s') p = None)"
      by blast
  }
  with r show ?thesis
    by blast
qed

theorem exits_free_everything_witness:
  "\<exists>s'. run_ops (file_step example_macros example_allocator example_fs)
      [F_Fork 0, F_Close 1 3, F_Exit 0, F_Exit 0] example_start = Returns ([0, 0, 0, 0], s')
    \<and> (\<forall>a. files (heap_of s') a = None) \<and> (\<forall>p. pipes (heap_of s') p = None)"
proof -
  let ?calls = "[F_Fork 0, F_Close 1 3, F_Exit 0, F_Exit 0]"
  have "run_tables (run_ops (file_step example_macros example_allocator example_fs) ?calls
      example_start) = Some ([0, 0, 0, 0], [])"
    by (simp add: file_evals)
  from run_tablesD [OF this] obtain s' where
    s': "run_ops (file_step example_macros example_allocator example_fs) ?calls example_start
        = Returns ([0, 0, 0, 0], s')" "tables s' = []"
    by blast
  have "list_all2 (\<lambda>call r. std_type_ok example_macros call \<and> \<not> leaked example_macros call r)
      ?calls [0, 0, 0, 0]"
    by (simp add: std_type_ok_def leaked_def)
  from exits_free_everything [OF example_macros_ok example_allocator_ok example_start_ok this s'(1)]
  show ?thesis
    using s' by auto
qed

end
