(* ===== verification/Bytes.thy ===== *)
theory Bytes
  imports Prelude
begin

text \<open>Little-endian words in a list of bytes, as x86-64 stores them.\<close>

unbundle bit_operations_syntax

definition load64 :: "u8 list \<Rightarrow> nat \<Rightarrow> u64" where
  "load64 bs p = fold (\<lambda>k acc. acc OR push_bit (8 * k) (ucast (bs ! (p + k)))) [0..<8] 0"

definition load32 :: "u8 list \<Rightarrow> nat \<Rightarrow> u32" where
  "load32 bs p = fold (\<lambda>k acc. acc OR push_bit (8 * k) (ucast (bs ! (p + k)))) [0..<4] 0"

definition store64 :: "u64 \<Rightarrow> u8 list" where
  "store64 w = List.map (\<lambda>k. ucast (drop_bit (8 * k) w)) [0..<8]"

definition store32 :: "u32 \<Rightarrow> u8 list" where
  "store32 w = List.map (\<lambda>k. ucast (drop_bit (8 * k) w)) [0..<4]"

lemma length_store [simp]: "length (store64 w) = 8" "length (store32 u) = 4"
  by (simp_all add: store64_def store32_def)

lemma bit_load:
  fixes acc :: "'a :: len word"
  shows "bit (fold (\<lambda>k acc. acc OR push_bit (8 * k) (ucast (f k :: u8))) ks acc) n \<longleftrightarrow>
    bit acc n \<or> (n < LENGTH('a) \<and> (\<exists>k \<in> set ks. 8 * k \<le> n \<and> bit (f k) (n - 8 * k)))"
  by (induction ks arbitrary: acc) (auto simp: bit_simps)

lemma bit_piece: "bit (ucast (drop_bit (8 * k) w) :: u8) i \<longleftrightarrow> i < 8 \<and> bit w (8 * k + i)"
  by (auto simp: bit_simps)

lemma load64_store [simp]: "load64 (xs @ store64 w @ ys) (length xs) = w"
proof (rule bit_word_eqI)
  fix n
  assume n: "n < LENGTH(64)"
  have "bit (load64 (xs @ store64 w @ ys) (length xs)) n \<longleftrightarrow>
      (\<exists>k < 8. 8 * k \<le> n \<and> bit (store64 w ! k) (n - 8 * k))"
    using n by (simp add: load64_def bit_load nth_append Bex_def)
  also have "\<dots> \<longleftrightarrow> (\<exists>k < 8. 8 * k \<le> n \<and> n - 8 * k < 8 \<and> bit w n)"
    by (auto simp: store64_def bit_piece)
  also have "\<dots> \<longleftrightarrow> bit w n"
    using n by (auto intro!: exI [of _ "n div 8"])
  finally show "bit (load64 (xs @ store64 w @ ys) (length xs)) n \<longleftrightarrow> bit w n" .
qed

lemma load32_store [simp]: "load32 (xs @ store32 w @ ys) (length xs) = w"
proof (rule bit_word_eqI)
  fix n
  assume n: "n < LENGTH(32)"
  have "bit (load32 (xs @ store32 w @ ys) (length xs)) n \<longleftrightarrow>
      (\<exists>k < 4. 8 * k \<le> n \<and> bit (store32 w ! k) (n - 8 * k))"
    using n by (simp add: load32_def bit_load nth_append Bex_def)
  also have "\<dots> \<longleftrightarrow> (\<exists>k < 4. 8 * k \<le> n \<and> n - 8 * k < 8 \<and> bit w n)"
    by (auto simp: store32_def bit_piece)
  also have "\<dots> \<longleftrightarrow> bit w n"
    using n by (auto intro!: exI [of _ "n div 8"])
  finally show "bit (load32 (xs @ store32 w @ ys) (length xs)) n \<longleftrightarrow> bit w n" .
qed

end
