(* ===== verification/Hash_Table.thy ===== *)
theory Hash_Table
  imports Prelude
begin

text \<open>
  The open-addressing hash tables of \<open>src/Assignment4\<close>: the data of
  \<open>Assignment4_Problem_Statement/part-3/common.h\<close>, the operations of \<open>parallel_hash.c\<close> as
  one thread executes them, and those of \<open>serial_hash.c\<close>. A deleted entry keeps the mark
  \<open>id = -1\<close>, so that probing goes on behind it. \<open>Hash_Map\<close> relates them to maps.
\<close>

section \<open>Data\<close>

record hash_entry =
  e_id :: u32
  e_datalen :: u32
  e_key :: u64
  e_data :: u64

text \<open>
  \<open>table_ptr\<close> is the pointer itself, which follows the field \<open>used\<close> in memory; \<open>table\<close> are the
  \<open>table_size\<close> entries it points to.
\<close>

record hash_t =
  table_size :: u32
  used :: u32
  table_ptr :: u64
  table :: "hash_entry list"

record op_t =
  op_id :: u64
  op_key :: u64
  op_type :: u32
  op_datalen :: u32
  op_data :: u64

definition hashfunc :: "u64 \<Rightarrow> u32 \<Rightarrow> u32" where
  "hashfunc key sz =
     (let hashval = drop_bit 32 key + (key AND 0xffffffff) in ucast (hashval mod ucast sz))"

definition zero_entry :: hash_entry where
  "zero_entry = \<lparr>e_id = 0, e_datalen = 0, e_key = 0, e_data = 0\<rparr>"

definition init_hashtable :: "u32 \<Rightarrow> u64 \<Rightarrow> hash_t" where
  "init_hashtable sz p =
     \<lparr>table_size = sz, used = 0, table_ptr = p, table = replicate (unat sz) zero_entry\<rparr>"

section \<open>Probing\<close>

text \<open>
  \<open>while (go(entry) && ctr != hashval - 1) { ctr = (ctr + 1) % table_size; ... }\<close>, with the
  final value of \<open>ctr\<close>. For \<open>hashval = 0\<close> the second condition never fails, and the loop may
  run for ever.
\<close>

partial_function (option) probe :: "(hash_entry \<Rightarrow> bool) \<Rightarrow> hash_t \<Rightarrow> u32 \<Rightarrow> u32 \<Rightarrow> u32 option" where
  "probe go h hashval ctr =
     (if go (table h ! unat ctr) \<and> ctr \<noteq> hashval - 1
      then probe go h hashval ((ctr + 1) mod table_size h)
      else Some ctr)"

declare probe.simps [code]

definition occupied :: "hash_entry \<Rightarrow> bool" where
  "occupied e \<longleftrightarrow> e_key e \<noteq> 0 \<or> e_id e = - 1"

definition search :: "u64 \<Rightarrow> hash_entry \<Rightarrow> bool" where
  "search k e \<longleftrightarrow> occupied e \<and> e_key e \<noteq> k"

definition search_free :: "u64 \<Rightarrow> hash_entry \<Rightarrow> bool" where
  "search_free k e \<longleftrightarrow> e_key e \<noteq> 0 \<and> e_key e \<noteq> k"

section \<open>The operations of one thread\<close>

definition lookup :: "hash_t \<Rightarrow> op_t \<Rightarrow> (i32 \<times> op_t) run" where
  "lookup h oper =
     (if table_size h = 0 then Faults
      else
        (let hashval = hashfunc (op_key oper) (table_size h) in
         run_bind (run_of_option (probe (search (op_key oper)) h hashval hashval)) (\<lambda>ctr.
           let entry = table h ! unat ctr in
           if e_key entry = op_key oper then
             Returns (0, oper\<lparr>op_datalen := e_datalen entry, op_data := e_data entry\<rparr>)
           else Returns (- 1, oper))))"

text \<open>
  \<open>atomic_add(&(h->used), val)\<close> adds to the eight bytes from \<open>used\<close> on: \<open>used\<close> and the lower
  half of the table pointer.
\<close>

definition add_used :: "i64 \<Rightarrow> hash_t \<Rightarrow> hash_t" where
  "add_used val h =
     (let w = (push_bit 32 (table_ptr h) OR ucast (used h)) + val in
      h\<lparr>used := ucast w,
        table_ptr := push_bit 32 (drop_bit 32 (table_ptr h)) OR drop_bit 32 w\<rparr>)"

definition update_entry :: "op_t \<Rightarrow> hash_entry \<Rightarrow> hash_entry" where
  "update_entry oper e =
     e\<lparr>e_id := ucast (op_id oper), e_datalen := op_datalen oper, e_data := op_data oper\<rparr>"

definition set_entry :: "u32 \<Rightarrow> hash_entry \<Rightarrow> hash_t \<Rightarrow> hash_t" where
  "set_entry ctr e h = h\<lparr>table := (table h)[unat ctr := e]\<rparr>"

text \<open>
  The second loop starts with \<open>ctr = hashval\<close>, but \<open>entry\<close> is still the slot where the first one
  ended; it tests that entry first and goes on with the slot behind \<open>hashval\<close>. The result is
  the slot of \<open>entry\<close>.
\<close>

definition second_probe :: "u64 \<Rightarrow> hash_t \<Rightarrow> u32 \<Rightarrow> u32 \<Rightarrow> u32 option" where
  "second_probe k h hashval ctr =
     (if search_free k (table h ! unat ctr)
      then probe (search_free k) h hashval ((hashval + 1) mod table_size h)
      else Some ctr)"

definition insert_update :: "hash_t \<Rightarrow> op_t \<Rightarrow> (i32 \<times> hash_t) run" where
  "insert_update h oper =
     (if table_size h = 0 \<or> \<not> used h < table_size h \<or> op_key oper = 0 then Faults
      else
        (let k = op_key oper; hashval = hashfunc k (table_size h) in
         run_bind (run_of_option (probe (search k) h hashval hashval)) (\<lambda>ctr.
           run_bind
             (if ctr = hashval - 1 then run_of_option (second_probe k h hashval ctr)
              else Returns ctr) (\<lambda>ctr.
           let entry = table h ! unat ctr in
           if e_key entry = k then Returns (0, set_entry ctr (update_entry oper entry) h)
           else Returns (0, add_used 1
                  (set_entry ctr ((update_entry oper entry)\<lparr>e_key := k\<rparr>) h))))))"

definition tombstone :: hash_entry where
  "tombstone = \<lparr>e_id = - 1, e_datalen = 0, e_key = 0, e_data = 0\<rparr>"

definition purge_key :: "hash_t \<Rightarrow> op_t \<Rightarrow> (i32 \<times> hash_t) run" where
  "purge_key h oper =
     (if table_size h = 0 then Faults
      else
        (let k = op_key oper; hashval = hashfunc k (table_size h) in
         run_bind (run_of_option (probe (search k) h hashval hashval)) (\<lambda>ctr.
           if e_key (table h ! unat ctr) = k then
             Returns (0, add_used (- 1) (set_entry ctr tombstone h))
           else Returns (- 1, h))))"

section \<open>A thread's loop and the final check\<close>

definition PUT :: u32 where "PUT = 0"
definition GET :: u32 where "GET = 1"
definition DEL :: u32 where "DEL = 2"

text \<open>One round of the loop in \<open>main.c\<close>: the return value and the operation's fields.\<close>

definition process_op :: "op_t \<Rightarrow> hash_t \<Rightarrow> ((i32 \<times> op_t) \<times> hash_t) run" where
  "process_op oper h =
     (if op_type oper = GET then run_bind (lookup h oper) (\<lambda>(ret, oper'). Returns ((ret, oper'), h))
      else if op_type oper = PUT then
        run_bind (insert_update h oper) (\<lambda>(ret, h'). Returns ((ret, oper), h'))
      else if op_type oper = DEL then
        run_bind (purge_key h oper) (\<lambda>(ret, h'). Returns ((ret, oper), h'))
      else Faults)"

text \<open>\<open>dump_hash_table\<close> counts the entries down from \<open>used\<close> and asserts that none is left.\<close>

definition dump_hash_table :: "hash_t \<Rightarrow> unit run" where
  "dump_hash_table h =
     (let lused = fold (\<lambda>entry lused. if e_key entry \<noteq> 0 then lused - 1 else lused)
          (take (unat (table_size h)) (table h)) (used h)
      in if lused = 0 then Returns () else Faults)"

section \<open>The serial version\<close>

text \<open>Its \<open>lookup\<close> is the same; \<open>assert\<close> aborts, and \<open>used\<close> is updated with \<open>++\<close> and \<open>--\<close>.\<close>

definition serial_insert_update :: "hash_t \<Rightarrow> op_t \<Rightarrow> (i32 \<times> hash_t) run" where
  "serial_insert_update h oper =
     (if table_size h = 0 \<or> \<not> used h < table_size h \<or> op_key oper = 0 then Faults
      else
        (let k = op_key oper; hashval = hashfunc k (table_size h) in
         run_bind (run_of_option (probe (search_free k) h hashval hashval)) (\<lambda>ctr.
           let entry = table h ! unat ctr in
           if ctr = hashval - 1 then Faults
           else if e_key entry = k then Returns (0, set_entry ctr (update_entry oper entry) h)
           else if e_key entry \<noteq> 0 then Faults
           else Returns (0, (set_entry ctr ((update_entry oper entry)\<lparr>e_key := k\<rparr>) h)
                  \<lparr>used := used h + 1\<rparr>))))"

definition serial_purge_key :: "hash_t \<Rightarrow> op_t \<Rightarrow> (i32 \<times> hash_t) run" where
  "serial_purge_key h oper =
     (if table_size h = 0 then Faults
      else
        (let k = op_key oper; hashval = hashfunc k (table_size h) in
         run_bind (run_of_option (probe (search k) h hashval hashval)) (\<lambda>ctr.
           if e_key (table h ! unat ctr) = k then
             Returns (0, (set_entry ctr tombstone h)\<lparr>used := used h - 1\<rparr>)
           else Returns (- 1, h))))"

end
