(* ===== verification/Hash_Map.thy ===== *)
theory Hash_Map
  imports Hash_Table
begin

text \<open>
  What the hash table operations compute. The abstract view \<open>hmap\<close> of a table is a map from
  keys to values; the invariant \<open>hash_ok\<close> says that every key stands on an unbroken probe
  sequence and in one slot only. The operations refine those of a map as long as a slot is
  left that was never used; what happens otherwise is shown for each.
\<close>

unbundle bit_operations_syntax

section \<open>What probing finds\<close>

text \<open>The \<open>j\<close>-th slot on the probe sequence that starts at slot \<open>s\<close> of \<open>n\<close>.\<close>

definition slot :: "nat \<Rightarrow> nat \<Rightarrow> nat \<Rightarrow> nat" where
  "slot n s j = (s + j) mod n"

lemma slot_less: "0 < n \<Longrightarrow> slot n s j < n"
  by (simp add: slot_def)

lemma slot_0: "s < n \<Longrightarrow> slot n s 0 = s"
  by (simp add: slot_def)

lemma slot_Suc: "(slot n s j + 1) mod n = slot n s (Suc j)"
  by (simp add: slot_def mod_Suc_eq)

lemma slot_inj:
  assumes "i < n" "j < n" "slot n s i = slot n s j"
  shows "i = j"
proof (rule ccontr)
  assume "i \<noteq> j"
  have "(int s + int i) mod int n = (int s + int j) mod int n"
    using assms(3) unfolding slot_def by (metis of_nat_add zmod_int)
  then have "int n dvd (int i - int j)"
    by (simp add: mod_eq_dvd_iff)
  moreover have "int i - int j \<noteq> 0"
    using \<open>i \<noteq> j\<close> by simp
  ultimately have "\<bar>int n\<bar> \<le> \<bar>int i - int j\<bar>"
    by (intro dvd_imp_le_int)
  with assms show False
    by linarith
qed

lemma slot_surj:
  assumes "s < n" "i < n"
  shows "\<exists>d < n. i = slot n s d"
proof (cases "s \<le> i")
  case True
  with assms show ?thesis
    by (intro exI [of _ "i - s"]) (simp add: slot_def)
next
  case False
  with assms have "slot n s (n - s + i) = i"
    by (simp add: slot_def)
  with False assms show ?thesis
    by (intro exI [of _ "n - s + i"]) simp
qed

lemma slot_last: "0 < s \<Longrightarrow> s < n \<Longrightarrow> slot n s (n - 1) = s - 1"
proof -
  assume a: "0 < s" "s < n"
  then have "s + (n - 1) = (s - 1) + n"
    by simp
  then have "slot n s (n - 1) = (s - 1) mod n"
    unfolding slot_def by (simp only: mod_add_self2)
  with a show ?thesis
    by (simp add: less_imp_diff_less)
qed

lemma unat_next:
  fixes ctr sz :: u32
  assumes "unat ctr < unat sz"
  shows "unat ((ctr + 1) mod sz) = (unat ctr + 1) mod unat sz"
proof -
  have "unat sz < 2 ^ 32"
    using unsigned_less [of sz, where ?'a = nat] by simp
  with assms have "unat (ctr + 1) = unat ctr + 1"
    by (subst unat_add_lem [THEN iffD1]) simp_all
  then show ?thesis
    by (simp add: unat_mod)
qed


lemma unat_max: "unat (- 1 :: u32) = 2 ^ 32 - 1"
  by (simp add: unsigned_minus_1_eq_mask mask_eq_exp_minus_1)

lemma ctr_last:
  fixes ctr hashval :: u32
  assumes "unat ctr = slot n s i" "i < n" "s = unat hashval" "s < n" "n < 2 ^ 32"
  shows "ctr = hashval - 1 \<longleftrightarrow> 0 < s \<and> i = n - 1" 
proof (cases "hashval = 0")
  case True
  have "unat ctr < n"
    using assms by (simp add: slot_less)
  moreover have "unat (- 1 :: u32) = 2 ^ 32 - 1"
    by (rule unat_max)
  ultimately have "ctr \<noteq> - 1"
    using assms(5) by auto
  with True assms(3) show ?thesis
    by simp
next
  case False
  then have s: "0 < s"
    using assms(3) by (simp add: unat_gt_0)
  then have "unat (hashval - 1) = s - 1"
    using assms(3) by (subst unat_sub) (simp_all add: word_le_nat_alt)
  then have "ctr = hashval - 1 \<longleftrightarrow> slot n s i = s - 1"
    using assms(1) by (simp add: word_unat_eq_iff)
  also have "\<dots> \<longleftrightarrow> i = n - 1"
    using slot_last [OF s assms(4)] slot_inj [of i n "n - 1" s] assms(2) s by auto
  finally show ?thesis
    using s by simp
qed

text \<open>
  Probing ends at the first slot of the sequence where the search stops or which is the last
  one of a sequence that does not start at slot 0.
\<close>

definition stops :: "(hash_entry \<Rightarrow> bool) \<Rightarrow> hash_t \<Rightarrow> nat \<Rightarrow> nat \<Rightarrow> bool" where
  "stops go h s j \<longleftrightarrow>
     (let n = unat (table_size h) in \<not> go (table h ! slot n s j) \<or> 0 < s \<and> j = n - 1)"

lemma probe_next:
  "go (table h ! unat ctr) \<and> ctr \<noteq> hashval - 1 \<Longrightarrow>
    probe go h hashval ctr = probe go h hashval ((ctr + 1) mod table_size h)"
  by (subst probe.simps) (rule if_P)

lemma probe_from:
  assumes "n = unat (table_size h)" "s = unat hashval" "s < n" "J < n" "stops go h s J"
    and "\<forall>j < J. m \<le> j \<longrightarrow> \<not> stops go h s j"
  shows "m \<le> i \<Longrightarrow> i \<le> J \<Longrightarrow> unat ctr = slot n s i \<Longrightarrow>
    \<exists>c. probe go h hashval ctr = Some c \<and> unat c = slot n s J"
proof (induction "J - i" arbitrary: i ctr)
  have n: "n < 2 ^ 32"
    using unsigned_less [of "table_size h", where ?'a = nat] assms(1) by simp
  {
    case 0
    then have "i = J"
      by simp
    then have "\<not> (go (table h ! unat ctr) \<and> ctr \<noteq> hashval - 1)"
      using assms(1,5) 0 ctr_last [OF 0(4) _ assms(2,3) n] assms(4)
      by (auto simp: stops_def Let_def)
    then have "probe go h hashval ctr = Some ctr"
      by (subst probe.simps) (simp only: if_False)
    with 0 \<open>i = J\<close> show ?case
      by simp
  next
    case (Suc d)
    then have i: "i < J" "i < n"
      using assms(4) by simp_all
    then have "\<not> stops go h s i"
      using assms(6) Suc(3) by simp
    then have go: "go (table h ! unat ctr) \<and> ctr \<noteq> hashval - 1"
      using assms(1) Suc ctr_last [OF Suc(5) i(2) assms(2,3) n] by (auto simp: stops_def Let_def)
    have "unat ctr < unat (table_size h)"
      using Suc(5) i(2) assms(1) by (simp add: slot_less)
    from unat_next [OF this] have "unat ((ctr + 1) mod table_size h) = slot n s (Suc i)"
      using Suc(5) assms(1) slot_Suc by simp
    moreover have "d = J - Suc i" "m \<le> Suc i" "Suc i \<le> J"
      using Suc(2,3) i(1) by simp_all
    ultimately have "\<exists>c. probe go h hashval ((ctr + 1) mod table_size h) = Some c \<and> unat c = slot n s J"
      by (intro Suc(1))
    then show ?case
      unfolding probe_next [where go = go, OF go] .
  }
qed

lemma probe_stops:
  assumes "s = unat hashval" "s < unat (table_size h)" "J < unat (table_size h)" "stops go h s J"
    and "\<forall>j < J. \<not> stops go h s j"
  shows "\<exists>c. probe go h hashval hashval = Some c \<and> unat c = slot (unat (table_size h)) s J"
proof (rule probe_from [OF refl assms(1-4), where m = 0 and i = 0])
  show "unat hashval = slot (unat (table_size h)) s 0"
    using slot_0 [OF assms(2)] assms(1) by simp
qed (use assms(5) in simp_all)

lemma probe_result:
  assumes "probe go h hashval ctr = Some c"
  shows "unat ctr < unat (table_size h) \<longrightarrow>
    unat c < unat (table_size h) \<and> (\<not> go (table h ! unat c) \<or> c = hashval - 1)"
proof (rule probe.raw_induct [where P = "\<lambda>go h hashval ctr c. unat ctr < unat (table_size h) \<longrightarrow>
    unat c < unat (table_size h) \<and> (\<not> go (table h ! unat c) \<or> c = hashval - 1)", OF _ assms])
  fix p go h hashval ctr c
  assume IH: "\<And>go h hashval ctr c. p go h hashval ctr = Some c \<Longrightarrow> unat ctr < unat (table_size h) \<longrightarrow>
      unat c < unat (table_size h) \<and> (\<not> go (table h ! unat c) \<or> c = hashval - 1)"
    and eq: "(if go (table h ! unat ctr) \<and> ctr \<noteq> hashval - 1
      then p go h hashval ((ctr + 1) mod table_size h) else Some ctr) = Some c"
  show "unat ctr < unat (table_size h) \<longrightarrow>
    unat c < unat (table_size h) \<and> (\<not> go (table h ! unat c) \<or> c = hashval - 1)"
  proof
    assume ctr: "unat ctr < unat (table_size h)"
    show "unat c < unat (table_size h) \<and> (\<not> go (table h ! unat c) \<or> c = hashval - 1)"
    proof (cases "go (table h ! unat ctr) \<and> ctr \<noteq> hashval - 1")
      case True
      with eq have "p go h hashval ((ctr + 1) mod table_size h) = Some c"
        by simp
      moreover have "unat ((ctr + 1) mod table_size h) < unat (table_size h)"
        using ctr unat_next [OF ctr] by simp
      ultimately show ?thesis
        using IH by blast
    next
      case False
      with eq have "c = ctr"
        by (simp only: if_False option.inject)
      with False ctr show ?thesis
        by blast
    qed
  qed
qed

lemma probe_diverges:
  assumes "0 < unat (table_size h)" "\<forall>i < unat (table_size h). go (table h ! i)"
  shows "probe go h 0 0 = None"
proof (rule ccontr)
  assume "probe go h 0 0 \<noteq> None"
  then obtain c where "probe go h 0 0 = Some c"
    by auto
  from probe_result [OF this] assms have c: "unat c < unat (table_size h)" "c = - 1"
    by auto
  then have "unat c = 2 ^ 32 - 1"
    by (simp only: unat_max)
  with c(1) show False
    using unsigned_less [of "table_size h", where ?'a = nat] by simp
qed

text \<open>The first stop on a sequence.\<close>

lemma first_stop:
  fixes P :: "nat \<Rightarrow> bool"
  assumes "j < n" "P j"
  obtains J where "J \<le> j" "J < n" "P J" "\<forall>i < J. \<not> P i"
proof -
  from assms(2) have "P (LEAST i. P i)" "(LEAST i. P i) \<le> j"
    by (rule LeastI, rule Least_le)
  moreover from this assms(1) have "(LEAST i. P i) < n"
    by simp
  moreover have "\<forall>i < (LEAST i. P i). \<not> P i"
    using not_less_Least by blast
  ultimately show thesis
    by (intro that)
qed

section \<open>The map a table stands for, and the invariant\<close>

type_synonym entry_val = "u32 \<times> u32 \<times> u64"

definition entry_val :: "hash_entry \<Rightarrow> entry_val" where
  "entry_val e = (e_id e, e_datalen e, e_data e)"

definition hmap :: "hash_t \<Rightarrow> u64 \<Rightarrow> entry_val option" where
  "hmap h k = (if k = 0 then None
     else map_option entry_val (List.find (\<lambda>e. e_key e = k) (table h)))"

abbreviation slots :: "hash_t \<Rightarrow> nat" where
  "slots h \<equiv> unat (table_size h)"

definition home :: "hash_t \<Rightarrow> u64 \<Rightarrow> nat" where
  "home h k = unat (hashfunc k (table_size h))"

abbreviation key_at :: "hash_t \<Rightarrow> nat \<Rightarrow> u64" where
  "key_at h i \<equiv> e_key (table h ! i)"

definition keys_unique :: "hash_t \<Rightarrow> bool" where
  "keys_unique h \<longleftrightarrow>
     (\<forall>i < slots h. \<forall>j < slots h. key_at h i \<noteq> 0 \<longrightarrow> key_at h i = key_at h j \<longrightarrow> i = j)"

definition chains_ok :: "hash_t \<Rightarrow> bool" where
  "chains_ok h \<longleftrightarrow>
     (\<forall>k d. k \<noteq> 0 \<longrightarrow> d < slots h \<longrightarrow> key_at h (slot (slots h) (home h k) d) = k \<longrightarrow>
        (\<forall>j < d. occupied (table h ! slot (slots h) (home h k) j)))"

definition hash_ok :: "hash_t \<Rightarrow> bool" where
  "hash_ok h \<longleftrightarrow> 0 < slots h \<and> length (table h) = slots h \<and> keys_unique h \<and> chains_ok h
     \<and> unat (used h) = length (filter (\<lambda>e. e_key e \<noteq> 0) (table h))"

text \<open>The slots that have never been used.\<close>

definition empties :: "hash_t \<Rightarrow> nat" where
  "empties h = length (filter (\<lambda>e. \<not> occupied e) (table h))"

lemma unat_ucast_u64: "unat (ucast (x :: u32) :: u64) = unat x"
proof -
  have "unat x < 2 ^ 32"
    using unsigned_less [of x, where ?'a = nat] by simp
  then show ?thesis
    by (simp add: unsigned_ucast_eq take_bit_nat_eq_self)
qed

lemma unat_ucast_u32: "unat (ucast (w :: u64) :: u32) = unat w mod 2 ^ 32"
  by (simp add: unsigned_ucast_eq take_bit_eq_mod)

lemma home_less: "0 < slots h \<Longrightarrow> home h k < slots h"
proof -
  assume "0 < slots h"
  moreover have "unat (ucast (table_size h) :: u64) = slots h"
    by (rule unat_ucast_u64)
  ultimately have "unat (w mod ucast (table_size h)) < slots h" for w :: u64
    by (simp add: unat_mod)
  then show ?thesis
    unfolding home_def hashfunc_def Let_def unat_ucast_u32
    by (meson le_less_trans mod_less_eq_dividend)
qed

lemma hmap_None_iff:
  "length (table h) = slots h \<Longrightarrow> hmap h k = None \<longleftrightarrow> k = 0 \<or> (\<forall>i < slots h. key_at h i \<noteq> k)"
  by (auto simp: hmap_def find_None_iff in_set_conv_nth)

lemma hmap_Some_iff:
  assumes "length (table h) = slots h" "keys_unique h" "k \<noteq> 0"
  shows "hmap h k = Some v \<longleftrightarrow> (\<exists>i < slots h. key_at h i = k \<and> entry_val (table h ! i) = v)"
proof
  assume "hmap h k = Some v"
  with assms show "\<exists>i < slots h. key_at h i = k \<and> entry_val (table h ! i) = v"
    by (auto simp: hmap_def find_Some_iff)
next
  assume "\<exists>i < slots h. key_at h i = k \<and> entry_val (table h ! i) = v"
  then obtain i where i: "i < slots h" "key_at h i = k" "entry_val (table h ! i) = v"
    by blast
  have "find (\<lambda>e. e_key e = k) (table h) = Some (table h ! i)"
    using i assms unfolding find_Some_iff keys_unique_def
    by (intro exI [of _ i]) (auto, metis less_trans order.strict_implies_not_eq)
  with i assms(3) show "hmap h k = Some v"
    by (simp add: hmap_def)
qed

lemma length_filter_update:
  "i < length xs \<Longrightarrow> length (filter P (xs[i := x])) + (if P (xs ! i) then 1 else 0)
     = length (filter P xs) + (if P x then 1 else 0)"
proof (induction xs arbitrary: i)
  case (Cons y ys)
  then show ?case
    by (cases i) (auto split: if_splits)
qed simp

lemma set_entry_sel [simp]:
  "table_size (set_entry c e h) = table_size h"
  "used (set_entry c e h) = used h"
  "table (set_entry c e h) = (table h)[unat c := e]"
  by (simp_all add: set_entry_def)

text \<open>
  Writing an entry for \<open>k\<close>, or a deleted one in place of \<open>k\<close>, in a slot that holds \<open>k\<close> or no
  key, when \<open>k\<close> is nowhere else.
\<close>

lemma set_entry_unique:
  assumes "keys_unique h" "length (table h) = slots h" "unat c < slots h"
    and "e_key e = k \<or> e_key e = 0" "\<forall>j < slots h. j \<noteq> unat c \<longrightarrow> key_at h j \<noteq> k"
  shows "keys_unique (set_entry c e h)"
  using assms unfolding keys_unique_def by (auto simp: nth_list_update)

lemma hmap_set_entry:
  assumes "keys_unique h" "length (table h) = slots h" "unat c < slots h" "k \<noteq> 0"
    and "e_key e = k \<or> e_key e = 0" "key_at h (unat c) = k \<or> key_at h (unat c) = 0"
    and "\<forall>j < slots h. j \<noteq> unat c \<longrightarrow> key_at h j \<noteq> k"
  shows "hmap (set_entry c e h) = (hmap h)(k := if e_key e = k then Some (entry_val e) else None)"
proof
  fix x
  let ?h = "set_entry c e h"
  have U: "keys_unique ?h"
    by (rule set_entry_unique [OF assms(1-3,5,7)])
  have L: "length (table ?h) = slots ?h"
    using assms(2) by simp
  show "hmap ?h x = ((hmap h)(k := if e_key e = k then Some (entry_val e) else None)) x"
  proof (cases "x = 0")
    case True
    with assms(4) show ?thesis
      by (simp add: hmap_def)
  next
    case x: False
    have "hmap ?h x = Some v \<longleftrightarrow>
        ((hmap h)(k := if e_key e = k then Some (entry_val e) else None)) x = Some v" for v
    proof (cases "x = k")
      case True
      then show ?thesis
        using hmap_Some_iff [OF L U x] assms(2-5,7) by (auto simp: nth_list_update)
    next
      case False
      have other: "key_at ?h i = x \<and> entry_val (table ?h ! i) = v \<longleftrightarrow>
          key_at h i = x \<and> entry_val (table h ! i) = v" if "i < slots h" for i
        using that False assms(2-6) x by (cases "i = unat c") auto
      have "(\<exists>i < slots ?h. key_at ?h i = x \<and> entry_val (table ?h ! i) = v) \<longleftrightarrow>
          (\<exists>i < slots h. key_at h i = x \<and> entry_val (table h ! i) = v)"
        using other unfolding set_entry_sel(1) by blast
      with False show ?thesis
        unfolding fun_upd_other [OF False] hmap_Some_iff [OF L U x] hmap_Some_iff [OF assms(2,1) x]
        by simp
    qed
    then show ?thesis
      by (metis not_Some_eq)
  qed
qed

lemma set_entry_chains:
  assumes "chains_ok h" "length (table h) = slots h" "unat c < slots h" "occupied e"
    and "e_key e = 0 \<or> (\<exists>d < slots h. unat c = slot (slots h) (home h (e_key e)) d
      \<and> (\<forall>j < d. occupied (table h ! slot (slots h) (home h (e_key e)) j)))"
  shows "chains_ok (set_entry c e h)"
  unfolding chains_ok_def
proof (intro allI impI)
  fix k d j
  let ?h = "set_entry c e h"
  have hm: "home ?h k = home h k" for k
    by (simp add: home_def)
  assume k: "k \<noteq> 0" "d < slots ?h" "key_at ?h (slot (slots ?h) (home ?h k) d) = k" "j < d"
  have n: "0 < slots h"
    using k(2) by simp
  have sl: "slot (slots h) s i < length (table h)" for s i
    using assms(2) slot_less [OF n] by simp
  have occ: "occupied (table ?h ! slot (slots h) (home h k) j)"
    if "occupied (table h ! slot (slots h) (home h k) j)"
    using that assms(4) sl [of "home h k" j]
    by (cases "slot (slots h) (home h k) j = unat c") simp_all
  show "occupied (table ?h ! slot (slots ?h) (home ?h k) j)"
  proof (cases "slot (slots h) (home h k) d = unat c")
    case True
    then have ek: "e_key e = k"
      using k(3) assms(2,3) hm by simp
    with assms(5) k(1) obtain d' where d': "d' < slots h" "unat c = slot (slots h) (home h k) d'"
      "\<forall>j < d'. occupied (table h ! slot (slots h) (home h k) j)"
      by auto
    with True k(2) have "d = d'"
      using slot_inj [of d "slots h" d' "home h k"] by simp
    with d'(3) k(4) occ show ?thesis
      by (simp add: hm)
  next
    case False
    then have "key_at h (slot (slots h) (home h k) d) = k"
      using k(3) hm by simp
    with assms(1) k occ show ?thesis
      unfolding chains_ok_def by (simp add: hm)
  qed
qed

lemma used_disjoint:
  fixes p :: u64 and u :: u32
  shows "push_bit 32 p AND ucast u = (0 :: u64)"
proof (rule bit_word_eqI)
  fix n
  assume "n < LENGTH(64)"
  show "bit (push_bit 32 p AND ucast u :: u64) n \<longleftrightarrow> bit (0 :: u64) n"
    using bit_imp_le_length [of u n] by (auto simp: bit_simps)
qed

lemma used_word:
  fixes p :: u64 and u :: u32
  shows "(push_bit 32 p OR ucast u :: u64) = push_bit 32 p + ucast u"
  by (rule disjunctive_add_eq_or [symmetric]) (rule used_disjoint)

lemma ucast_add_one:
  fixes u :: u32
  assumes "u \<noteq> - 1"
  shows "(ucast (u + 1) :: u64) = ucast u + 1"
proof -
  have "unat u \<noteq> 2 ^ 32 - 1"
    using assms unat_max word_unat_eq_iff by metis
  moreover have u: "unat u < 2 ^ 32"
    using unsigned_less [of u, where ?'a = nat] by simp
  ultimately have "unat (u + 1) = unat u + 1"
    by (subst unat_add_lem [THEN iffD1]) simp_all
  moreover have "unat (ucast u + 1 :: u64) = unat u + 1"
    using u by (subst unat_add_lem [THEN iffD1]) (simp_all add: unat_ucast_u64)
  ultimately show ?thesis
    by (simp add: word_unat_eq_iff unat_ucast_u64)
qed

lemma used_low:
  fixes p :: u64 and u :: u32
  shows "(ucast (push_bit 32 p OR ucast u :: u64) :: u32) = u"
  by (rule bit_word_eqI) (auto simp: bit_simps)

lemma used_high:
  fixes p :: u64 and u :: u32
  shows "push_bit 32 (drop_bit 32 p) OR drop_bit 32 (push_bit 32 p OR ucast u :: u64) = p"
proof (rule bit_word_eqI)
  fix n
  assume n: "n < LENGTH(64)"
  show "bit (push_bit 32 (drop_bit 32 p) OR drop_bit 32 (push_bit 32 p OR ucast u :: u64)) n
    \<longleftrightarrow> bit p n"
    using n bit_imp_le_length [of u "32 + n"] bit_imp_le_length [of p "32 + n"]
    by (cases "n < 32") (auto simp: bit_simps)
qed

lemma add_used_word:
  assumes "(ucast u' :: u64) = ucast (used h) + v"
  shows "add_used v h = h\<lparr>used := u'\<rparr>"
proof -
  have w: "(push_bit 32 (table_ptr h) OR ucast (used h)) + v
      = push_bit 32 (table_ptr h) OR ucast u'"
    unfolding used_word by (simp only: assms add.assoc)
  show ?thesis
    unfolding add_used_def Let_def w used_low used_high by (cases h) simp
qed

lemma add_used_up: "used h \<noteq> - 1 \<Longrightarrow> add_used 1 h = h\<lparr>used := used h + 1\<rparr>"
  by (rule add_used_word) (rule ucast_add_one)

lemma add_used_down:
  assumes "used h \<noteq> 0"
  shows "add_used (- 1) h = h\<lparr>used := used h - 1\<rparr>"
proof (rule add_used_word)
  have "used h - 1 \<noteq> - 1"
    using assms by simp
  from ucast_add_one [OF this] show "(ucast (used h - 1) :: u64) = ucast (used h) + - 1"
    by simp
qed

lemma hash_okD:
  assumes "hash_ok h"
  shows "0 < slots h" "length (table h) = slots h" "keys_unique h" "chains_ok h"
    "unat (used h) = length (filter (\<lambda>e. e_key e \<noteq> 0) (table h))"
  using assms by (simp_all add: hash_ok_def)

lemma home_unat: "home h k = unat (hashfunc k (table_size h))"
  by (simp add: home_def)

text \<open>A slot on the probe sequence of a key, all earlier slots of which are in use.\<close>

definition reached :: "hash_t \<Rightarrow> u64 \<Rightarrow> nat \<Rightarrow> bool" where
  "reached h k i \<longleftrightarrow> (\<exists>d < slots h. i = slot (slots h) (home h k) d
     \<and> (\<forall>j < d. occupied (table h ! slot (slots h) (home h k) j)))"

text \<open>The search for a key from its home slot.\<close>

abbreviation probe_home :: "(hash_entry \<Rightarrow> bool) \<Rightarrow> hash_t \<Rightarrow> u64 \<Rightarrow> u32 option" where
  "probe_home go h k \<equiv>
     probe go h (hashfunc k (table_size h)) (hashfunc k (table_size h))"

lemma probe_first:
  assumes "0 < slots h" "i < slots h" "\<not> go (table h ! i)"
  obtains c d where "probe_home go h k = Some c" "d < slots h"
    "unat c = slot (slots h) (home h k) d" "\<not> go (table h ! unat c) \<or> d = slots h - 1"
    "\<forall>j < d. go (table h ! slot (slots h) (home h k) j)"
    "\<forall>e < slots h. i = slot (slots h) (home h k) e \<longrightarrow> d \<le> e"
proof -
  obtain e where e: "e < slots h" "i = slot (slots h) (home h k) e"
    using slot_surj [OF home_less [OF assms(1)] assms(2)] by blast
  have "stops go h (home h k) e"
    using assms(3) e by (simp add: stops_def)
  from first_stop [of e "slots h" "stops go h (home h k)", OF e(1) this] obtain J where
    J: "J \<le> e" "J < slots h" "stops go h (home h k) J"
      "\<forall>i < J. \<not> stops go h (home h k) i" .
  from probe_stops [OF home_unat _ J(2,3,4)] home_less [OF assms(1)] obtain c where
    c: "probe_home go h k = Some c" "unat c = slot (slots h) (home h k) J"
    by blast
  show thesis
  proof (rule that [OF c(1) J(2) c(2)])
    show "\<not> go (table h ! unat c) \<or> J = slots h - 1"
      using J(3) c(2) by (auto simp: stops_def)
    show "\<forall>j < J. go (table h ! slot (slots h) (home h k) j)"
      using J(4) by (auto simp: stops_def Let_def)
    show "\<forall>e < slots h. i = slot (slots h) (home h k) e \<longrightarrow> J \<le> e"
      using J(1) e slot_inj by metis
  qed
qed

lemma search_present:
  assumes "hash_ok h" "k \<noteq> 0" "i < slots h" "key_at h i = k"
  shows "\<exists>c. probe_home (search k) h k = Some c \<and> unat c = i"
proof -
  note ok = hash_okD [OF assms(1)]
  have "\<not> search k (table h ! i)"
    using assms(4) by (simp add: search_def)
  from probe_first [where go = "search k", OF ok(1) assms(3) this, where k = k] obtain c d where c:
    "probe_home (search k) h k = Some c" "d < slots h" "unat c = slot (slots h) (home h k) d"
    "\<not> search k (table h ! unat c) \<or> d = slots h - 1"
    "\<forall>j < d. search k (table h ! slot (slots h) (home h k) j)"
    "\<forall>e < slots h. i = slot (slots h) (home h k) e \<longrightarrow> d \<le> e" .
  obtain e where e: "e < slots h" "i = slot (slots h) (home h k) e"
    using slot_surj [OF home_less [OF ok(1)] assms(3)] by blast
  have "d = e"
  proof (rule ccontr)
    assume "d \<noteq> e"
    with c(6) e have d: "d < e"
      by force
    then have "occupied (table h ! unat c)"
      using ok(4) assms(2,4) e c(3) by (auto simp: chains_ok_def)
    moreover have "d \<noteq> slots h - 1"
      using d e(1) by simp
    ultimately have "key_at h (unat c) = k"
      using c(4) by (auto simp: search_def)
    then have "unat c = i"
      using ok(3) assms(2-4) c(3) slot_less [OF ok(1)] by (metis keys_unique_def)
    with c(2,3) e \<open>d \<noteq> e\<close> show False
      using slot_inj by metis
  qed
  with c(1,3) e(2) show ?thesis
    by blast
qed

lemma search_absent:
  assumes "hash_ok h" "\<forall>i < slots h. key_at h i \<noteq> k" "i < slots h" "\<not> occupied (table h ! i)"
  shows "\<exists>c. probe_home (search k) h k = Some c
    \<and> unat c < slots h \<and> \<not> occupied (table h ! unat c) \<and> reached h k (unat c)"
proof -
  note ok = hash_okD [OF assms(1)]
  have "\<not> search k (table h ! i)"
    using assms(4) by (simp add: search_def)
  from probe_first [where go = "search k", OF ok(1) assms(3) this, where k = k] obtain c d where c:
    "probe_home (search k) h k = Some c" "d < slots h" "unat c = slot (slots h) (home h k) d"
    "\<not> search k (table h ! unat c) \<or> d = slots h - 1"
    "\<forall>j < d. search k (table h ! slot (slots h) (home h k) j)"
    "\<forall>e < slots h. i = slot (slots h) (home h k) e \<longrightarrow> d \<le> e" .
  obtain e where e: "e < slots h" "i = slot (slots h) (home h k) e"
    using slot_surj [OF home_less [OF ok(1)] assms(3)] by blast
  have less: "unat c < slots h"
    using c(3) slot_less [OF ok(1)] by simp
  have free: "\<not> occupied (table h ! unat c)"
  proof (cases "d = slots h - 1")
    case True
    then have "d = e"
      using c(6) e by force
    then show ?thesis
      using c(3) e(2) assms(4) by simp
  next
    case False
    then show ?thesis
      using c(4) assms(2) less by (auto simp: search_def)
  qed
  have "reached h k (unat c)"
    using c(2,3,5) by (auto simp: reached_def search_def)
  with c(1) less free show ?thesis
    by blast
qed

text \<open>A table without a slot that was never used.\<close>

lemma search_full:
  assumes "0 < slots h" "\<forall>i < slots h. occupied (table h ! i) \<and> key_at h i \<noteq> k"
  shows "probe_home (search k) h k =
    (if home h k = 0 then None else Some (hashfunc k (table_size h) - 1))"
proof (cases "home h k = 0")
  case True
  then have "hashfunc k (table_size h) = 0"
    by (simp add: home_def unsigned_eq_0_iff)
  then show ?thesis
    using True probe_diverges [OF assms(1), of "search k"] assms(2) by (simp add: search_def)
next
  case False
  let ?n = "slots h"
  have st: "stops (search k) h (home h k) (?n - 1)"
    using False by (simp add: stops_def)
  have no: "\<forall>j < ?n - 1. \<not> stops (search k) h (home h k) j"
    using assms slot_less [OF assms(1)] by (auto simp: stops_def search_def)
  from probe_stops [OF home_unat _ _ st no] assms(1) home_less [OF assms(1)] obtain c where
    c: "probe_home (search k) h k = Some c" "unat c = slot ?n (home h k) (?n - 1)"
    by auto
  have "slots h < 2 ^ 32"
    using unsigned_less [of "table_size h", where ?'a = nat] by simp
  from ctr_last [OF c(2) _ home_unat home_less [OF assms(1)] this] False assms(1)
  have "c = hashfunc k (table_size h) - 1"
    by simp
  with c(1) False show ?thesis
    by simp
qed

section \<open>The operations on a well-formed table\<close>

lemma used_irrelevant [simp]:
  "hmap (h\<lparr>used := u\<rparr>) = hmap h" "empties (h\<lparr>used := u\<rparr>) = empties h"
  "keys_unique (h\<lparr>used := u\<rparr>) = keys_unique h" "chains_ok (h\<lparr>used := u\<rparr>) = chains_ok h"
  by (simp_all add: fun_eq_iff hmap_def empties_def keys_unique_def chains_ok_def home_def)

lemma empties_slot: "hash_ok h \<Longrightarrow> 0 < empties h \<Longrightarrow> \<exists>i < slots h. \<not> occupied (table h ! i)"
  unfolding empties_def hash_ok_def
  by (metis filter_False in_set_conv_nth length_greater_0_conv)

lemma length_filter_disjoint:
  "(\<And>x. \<not> (P x \<and> Q x)) \<Longrightarrow> length (filter P xs) + length (filter Q xs) \<le> length xs"
  by (induction xs) (auto simp: le_Suc_eq)

lemma used_less:
  assumes "hash_ok h" "0 < empties h"
  shows "used h < table_size h"
proof -
  have "length (filter (\<lambda>e. e_key e \<noteq> 0) (table h)) + empties h \<le> slots h"
    using length_filter_disjoint [of "\<lambda>e. e_key e \<noteq> 0" "\<lambda>e. \<not> occupied e" "table h"]
      hash_okD(2) [OF assms(1)]
    by (auto simp: empties_def occupied_def)
  with assms(2) hash_okD(5) [OF assms(1)] show ?thesis
    by (simp add: word_less_nat_alt)
qed

lemma present_reached:
  assumes "hash_ok h" "k \<noteq> 0" "i < slots h" "key_at h i = k"
  shows "reached h k i"
proof -
  note ok = hash_okD [OF assms(1)]
  obtain d where "d < slots h" "i = slot (slots h) (home h k) d"
    using slot_surj [OF home_less [OF ok(1)] assms(3)] by blast
  with ok(4) assms show ?thesis
    by (auto simp: reached_def chains_ok_def)
qed

text \<open>
  Writing an entry in a slot for the key \<open>k\<close>: the entry holds \<open>k\<close>, or is a deleted one in place
  of \<open>k\<close>.
\<close>

lemma write_slot:
  assumes "hash_ok h" "unat c < slots h" "k \<noteq> 0" "occupied e"
    and "e_key e = k \<and> reached h k (unat c) \<or> e_key e = 0"
    and "key_at h (unat c) = k \<or> key_at h (unat c) = 0"
    and "\<forall>j < slots h. j \<noteq> unat c \<longrightarrow> key_at h j \<noteq> k"
    and "unat u + (if key_at h (unat c) \<noteq> 0 then 1 else 0) = unat (used h) + (if e_key e \<noteq> 0 then 1 else 0)"
  shows "hash_ok ((set_entry c e h)\<lparr>used := u\<rparr>)"
    and "hmap ((set_entry c e h)\<lparr>used := u\<rparr>)
      = (hmap h)(k := if e_key e = k then Some (entry_val e) else None)"
    and "empties ((set_entry c e h)\<lparr>used := u\<rparr>) + (if occupied (table h ! unat c) then 0 else 1) = empties h"
proof -
  note ok = hash_okD [OF assms(1)]
  have c: "unat c < length (table h)"
    using assms(2) ok(2) by simp
  have e: "e_key e = k \<or> e_key e = 0"
    using assms(5) by blast
  have "e_key e = 0 \<or> (\<exists>d < slots h. unat c = slot (slots h) (home h (e_key e)) d
      \<and> (\<forall>j < d. occupied (table h ! slot (slots h) (home h (e_key e)) j)))"
    using assms(5) by (auto simp: reached_def)
  from set_entry_chains [OF ok(4,2) assms(2,4) this] have "chains_ok (set_entry c e h)" .
  moreover have "keys_unique (set_entry c e h)"
    by (rule set_entry_unique [OF ok(3,2) assms(2) e assms(7)])
  moreover have "unat u = length (filter (\<lambda>e. e_key e \<noteq> 0) ((table h)[unat c := e]))"
    using length_filter_update [OF c, of "\<lambda>e. e_key e \<noteq> 0" e] assms(8) ok(5)
    by (simp split: if_splits)
  ultimately show "hash_ok ((set_entry c e h)\<lparr>used := u\<rparr>)"
    using ok(1,2) by (simp add: hash_ok_def)
  show "hmap ((set_entry c e h)\<lparr>used := u\<rparr>)
      = (hmap h)(k := if e_key e = k then Some (entry_val e) else None)"
    using hmap_set_entry [OF ok(3,2) assms(2,3) e assms(6,7)] by simp
  show "empties ((set_entry c e h)\<lparr>used := u\<rparr>) + (if occupied (table h ! unat c) then 0 else 1)
      = empties h"
    using length_filter_update [OF c, of "\<lambda>e. \<not> occupied e" e] assms(4)
    by (simp add: empties_def split: if_splits)
qed

text \<open>The slot at which a search ends.\<close>

lemma search_finds:
  assumes "hash_ok h" "k \<noteq> 0"
  obtains (found) c where "probe_home (search k) h k = Some c" "unat c < slots h"
      "key_at h (unat c) = k" "hmap h k = Some (entry_val (table h ! unat c))"
      "\<forall>j < slots h. j \<noteq> unat c \<longrightarrow> key_at h j \<noteq> k" "reached h k (unat c)"
  | (free) c where "hmap h k = None" "probe_home (search k) h k = Some c" "unat c < slots h"
      "\<not> occupied (table h ! unat c)" "\<forall>j < slots h. key_at h j \<noteq> k" "reached h k (unat c)"
  | (full) "hmap h k = None" "empties h = 0" "\<forall>j < slots h. key_at h j \<noteq> k"
      "probe_home (search k) h k
        = (if home h k = 0 then None else Some (hashfunc k (table_size h) - 1))"
proof (cases "hmap h k")
  case (Some v)
  note ok = hash_okD [OF assms(1)]
  from Some obtain i where i: "i < slots h" "key_at h i = k" "entry_val (table h ! i) = v"
    using hmap_Some_iff [OF ok(2,3) assms(2)] by blast
  from search_present [OF assms i(1,2)] obtain c where
    "probe_home (search k) h k = Some c" "unat c = i" by blast
  moreover have "\<forall>j < slots h. j \<noteq> i \<longrightarrow> key_at h j \<noteq> k"
    using ok(3) i(1,2) assms(2) unfolding keys_unique_def by metis
  ultimately show thesis
    using i Some present_reached [OF assms i(1,2)] by (intro found [of c]) simp_all
next
  case None
  note ok = hash_okD [OF assms(1)]
  have no: "\<forall>j < slots h. key_at h j \<noteq> k"
    using None hmap_None_iff [OF ok(2)] assms(2) by blast
  show thesis
  proof (cases "empties h = 0")
    case True
    then have "\<forall>i < slots h. occupied (table h ! i) \<and> key_at h i \<noteq> k"
      using no ok(2) by (auto simp: empties_def filter_empty_conv)
    from search_full [OF ok(1) this] None True no show thesis
      by (intro full) simp_all
  next
    case False
    then obtain i where "i < slots h" "\<not> occupied (table h ! i)"
      using empties_slot [OF assms(1)] by blast
    from search_absent [OF assms(1) no this] None no show thesis
      using free by blast
  qed
qed

text \<open>What a probe that does not end shows.\<close>

definition stuck :: "hash_t \<Rightarrow> u64 \<Rightarrow> bool" where
  "stuck h k \<longleftrightarrow> empties h = 0 \<and> home h k = 0 \<and> hmap h k = None"

lemma table_size_pos: "hash_ok h \<Longrightarrow> table_size h \<noteq> 0"
  using hash_okD(1) by fastforce

lemma lookup_spec:
  assumes "hash_ok h" "op_key oper = k" "k \<noteq> 0"
  shows "lookup h oper =
    (if stuck h k then Hangs
     else case hmap h k of
       Some (i, l, d) \<Rightarrow> Returns (0, oper\<lparr>op_datalen := l, op_data := d\<rparr>)
     | None \<Rightarrow> Returns (- 1, oper))"
  using assms(1,3)
proof (cases rule: search_finds)
  case (found c)
  then show ?thesis
    using assms table_size_pos by (simp add: lookup_def stuck_def Let_def entry_val_def)
next
  case (free c)
  then show ?thesis
    using assms table_size_pos
    by (auto simp: lookup_def stuck_def Let_def empties_def filter_empty_conv hash_okD)
next
  case full
  then have "key_at h (unat (hashfunc k (table_size h) - 1)) \<noteq> k" if "home h k \<noteq> 0"
    using that assms
    by (metis hash_okD(1) home_def home_less unat_minus_one less_imp_diff_less unsigned_0)
  with full show ?thesis
    using assms table_size_pos by (simp add: lookup_def stuck_def Let_def)
qed

lemma purge_key_spec:
  assumes "hash_ok h" "op_key oper = k" "k \<noteq> 0"
  shows "if stuck h k then purge_key h oper = Hangs
    else if hmap h k = None then purge_key h oper = Returns (- 1, h)
    else \<exists>h'. purge_key h oper = Returns (0, h') \<and> hash_ok h' \<and> hmap h' = (hmap h)(k := None)
      \<and> empties h' = empties h \<and> table_size h' = table_size h \<and> table_ptr h' = table_ptr h"
  using assms(1,3)
proof (cases rule: search_finds)
  case (found c)
  have "used h \<noteq> 0"
  proof -
    have "table h ! unat c \<in> set (filter (\<lambda>e. e_key e \<noteq> 0) (table h))"
      using found(2,3) assms(3) hash_okD(2) [OF assms(1)] by simp
    then have "filter (\<lambda>e. e_key e \<noteq> 0) (table h) \<noteq> []"
      by (metis empty_iff list.set(1))
    then show ?thesis
      using hash_okD(5) [OF assms(1)] by (metis length_0_conv unsigned_0)
  qed
  then have u: "unat (used h - 1) + 1 = unat (used h)"
    by (simp add: unat_minus_one unat_gt_0 Suc_leI)
  let ?h = "(set_entry c tombstone h)\<lparr>used := used h - 1\<rparr>"
  have "purge_key h oper = Returns (0, add_used (- 1) (set_entry c tombstone h))"
    using found(1,3) assms table_size_pos by (simp add: purge_key_def Let_def)
  also have "add_used (- 1) (set_entry c tombstone h) = ?h"
    using add_used_down [of "set_entry c tombstone h"] \<open>used h \<noteq> 0\<close> by simp
  finally have "purge_key h oper = Returns (0, ?h)" .
  moreover have t: "e_key tombstone = 0" "occupied tombstone" "occupied (table h ! unat c)"
    using found(3) assms(3) by (simp_all add: tombstone_def occupied_def)
  note w = write_slot [OF assms(1) found(2) assms(3) t(2), of "used h - 1"]
  have "hash_ok ?h" "hmap ?h = (hmap h)(k := None)" "empties ?h = empties h"
    using w found(3,5) t u assms(3) by (simp_all split: if_splits)
  ultimately show ?thesis
    using found(4) by (auto simp: stuck_def set_entry_def)
next
  case (free c)
  then show ?thesis
    using assms table_size_pos
    by (auto simp: purge_key_def stuck_def Let_def empties_def filter_empty_conv hash_okD)
next
  case full
  then have "key_at h (unat (hashfunc k (table_size h) - 1)) \<noteq> k" if "home h k \<noteq> 0"
    using that assms
    by (metis hash_okD(1) home_def home_less unat_minus_one less_imp_diff_less unsigned_0)
  with full show ?thesis
    using assms table_size_pos by (simp add: purge_key_def stuck_def Let_def)
qed

definition op_val :: "op_t \<Rightarrow> entry_val" where
  "op_val oper = (ucast (op_id oper), op_datalen oper, op_data oper)"

lemma update_entry_sel [simp]:
  "e_key (update_entry oper e) = e_key e"
  "entry_val (update_entry oper e) = op_val oper"
  "entry_val (e\<lparr>e_key := k\<rparr>) = entry_val e"
  by (simp_all add: update_entry_def entry_val_def op_val_def)

lemma insert_update_at:
  assumes "table_size h \<noteq> 0" "used h < table_size h" "op_key oper = k" "k \<noteq> 0"
    and "probe_home (search k) h k = Some c" "\<not> search_free k (table h ! unat c)"
  shows "insert_update h oper = Returns (0,
    if key_at h (unat c) = k then set_entry c (update_entry oper (table h ! unat c)) h
    else add_used 1 (set_entry c ((update_entry oper (table h ! unat c))\<lparr>e_key := k\<rparr>) h))"
proof -
  have "(if c = hashfunc k (table_size h) - 1
      then run_of_option (second_probe k h (hashfunc k (table_size h)) c) else Returns c) = Returns c"
    using assms(6) by (auto simp: second_probe_def)
  then show ?thesis
    using assms by (simp add: insert_update_def Let_def)
qed

lemma insert_update_spec:
  assumes "hash_ok h" "op_key oper = k" "k \<noteq> 0" "0 < empties h"
  shows "\<exists>h'. insert_update h oper = Returns (0, h') \<and> hash_ok h'
    \<and> hmap h' = (hmap h)(k \<mapsto> op_val oper)
    \<and> empties h' + (if hmap h k = None then 1 else 0) = empties h
    \<and> table_size h' = table_size h \<and> table_ptr h' = table_ptr h"
  using assms(1,3)
proof (cases rule: search_finds)
  case (found c)
  let ?e = "update_entry oper (table h ! unat c)"
  have "insert_update h oper = Returns (0, set_entry c ?e h)"
    using insert_update_at [OF table_size_pos [OF assms(1)] used_less [OF assms(1,4)] assms(2,3)
        found(1)] found(3)
    by (simp add: search_free_def)
  moreover have "set_entry c ?e h = (set_entry c ?e h)\<lparr>used := used h\<rparr>"
    by (simp add: set_entry_def)
  moreover have o: "occupied ?e" "occupied (table h ! unat c)"
    using found(3) assms(3) by (simp_all add: occupied_def)
  note w = write_slot [OF assms(1) found(2) assms(3) o(1), of "used h"]
  have "hash_ok ((set_entry c ?e h)\<lparr>used := used h\<rparr>)"
    "hmap ((set_entry c ?e h)\<lparr>used := used h\<rparr>) = (hmap h)(k \<mapsto> op_val oper)"
    "empties ((set_entry c ?e h)\<lparr>used := used h\<rparr>) = empties h"
    using w found(3,5,6) o(2) assms(3) by (simp_all split: if_splits)
  ultimately show ?thesis
    using found(4) by (auto simp: set_entry_def)
next
  case (free c)
  let ?e = "(update_entry oper (table h ! unat c))\<lparr>e_key := k\<rparr>"
  let ?h = "(set_entry c ?e h)\<lparr>used := used h + 1\<rparr>"
  have z: "key_at h (unat c) = 0"
    using free(4) by (simp add: occupied_def)
  have "used h < table_size h"
    by (rule used_less [OF assms(1,4)])
  then have u: "used h \<noteq> - 1" "unat (used h + 1) = unat (used h) + 1"
    using unsigned_less [of "table_size h", where ?'a = nat] unat_max
    by (auto simp: word_less_nat_alt unat_word_ariths)
  have "insert_update h oper = Returns (0, add_used 1 (set_entry c ?e h))"
    using insert_update_at [OF table_size_pos [OF assms(1)] used_less [OF assms(1,4)] assms(2,3)
        free(2)] z assms(3)
    by (simp add: search_free_def)
  also have "add_used 1 (set_entry c ?e h) = ?h"
    using add_used_up [of "set_entry c ?e h"] u(1) by simp
  finally have "insert_update h oper = Returns (0, ?h)" .
  moreover have o: "occupied ?e"
    using assms(3) by (simp add: occupied_def)
  note w = write_slot [OF assms(1) free(3) assms(3) o, of "used h + 1"]
  have "hash_ok ?h" "hmap ?h = (hmap h)(k \<mapsto> op_val oper)" "empties ?h + 1 = empties h"
    using w free(4,5,6) z u(2) assms(3) by (simp_all split: if_splits)
  ultimately show ?thesis
    using free(1) by (auto simp: set_entry_def)
next
  case full
  with assms(4) show ?thesis
    by simp
qed

section \<open>Sequences of operations\<close>

text \<open>The same on a map.\<close>

definition map_op ::
  "op_t \<Rightarrow> (u64 \<Rightarrow> entry_val option) \<Rightarrow> (i32 \<times> op_t) \<times> (u64 \<Rightarrow> entry_val option)" where
  "map_op oper m =
     (let k = op_key oper in
      if op_type oper = GET then
        (case m k of
           Some (i, l, d) \<Rightarrow> ((0, oper\<lparr>op_datalen := l, op_data := d\<rparr>), m)
         | None \<Rightarrow> ((- 1, oper), m))
      else if op_type oper = PUT then ((0, oper), m(k \<mapsto> op_val oper))
      else (((if m k = None then - 1 else 0), oper), m(k := None)))"

definition op_ok :: "op_t \<Rightarrow> bool" where
  "op_ok oper \<longleftrightarrow> op_key oper \<noteq> 0 \<and> op_type oper \<in> {PUT, GET, DEL}"

lemma process_op_refines:
  assumes "hash_ok h" "0 < empties h" "op_ok oper"
    and "(if op_type oper = PUT then 1 else 0) \<le> empties h - 1"
  shows "\<exists>h'. process_op oper h = Returns (fst (map_op oper (hmap h)), h')
    \<and> hash_ok h' \<and> 0 < empties h' \<and> hmap h' = snd (map_op oper (hmap h))
    \<and> empties h - 1 \<le> empties h' - 1 + (if op_type oper = PUT then 1 else 0)
    \<and> table_size h' = table_size h \<and> table_ptr h' = table_ptr h"
proof -
  have k: "op_key oper \<noteq> 0" and ns: "\<not> stuck h (op_key oper)"
    using assms(2,3) by (simp_all add: op_ok_def stuck_def)
  have d: "GET \<noteq> PUT" "DEL \<noteq> PUT" "DEL \<noteq> GET"
    by (simp_all add: GET_def PUT_def DEL_def)
  consider "op_type oper = GET" | "op_type oper = PUT" | "op_type oper = DEL"
    using assms(3) by (auto simp: op_ok_def)
  then show ?thesis
  proof cases
    case 1
    then show ?thesis
      using lookup_spec [OF assms(1) refl k] ns assms(1,2) d
      by (auto simp: process_op_def map_op_def Let_def split: option.splits)
  next
    case 2
    then show ?thesis
      using insert_update_spec [OF assms(1) refl k assms(2)] assms(4) d
      by (auto simp: process_op_def map_op_def Let_def split: if_splits)
  next
    case 3
    then show ?thesis
      using purge_key_spec [OF assms(1) refl k] ns assms(1,2) d
      by (auto simp: process_op_def map_op_def Let_def split: if_splits)
  qed
qed

interpretation dictionary: bounded_refinement process_op map_op
  "\<lambda>h. hash_ok h \<and> 0 < empties h \<and> table_ptr h = p" hmap "\<lambda>h. empties h - 1"
  "\<lambda>oper. if op_type oper = PUT then 1 else 0" op_ok
  for p
  by unfold_locales (use process_op_refines in blast)

section \<open>A new table\<close>

lemma init_hashtable_ok:
  assumes "0 < sz"
  shows "hash_ok (init_hashtable sz p)" "hmap (init_hashtable sz p) = Map.empty"
    "empties (init_hashtable sz p) = unat sz"
proof -
  have z: "e_key zero_entry = 0" "\<not> occupied zero_entry"
    by (simp_all add: zero_entry_def occupied_def)
  have n: "0 < unat sz"
    using assms by (simp add: unat_gt_0 word_neq_0_conv)
  then have "slot (unat sz) s j < unat sz" for s j
    by (rule slot_less)
  then show "hash_ok (init_hashtable sz p)"
    using n z by (simp add: hash_ok_def init_hashtable_def keys_unique_def chains_ok_def)
  show "empties (init_hashtable sz p) = unat sz"
    using z by (simp add: empties_def init_hashtable_def)
  show "hmap (init_hashtable sz p) = Map.empty"
    using z by (auto simp: hmap_def init_hashtable_def find_None_iff)
qed

section \<open>The final check\<close>

lemma fold_lused:
  "fold (\<lambda>entry lused. if e_key entry \<noteq> 0 then lused - 1 else lused) es (u :: u32)
     = u - of_nat (length (filter (\<lambda>e. e_key e \<noteq> 0) es))"
  by (induction es arbitrary: u) simp_all

lemma dump_hash_table_ok: "hash_ok h \<Longrightarrow> dump_hash_table h = Returns ()"
  by (simp add: dump_hash_table_def fold_lused hash_okD(2) flip: hash_okD(5))

section \<open>Where a free slot is overlooked\<close>

lemma used_less_free:
  assumes "hash_ok h" "i < slots h" "key_at h i = 0"
  shows "used h < table_size h"
proof -
  have "table h ! i \<in> set (table h)"
    using assms(2) hash_okD(2) [OF assms(1)] by simp
  then have "length (filter (\<lambda>e. e_key e \<noteq> 0) (table h)) < length (table h)"
    using assms(3) by (intro length_filter_less) auto
  then show ?thesis
    using hash_okD(2,5) [OF assms(1)] by (simp add: word_less_nat_alt)
qed

lemma not_minus_one: "(u :: u32) < v \<Longrightarrow> u \<noteq> - 1"
  using unsigned_less [of v, where ?'a = nat] unat_max by (auto simp: word_less_nat_alt)

lemma second_probe_last:
  assumes "0 < slots h" "0 < home h k" "\<forall>i < slots h. i \<noteq> home h k \<longrightarrow> search_free k (table h ! i)"
    and "c = hashfunc k (table_size h) - 1"
  shows "second_probe k h (hashfunc k (table_size h)) c = Some c" "unat c = home h k - 1"
proof -
  let ?v = "hashfunc k (table_size h)" and ?n = "slots h" and ?s = "home h k"
  have s: "?s < ?n" "?v \<noteq> 0"
    using home_less [OF assms(1)] assms(2) by (auto simp: home_def)
  show c: "unat c = ?s - 1"
    using s(2) assms(4) by (simp add: home_def unat_minus_one)
  have n: "1 < ?n"
    using s(1) assms(2) by simp
  have "stops (search_free k) h ?s (?n - 1)"
    using assms(2) by (simp add: stops_def)
  moreover have "\<forall>j < ?n - 1. 1 \<le> j \<longrightarrow> \<not> stops (search_free k) h ?s j"
  proof (intro allI impI)
    fix j
    assume j: "j < ?n - 1" "1 \<le> j"
    then have "slot ?n ?s j \<noteq> ?s"
      using slot_inj [of j ?n 0 ?s] slot_0 [OF s(1)] less_imp_diff_less by fastforce
    then show "\<not> stops (search_free k) h ?s j"
      using j assms(3) slot_less [OF assms(1)] by (simp add: stops_def)
  qed
  moreover have "1 \<le> ?n - 1"
    using n by simp
  moreover have "unat ((?v + 1) mod table_size h) = slot ?n ?s 1"
    using unat_next [of ?v "table_size h"] s(1) by (simp add: slot_def home_def)
  ultimately obtain c' where c': "probe (search_free k) h ?v ((?v + 1) mod table_size h) = Some c'"
    "unat c' = slot ?n ?s (?n - 1)"
    using probe_from [OF refl home_unat s(1), of "?n - 1" "search_free k" 1 1
        "(?v + 1) mod table_size h"] n by auto
  then have "c' = c"
    using slot_last [OF assms(2) s(1)] c by (simp add: word_unat_eq_iff)
  with c' show "second_probe k h ?v c = Some c"
    using assms(3) s(1) c assms(2) by (simp add: second_probe_def)
qed

lemma insert_update_forgets:
  assumes "hash_ok h" "op_key oper = k" "k \<noteq> 0" "hmap h k = None" "0 < home h k"
    and "table h ! home h k = tombstone"
    and "\<forall>i < slots h. i \<noteq> home h k \<longrightarrow> key_at h i \<noteq> 0"
  shows "\<exists>h'. insert_update h oper = Returns (0, h') \<and> table h' ! home h k = tombstone
    \<and> hmap h (key_at h (home h k - 1)) \<noteq> None \<and> hmap h' (key_at h (home h k - 1)) = None"
proof -
  note ok = hash_okD [OF assms(1)]
  let ?v = "hashfunc k (table_size h)" and ?c = "hashfunc k (table_size h) - 1"
  have s: "home h k < slots h"
    by (rule home_less [OF ok(1)])
  have no: "\<forall>i < slots h. key_at h i \<noteq> k"
    using assms(3,4) hmap_None_iff [OF ok(2)] by blast
  have t: "e_key tombstone = 0" "occupied tombstone"
    by (simp_all add: tombstone_def occupied_def)
  then have "\<forall>i < slots h. occupied (table h ! i) \<and> key_at h i \<noteq> k"
    using assms(6,7) no by (metis occupied_def)
  from search_full [OF ok(1) this] assms(5)
  have p1: "probe_home (search k) h k = Some ?c"
    by simp
  have "\<forall>i < slots h. i \<noteq> home h k \<longrightarrow> search_free k (table h ! i)"
    using assms(7) no by (simp add: search_free_def)
  from second_probe_last [OF ok(1) assms(5) this refl]
  have p2: "second_probe k h ?v ?c = Some ?c" "unat ?c = home h k - 1" .
  have u: "used h < table_size h"
    by (rule used_less_free [OF assms(1) s]) (simp add: assms(6) t(1))
  have c: "unat ?c < slots h" "unat ?c \<noteq> home h k"
    using p2(2) s assms(5) by simp_all
  let ?e = "(update_entry oper (table h ! unat ?c))\<lparr>e_key := k\<rparr>"
  have "insert_update h oper = Returns (0, add_used 1 (set_entry ?c ?e h))"
    using assms(2,3) u table_size_pos [OF assms(1)] p1 p2(1) no c(1)
    by (simp add: insert_update_def Let_def)
  also have "add_used 1 (set_entry ?c ?e h) = (set_entry ?c ?e h)\<lparr>used := used h + 1\<rparr>"
    using add_used_up [of "set_entry ?c ?e h"] not_minus_one [OF u] by simp
  finally have r: "insert_update h oper = Returns (0, (set_entry ?c ?e h)\<lparr>used := used h + 1\<rparr>)" .
  have "key_at h (unat ?c) \<noteq> 0"
    using assms(7) c by blast
  moreover have "hmap h (key_at h (unat ?c)) \<noteq> None"
    using hmap_None_iff [OF ok(2)] calculation c(1) by blast
  moreover have "hmap (set_entry ?c ?e h) (key_at h (unat ?c)) = None"
  proof -
    have "key_at (set_entry ?c ?e h) i \<noteq> key_at h (unat ?c)" if "i < slots h" for i
    proof (cases "i = unat ?c")
      case True
      then show ?thesis
        using no c(1) ok(2) by (simp add: not_sym)
    next
      case False
      then show ?thesis
        using ok(3) that c(1) \<open>key_at h (unat ?c) \<noteq> 0\<close> unfolding keys_unique_def by force
    qed
    then show ?thesis
      using hmap_None_iff [of "set_entry ?c ?e h"] ok(2) by simp
  qed
  ultimately show ?thesis
    using r c(2) assms(6) p2(2) ok(2) by simp
qed

section \<open>The serial version\<close>

lemma probe_stop: "\<not> go (table h ! unat ctr) \<Longrightarrow> probe go h hashval ctr = Some ctr"
  by (subst probe.simps) simp

lemma serial_insert_then_purge:
  assumes "hash_ok h" "op_key oper = k" "op_key oper' = k" "k \<noteq> 0" "table h ! home h k = tombstone"
  shows "\<exists>h'. serial_insert_update h oper = Returns (0, h') \<and> serial_purge_key h' oper' = Returns (0, h)"
proof -
  note ok = hash_okD [OF assms(1)]
  let ?v = "hashfunc k (table_size h)"
  have s: "home h k < slots h"
    by (rule home_less [OF ok(1)])
  have t: "e_key tombstone = 0"
    by (simp add: tombstone_def)
  have u: "used h < table_size h"
    by (rule used_less_free [OF assms(1) s]) (simp add: assms(5) t)
  let ?e = "(update_entry oper tombstone)\<lparr>e_key := k\<rparr>"
  let ?h = "(set_entry ?v ?e h)\<lparr>used := used h + 1\<rparr>"
  have at: "table h ! unat ?v = tombstone" "unat ?v < length (table h)"
    using assms(5) s ok(2) by (simp_all add: home_def)
  have "serial_insert_update h oper = Returns (0, ?h)"
    using probe_stop [of "search_free k" h ?v ?v] at(1) assms(2,4) u table_size_pos [OF assms(1)] t
    by (simp add: serial_insert_update_def search_free_def Let_def)
  moreover have "table ?h ! unat ?v = ?e"
    using at(2) by simp
  then have "serial_purge_key ?h oper' = Returns (0, (set_entry ?v tombstone ?h)\<lparr>used := used ?h - 1\<rparr>)"
    using probe_stop [of "search k" ?h ?v ?v] assms(3) table_size_pos [OF assms(1)]
    by (simp add: serial_purge_key_def search_def Let_def)
  moreover have "(set_entry ?v tombstone ?h)\<lparr>used := used ?h - 1\<rparr> = h"
    using at by (cases h) (simp add: set_entry_def list_update_same_conv)
  ultimately show ?thesis
    by auto
qed

section \<open>Examples\<close>

definition example_op :: "u64 \<Rightarrow> u32 \<Rightarrow> op_t" where
  "example_op k ty = \<lparr>op_id = 7, op_key = k, op_type = ty, op_datalen = 3, op_data = 100\<rparr>"

lemma key_zero:
  "process_op (example_op 0 GET) (init_hashtable 2 7)
    = Returns ((0, (example_op 0 GET)\<lparr>op_datalen := 0, op_data := 0\<rparr>), init_hashtable 2 7)"
  "run_bind (process_op (example_op 0 DEL) (init_hashtable 2 7)) (\<lambda>(r, h). Returns (fst r, used h, table_ptr h))
    = Returns (0, - 1, 6)"
  "process_op (example_op 0 PUT) (init_hashtable 2 7) = Faults"
  by code_simp+

definition example_entry :: "u64 \<Rightarrow> hash_entry" where
  "example_entry k = \<lparr>e_id = 1, e_datalen = 2, e_key = k, e_data = 50\<rparr>"

definition example_table :: "hash_entry list \<Rightarrow> hash_t" where
  "example_table es = \<lparr>table_size = of_nat (length es), used = 1, table_ptr = 0, table = es\<rparr>"

lemma example_table_sel [simp]:
  "table (example_table es) = es" "used (example_table es) = 1"
  "table_size (example_table es) = of_nat (length es)"
  by (simp_all add: example_table_def)

lemma example_table_1: "hash_ok (example_table [example_entry 1])"
  by (simp add: hash_ok_def keys_unique_def chains_ok_def example_entry_def)

lemma example_table_2:
  assumes "k \<noteq> 0" "home (example_table [example_entry k, tombstone]) k < 2"
  shows "hash_ok (example_table [example_entry k, tombstone])"
proof -
  have "occupied tombstone" "occupied (example_entry k)"
    using assms(1) by (simp_all add: occupied_def tombstone_def example_entry_def)
  then have "occupied ([example_entry k, tombstone] ! i)" if "i < 2" for i
    using that by (auto simp: less_2_cases_iff)
  then show ?thesis
    using assms(1) slot_less [of 2]
    by (auto simp: hash_ok_def keys_unique_def chains_ok_def less_2_cases_iff example_entry_def
        tombstone_def)
qed

section \<open>Properties\<close>

text \<open>
  C4: The hash table is a map. Any sequence of \<open>PUT\<close>, \<open>GET\<close> and \<open>DEL\<close> on a new table, with keys that are
  not 0 and fewer \<open>PUT\<close>s than slots, returns what the same operations on an initially empty map
  return and leaves the table that stands for the resulting map. The 64-bit additions to the 32-bit
  counter then leave the table pointer as it is, and the final check of \<open>dump_hash_table\<close> passes.
  For the key 0, which marks a free entry, all this is false (\<open>key_zero\<close>): \<open>GET\<close> finds it in a new
  table, and \<open>DEL\<close> changes the pointer.
\<close>

theorem hash_ops_refine_map:
  assumes "\<forall>oper \<in> set ops. op_key oper \<noteq> 0 \<and> op_type oper \<in> {PUT, GET, DEL}"
    and "length (filter (\<lambda>oper. op_type oper = PUT) ops) < unat sz"
  shows "\<exists>h. run_ops process_op ops (init_hashtable sz p) = Returns (fst (run_pure map_op ops Map.empty), h)
    \<and> hmap h = snd (run_pure map_op ops Map.empty) \<and> table_ptr h = p
    \<and> dump_hash_table h = Returns ()"
proof -
  let ?h = "init_hashtable sz p"
  have sz: "0 < sz"
    using assms(2) by (metis gr_implies_not0 unsigned_0 word_neq_0_conv)
  have c: "sum_list (List.map (\<lambda>oper. if op_type oper = PUT then 1 else 0) ops)
      = length (filter (\<lambda>oper. op_type oper = PUT) ops)"
    by (induction ops) simp_all
  have "hash_ok ?h \<and> 0 < empties ?h \<and> table_ptr ?h = p"
    using init_hashtable_ok [OF sz] sz
    by (auto simp: unat_gt_0 word_neq_0_conv init_hashtable_def)
  from dictionary.run_refines [OF this, of ops] assms c init_hashtable_ok [OF sz] show ?thesis
    using dump_hash_table_ok by (fastforce simp: op_ok_def)
qed

theorem hash_ops_refine_map_witness:
  "\<exists>h. run_ops process_op [example_op 5 PUT, example_op 9 PUT, example_op 5 DEL, example_op 9 GET,
      example_op 5 GET] (init_hashtable 4 0)
     = Returns ([(0, example_op 5 PUT), (0, example_op 9 PUT), (0, example_op 5 DEL),
         (0, example_op 9 GET), (- 1, example_op 5 GET)], h)
   \<and> hmap h 9 = Some (7, 3, 100) \<and> hmap h 5 = None"
proof -
  let ?ops = "[example_op 5 PUT, example_op 9 PUT, example_op 5 DEL, example_op 9 GET,
      example_op 5 GET]"
  have r: "run_pure map_op ?ops Map.empty = ([(0, example_op 5 PUT), (0, example_op 9 PUT),
      (0, example_op 5 DEL), (0, example_op 9 GET), (- 1, example_op 5 GET)], [9 \<mapsto> (7, 3, 100)])"
    by (auto simp: map_op_def example_op_def op_val_def PUT_def GET_def DEL_def Let_def)
  have "length (filter (\<lambda>oper. op_type oper = PUT) ?ops) < unat (4 :: u32)"
    by (simp add: example_op_def PUT_def GET_def DEL_def)
  moreover have "\<forall>oper \<in> set ?ops. op_key oper \<noteq> 0 \<and> op_type oper \<in> {PUT, GET, DEL}"
    by (simp add: example_op_def)
  ultimately obtain h where "run_ops process_op ?ops (init_hashtable 4 0)
      = Returns (fst (run_pure map_op ?ops Map.empty), h)"
    "hmap h = snd (run_pure map_op ?ops Map.empty)"
    using hash_ops_refine_map [of ?ops 4 0] by blast
  then show ?thesis
    unfolding r by (intro exI [of _ h]) (simp only: fst_conv snd_conv, simp)
qed

text \<open>
  The result of \<open>lookup\<close> on a well-formed table: the value of the key if there is one, and
  \<open>-1\<close> otherwise; but in a table without a slot that was never used, the search for a missing
  key whose hash value is 0 does not end.
\<close>

theorem lookup_result:
  assumes "hash_ok h" "op_key oper \<noteq> 0"
  shows "lookup h oper =
    (case hmap h (op_key oper) of
       Some (i, l, d) \<Rightarrow> Returns (0, oper\<lparr>op_datalen := l, op_data := d\<rparr>)
     | None \<Rightarrow>
         if (\<forall>e \<in> set (table h). occupied e) \<and> hashfunc (op_key oper) (table_size h) = 0 then Hangs
         else Returns (- 1, oper))"
  using lookup_spec [OF assms(1) refl assms(2)]
  by (auto simp: stuck_def home_def empties_def filter_empty_conv unsigned_eq_0_iff
      split: option.splits)

theorem lookup_result_witness:
  "lookup (example_table [example_entry 1]) (example_op 2 GET) = Hangs"
proof -
  have "hmap (example_table [example_entry 1]) 2 = None"
    by (simp add: hmap_def example_entry_def)
  moreover have "hashfunc 2 1 = 0"
    by code_simp
  ultimately show ?thesis
    using lookup_result [OF example_table_1, of "example_op 2 GET"]
    by (simp add: example_op_def occupied_def example_entry_def)
qed

text \<open>
  When the only slot without a key is the home slot of a new key, deleted before,
  \<open>insert_update\<close> overlooks it: the second loop tests the slot behind it first. The new key
  overwrites the one in the last slot of the probe sequence, which is lost.
\<close>

theorem insert_update_overwrites:
  assumes "hash_ok h" "op_key oper = k" "k \<noteq> 0" "hmap h k = None" "0 < home h k"
    and "table h ! home h k = tombstone"
    and "\<forall>i < unat (table_size h). i \<noteq> home h k \<longrightarrow> e_key (table h ! i) \<noteq> 0"
  shows "\<exists>h' lost. insert_update h oper = Returns (0, h') \<and> table h' ! home h k = tombstone
    \<and> lost \<noteq> k \<and> hmap h lost \<noteq> None \<and> hmap h' lost = None"
  using insert_update_forgets [OF assms] assms(4) by metis

theorem insert_update_overwrites_witness:
  "\<exists>h'. insert_update (example_table [example_entry 2, tombstone]) (example_op 3 PUT) = Returns (0, h')
     \<and> (\<exists>lost. hmap (example_table [example_entry 2, tombstone]) lost \<noteq> None \<and> hmap h' lost = None)"
proof -
  let ?h = "example_table [example_entry 2, tombstone]"
  have hf: "hashfunc 3 2 = 1" "hashfunc 2 2 = 0"
    by code_simp+
  then have home: "home ?h 3 = 1" "home ?h 2 = 0"
    by (simp_all add: home_def)
  have "hash_ok ?h"
    by (rule example_table_2) (simp_all add: home)
  moreover have "hmap ?h 3 = None"
    by (simp add: hmap_def example_entry_def tombstone_def)
  moreover have "op_key (example_op 3 PUT) = 3" "table ?h ! home ?h 3 = tombstone" "0 < home ?h 3"
    by (simp_all add: example_op_def home)
  moreover have "\<forall>i < unat (table_size ?h). i \<noteq> home ?h 3 \<longrightarrow> key_at ?h i \<noteq> 0"
    unfolding home by (simp add: less_2_cases_iff example_entry_def)
  ultimately show ?thesis
    using insert_update_overwrites [of ?h "example_op 3 PUT" 3] by fastforce
qed

text \<open>
  The serial \<open>insert_update\<close> stops at the first deleted slot, and so stores a key that
  stands behind it a second time; a \<open>DEL\<close> then removes only the new entry, and \<open>lookup\<close> finds the
  old value.
\<close>

theorem serial_delete_uncovers:
  assumes "hash_ok h" "op_key oper = k" "op_key oper' = k" "k \<noteq> 0" "table h ! home h k = tombstone"
    and "hmap h k = Some (i, l, d)"
  shows "\<exists>h' h''. serial_insert_update h oper = Returns (0, h')
    \<and> serial_purge_key h' oper' = Returns (0, h'')
    \<and> lookup h'' oper' = Returns (0, oper'\<lparr>op_datalen := l, op_data := d\<rparr>)"
  using serial_insert_then_purge [OF assms(1-5)] lookup_spec [OF assms(1,3,4)] assms(6)
  by (auto simp: stuck_def)

theorem serial_delete_uncovers_witness:
  "\<exists>h' h''. serial_insert_update (example_table [example_entry 1, tombstone]) (example_op 1 PUT)
      = Returns (0, h')
    \<and> serial_purge_key h' (example_op 1 DEL) = Returns (0, h'')
    \<and> lookup h'' (example_op 1 DEL) = Returns (0, (example_op 1 DEL)\<lparr>op_datalen := 2, op_data := 50\<rparr>)"
proof -
  let ?h = "example_table [example_entry 1, tombstone]"
  have "hashfunc 1 2 = 1"
    by code_simp
  then have home: "home ?h 1 = 1"
    by (simp add: home_def)
  have "hash_ok ?h"
    by (rule example_table_2) (simp_all add: home)
  moreover have "hmap ?h 1 = Some (1, 2, 50)"
    by (simp add: hmap_def example_entry_def entry_val_def)
  ultimately show ?thesis
    using serial_delete_uncovers [of ?h "example_op 1 PUT" 1 "example_op 1 DEL" 1 2 50] home
    by (simp add: example_op_def)
qed

end
