(* ===== verification/Op_Input.thy ===== *)
theory Op_Input
  imports Bytes Hash_Map
begin

text \<open>
  The input of the hash table programs: the binary records that \<open>create_put\<close> and
  \<open>create_get_del\<close> of \<open>inputgen.c\<close> write, \<open>read_op\<close>, which reads them from the mapped file, and
  the loop of \<open>main.c\<close> that processes them, as one thread runs it.
\<close>

section \<open>Writing the file\<close>

text \<open>
  \<open>generate_rand_text\<close>: the length (8 plus a remainder of 25) and that many characters, each from
  a random number; \<open>rs\<close> are the values of \<open>rand()\<close>, the first for the length.
\<close>

definition rand_char :: "nat \<Rightarrow> u8" where
  "rand_char r =
     (let ch = r mod 62 in
      if ch < 10 then of_nat (48 + ch)
      else if ch < 36 then of_nat (65 + ch - 10)
      else of_nat (97 + ch - 36))"

definition rand_len :: "(nat \<Rightarrow> nat) \<Rightarrow> nat" where
  "rand_len rs = 8 + rs 0 mod 25"

definition rand_text :: "(nat \<Rightarrow> nat) \<Rightarrow> u8 list" where
  "rand_text rs = List.map (\<lambda>i. rand_char (rs (Suc i))) [0..<rand_len rs]"

definition generate_rand_text :: "(nat \<Rightarrow> nat) \<Rightarrow> u8 list" where
  "generate_rand_text rs = store32 (of_nat (rand_len rs)) @ rand_text rs"

definition create_put :: "u64 \<Rightarrow> u64 \<Rightarrow> (nat \<Rightarrow> nat) \<Rightarrow> u8 list" where
  "create_put i key rs = store64 i @ store64 key @ store32 PUT @ generate_rand_text rs"

definition create_get_del :: "u64 \<Rightarrow> u64 \<Rightarrow> u32 \<Rightarrow> u8 list" where
  "create_get_del i key ty = store64 i @ store64 key @ store32 ty"

section \<open>Reading it\<close>

text \<open>
  The mapped memory consists of the file and the rest of its last page; reading behind it
  faults. \<open>curr\<close> is an offset from \<open>data\<close>, whose address is \<open>base\<close>.
\<close>

record input_manager =
  base :: u64
  mem :: "u8 list"
  curr :: nat
  input_size :: nat

definition read_op :: "input_manager \<Rightarrow> op_t \<Rightarrow> (i32 \<times> op_t \<times> input_manager) run" where
  "read_op inp oper =
     (let c = curr inp; m = mem inp in
      if c + 24 > length m then Faults
      else
        (let oper = oper\<lparr>op_id := load64 m c, op_key := load64 m (c + 8),
               op_type := load32 m (c + 16), op_datalen := load32 m (c + 20)\<rparr> in
         if op_type oper = GET \<or> op_type oper = DEL then
           (let inp = inp\<lparr>curr := c + 20\<rparr> in
            Returns (if curr inp > input_size inp then - 1 else 0, oper, inp))
         else if op_type oper = PUT then
           (let oper = oper\<lparr>op_data := base inp + of_nat (c + 24)\<rparr>;
                inp = inp\<lparr>curr := c + 24 + unat (op_datalen oper)\<rparr> in
            Returns (if curr inp > input_size inp then - 1 else 0, oper, inp))
         else Faults))"

lemma read_op_advances:
  "read_op inp oper = Returns (0, oper', inp') \<Longrightarrow>
    curr inp < curr inp' \<and> curr inp' \<le> input_size inp' \<and> input_size inp' = input_size inp"
  by (auto simp: read_op_def Let_def split: if_splits)

section \<open>The program\<close>

text \<open>The loop of \<open>process\<close>; the log has the three numbers of every line it writes.\<close>

function process :: "input_manager \<Rightarrow> op_t \<Rightarrow> hash_t \<Rightarrow> ((u64 \<times> u32 \<times> i32) list \<times> hash_t) run" where
  "process inp oper h =
     (case read_op inp oper of
        Returns (ret, oper, inp') \<Rightarrow>
          if ret \<noteq> 0 then Returns ([], h)
          else
            run_bind (process_op oper h) (\<lambda>((r, oper'), h).
              run_bind (process inp' oper' h) (\<lambda>(log, h).
                Returns ((op_id oper, op_type oper, r) # log, h)))
      | Hangs \<Rightarrow> Hangs
      | Faults \<Rightarrow> Faults)"
  by pat_completeness auto
termination
  by (relation "measure (\<lambda>(inp, oper, h). input_size inp - curr inp)")
    (auto dest!: read_op_advances)

declare process.simps [simp del]

section \<open>Reading what was written\<close>

text \<open>The records of a file, their encoding, and the results expected for them.\<close>

datatype input_rec = Put u64 u64 "nat \<Rightarrow> nat" | Get u64 u64 | Del u64 u64

fun encode :: "input_rec \<Rightarrow> u8 list" where
  "encode (Put i k rs) = create_put i k rs"
| "encode (Get i k) = create_get_del i k GET"
| "encode (Del i k) = create_get_del i k DEL"

fun rec_id :: "input_rec \<Rightarrow> u64" where
  "rec_id (Put i k rs) = i" | "rec_id (Get i k) = i" | "rec_id (Del i k) = i"

fun rec_key :: "input_rec \<Rightarrow> u64" where
  "rec_key (Put i k rs) = k" | "rec_key (Get i k) = k" | "rec_key (Del i k) = k"

fun rec_type :: "input_rec \<Rightarrow> u32" where
  "rec_type (Put i k rs) = PUT" | "rec_type (Get i k) = GET" | "rec_type (Del i k) = DEL"

fun rec_data :: "input_rec \<Rightarrow> u8 list" where
  "rec_data (Put i k rs) = rand_text rs" | "rec_data _ = []"

fun expected :: "input_rec list \<Rightarrow> u64 set \<Rightarrow> (u64 \<times> u32 \<times> i32) list" where
  "expected [] S = []"
| "expected (Put i k rs # recs) S = (i, PUT, 0) # expected recs (insert k S)"
| "expected (Get i k # recs) S = (i, GET, if k \<in> S then 0 else - 1) # expected recs S"
| "expected (Del i k # recs) S = (i, DEL, if k \<in> S then 0 else - 1) # expected recs (S - {k})"

lemma op_types [simp]:
  "PUT \<noteq> GET" "PUT \<noteq> DEL" "GET \<noteq> DEL" "GET \<noteq> PUT" "DEL \<noteq> PUT" "DEL \<noteq> GET"
  by (simp_all add: PUT_def GET_def DEL_def)

lemma rand_len_bounds: "8 \<le> rand_len rs" "rand_len rs \<le> 32"
proof -
  have "rs 0 mod 25 < 25"
    by simp
  then show "8 \<le> rand_len rs" "rand_len rs \<le> 32"
    unfolding rand_len_def by linarith+
qed

lemma length_rand_text [simp]: "length (rand_text rs) = rand_len rs"
  by (simp add: rand_text_def)

lemma unat_rand_len: "unat (of_nat (rand_len rs) :: u32) = rand_len rs"
  using rand_len_bounds(2) [of rs] by (simp add: unat_of_nat)

lemma encode_header:
  "\<exists>tl. encode r = store64 (rec_id r) @ store64 (rec_key r) @ store32 (rec_type r) @ tl"
  by (cases r) (auto simp: create_put_def create_get_del_def)

lemma load_header:
  assumes "m = pre @ encode r @ rest"
  shows "load64 m (length pre) = rec_id r" "load64 m (length pre + 8) = rec_key r"
    "load32 m (length pre + 16) = rec_type r"
proof -
  obtain tl where e: "encode r = store64 (rec_id r) @ store64 (rec_key r) @ store32 (rec_type r) @ tl"
    using encode_header by blast
  show "load64 m (length pre) = rec_id r"
    unfolding assms e by simp
  show "load64 m (length pre + 8) = rec_key r"
    using load64_store [of "pre @ store64 (rec_id r)" "rec_key r" "store32 (rec_type r) @ tl @ rest"]
    unfolding assms e by simp
  show "load32 m (length pre + 16) = rec_type r"
    using load32_store [of "pre @ store64 (rec_id r) @ store64 (rec_key r)" "rec_type r" "tl @ rest"]
    unfolding assms e by simp
qed

lemma load_put_len:
  assumes "m = pre @ encode (Put i k rs) @ rest"
  shows "load32 m (length pre + 20) = of_nat (rand_len rs)"
  using load32_store [of "pre @ store64 i @ store64 k @ store32 PUT" "of_nat (rand_len rs)"
      "rand_text rs @ rest"]
  unfolding assms by (simp add: create_put_def generate_rand_text_def)

lemma length_create [simp]:
  "length (create_put i k rs) = 24 + rand_len rs" "length (create_get_del i k ty) = 20"
  by (simp_all add: create_put_def generate_rand_text_def create_get_del_def)

lemma read_op_encode:
  assumes m: "mem inp = pre @ encode r @ rest" and c: "curr inp = length pre" and "24 \<le> length rest"
    and "length pre + length (encode r) \<le> input_size inp"
  shows "\<exists>oper'. read_op inp oper = Returns (0, oper', inp\<lparr>curr := length pre + length (encode r)\<rparr>)
    \<and> op_id oper' = rec_id r \<and> op_key oper' = rec_key r \<and> op_type oper' = rec_type r
    \<and> (\<forall>i k rs. r = Put i k rs \<longrightarrow> unat (op_datalen oper') = length (rec_data r)
        \<and> op_data oper' = base inp + of_nat (length pre + 24))"
proof -
  have "length pre + 24 \<le> length (mem inp)"
    using assms(3) unfolding m by simp
  moreover note h = load_header [OF m]
  show ?thesis
  proof (cases r)
    case (Put i k rs)
    have "load32 (mem inp) (length pre + 20) = of_nat (rand_len rs)"
      using load_put_len [of "mem inp" pre i k rs rest] m Put by simp
    then show ?thesis
      using calculation h assms(4) c Put by (simp add: read_op_def Let_def unat_rand_len)
  qed (use calculation h assms(4) c in \<open>simp_all add: read_op_def Let_def\<close>)
qed

lemma load32_zeros:
  assumes "\<forall>k < 4. m ! (p + k) = 0"
  shows "load32 m p = 0"
  using assms by (intro bit_word_eqI) (simp add: load32_def bit_load)

lemma read_op_end:
  assumes "mem inp = pre @ replicate pad 0" "curr inp = length pre" "24 \<le> pad"
    and "input_size inp = length pre"
  shows "\<exists>oper' inp'. read_op inp oper = Returns (- 1, oper', inp')"
proof -
  have z: "load32 (mem inp) (length pre + 16) = 0" "load32 (mem inp) (length pre + 20) = 0"
    using assms(1,3) by (auto intro!: load32_zeros simp: nth_append)
  show ?thesis
    using assms z by (simp add: read_op_def Let_def PUT_def GET_def DEL_def)
qed

section \<open>The whole program\<close>

definition is_put :: "input_rec \<Rightarrow> bool" where
  "is_put r \<longleftrightarrow> rec_type r = PUT"

text \<open>The keys stored after a record, and after a file.\<close>

fun key_effect :: "input_rec \<Rightarrow> u64 set \<Rightarrow> u64 set" where
  "key_effect (Put i k rs) S = insert k S"
| "key_effect (Get i k) S = S"
| "key_effect (Del i k) S = S - {k}"

definition keys_after :: "input_rec list \<Rightarrow> u64 set" where
  "keys_after recs = fold key_effect recs {}"

text \<open>
  The map stored after a record, and after a file: to a key belong the id of the last \<open>PUT\<close>, the
  length of its text, and the address of the text in the file, which is mapped at \<open>b\<close>. \<open>p\<close> is the
  position of the record in the file.
\<close>

fun map_effect :: "u64 \<Rightarrow> nat \<Rightarrow> input_rec \<Rightarrow> (u64 \<Rightarrow> entry_val option) \<Rightarrow> (u64 \<Rightarrow> entry_val option)" where
  "map_effect b p (Put i k rs) m = m(k \<mapsto> (ucast i, of_nat (rand_len rs), b + of_nat (p + 24)))"
| "map_effect b p (Get i k) m = m"
| "map_effect b p (Del i k) m = m(k := None)"

fun map_after :: "u64 \<Rightarrow> nat \<Rightarrow> input_rec list \<Rightarrow> (u64 \<Rightarrow> entry_val option) \<Rightarrow> (u64 \<Rightarrow> entry_val option)" where
  "map_after b p [] m = m"
| "map_after b p (r # recs) m = map_after b (p + length (encode r)) recs (map_effect b p r m)"

definition file_of :: "input_rec list \<Rightarrow> u8 list" where
  "file_of recs = concat (List.map encode recs)"

lemma map_after_append:
  "map_after b p (recs @ recs') m = map_after b (p + length (file_of recs)) recs' (map_after b p recs m)"
  by (induction recs arbitrary: p m) (simp_all add: file_of_def add.assoc)

lemma dom_map_after: "dom (map_after b p recs m) = fold key_effect recs (dom m)"
proof (induction recs arbitrary: p m)
  case (Cons r recs)
  have "dom (map_effect b p r m) = key_effect r (dom m)"
    by (cases r) auto
  then show ?case
    by (simp add: Cons.IH)
qed simp

lemma map_op_expected:
  assumes "op_id oper = rec_id r" "op_key oper = rec_key r" "op_type oper = rec_type r"
  shows "expected (r # recs) (dom m) =
    (op_id oper, op_type oper, fst (fst (map_op oper m))) # expected recs (dom (snd (map_op oper m)))"
  using assms
  by (cases r; auto simp: map_op_def Let_def domIff split: option.splits)

text \<open>The length and the address of the text in the operation read for the record at \<open>p\<close>.\<close>

definition payload :: "u64 \<Rightarrow> nat \<Rightarrow> input_rec \<Rightarrow> op_t \<Rightarrow> bool" where
  "payload b p r oper \<longleftrightarrow> (is_put r \<longrightarrow>
     op_datalen oper = of_nat (length (rec_data r)) \<and> op_data oper = b + of_nat (p + 24))"

lemma payload_read:
  assumes "\<forall>i k rs. r = Put i k rs \<longrightarrow> unat (op_datalen oper) = length (rec_data r)
    \<and> op_data oper = b + of_nat (p + 24)"
  shows "payload b p r oper"
proof (cases r)
  case (Put i k rs)
  then show ?thesis
    using assms unat_rand_len [of rs] unfolding payload_def by (auto simp: word_unat_eq_iff)
qed (simp_all add: payload_def is_put_def)

lemma map_op_effect:
  assumes "op_id oper = rec_id r" "op_key oper = rec_key r" "op_type oper = rec_type r" "payload b p r oper"
  shows "snd (map_op oper m) = map_effect b p r m"
  using assms
  by (cases r; auto simp: map_op_def op_val_def payload_def is_put_def Let_def split: option.splits)

lemma process_records:
  "mem inp = pre @ file_of recs @ replicate pad 0 \<Longrightarrow> 24 \<le> pad \<Longrightarrow>
    curr inp = length pre \<Longrightarrow> input_size inp = length pre + length (file_of recs) \<Longrightarrow>
    hash_ok h \<Longrightarrow> length (filter is_put recs) < empties h \<Longrightarrow> \<forall>r \<in> set recs. rec_key r \<noteq> 0 \<Longrightarrow>
    \<exists>h'. process inp oper h = Returns (expected recs (dom (hmap h)), h') \<and> hash_ok h'
      \<and> hmap h' = map_after (base inp) (length pre) recs (hmap h)"
proof (induction recs arbitrary: inp pre oper h)
  case Nil
  then obtain oper' inp' where "read_op inp oper = Returns (- 1, oper', inp')"
    using read_op_end [of inp pre pad oper] by (auto simp: file_of_def)
  then show ?case
    using Nil.prems(5) by (simp add: process.simps [of inp])
next
  case (Cons r recs)
  let ?inp = "inp\<lparr>curr := length pre + length (encode r)\<rparr>"
  have f: "file_of (r # recs) = encode r @ file_of recs"
    by (simp add: file_of_def)
  have m: "mem inp = pre @ encode r @ (file_of recs @ replicate pad 0)"
    using Cons.prems(1) by (simp add: f)
  obtain oper1 where o: "read_op inp oper = Returns (0, oper1, ?inp)"
    "op_id oper1 = rec_id r" "op_key oper1 = rec_key r" "op_type oper1 = rec_type r"
    and load: "payload (base inp) (length pre) r oper1"
    using read_op_encode [OF m Cons.prems(3), of oper] Cons.prems(2,4) payload_read
    unfolding f by auto
  note effect = map_op_effect [OF o(2-4) load]
  have ok: "op_ok oper1"
    using Cons.prems(7) o by (cases r) (auto simp: op_ok_def)
  have "(if op_type oper1 = PUT then 1 else 0) \<le> empties h - 1"
    using Cons.prems(6) o(4) by (auto simp: is_put_def)
  from process_op_refines [OF Cons.prems(5) _ ok this] Cons.prems(6) obtain h1 where
    h1: "process_op oper1 h = Returns (fst (map_op oper1 (hmap h)), h1)" "hash_ok h1"
      "hmap h1 = snd (map_op oper1 (hmap h))"
      "empties h - 1 \<le> empties h1 - 1 + (if op_type oper1 = PUT then 1 else 0)" "0 < empties h1"
    by auto
  obtain ret oper2 where r: "fst (map_op oper1 (hmap h)) = (ret, oper2)"
    by (cases "fst (map_op oper1 (hmap h))")
  have "length (filter is_put recs) < empties h1"
    using h1(4,5) Cons.prems(6) o(4) by (auto simp: is_put_def [abs_def] split: if_splits)
  from Cons.IH [of ?inp "pre @ encode r" h1 oper2, OF _ Cons.prems(2) _ _ h1(2) this]
    Cons.prems(1,4,7) obtain h' where
    "process ?inp oper2 h1 = Returns (expected recs (dom (hmap h1)), h')" "hash_ok h'"
      "hmap h' = map_after (base inp) (length pre + length (encode r)) recs (hmap h1)"
    unfolding f by auto
  then show ?case
    using o h1 r map_op_expected [OF o(2-4), of recs "hmap h"] effect by (simp add: process.simps [of inp])
qed

section \<open>Properties\<close>

text \<open>
  C37: \<open>read_op\<close> reads back the records \<open>create_put\<close> and \<open>create_get_del\<close> write, where at least 24
  mapped bytes follow the record: id, key and type, and for a \<open>PUT\<close> the length and the position of
  the text; it moves on to the next record.
\<close>

theorem read_op_roundtrip:
  assumes "mem inp = pre @ encode r @ rest" "curr inp = length pre" "24 \<le> length rest"
    and "length pre + length (encode r) \<le> input_size inp"
  shows "\<exists>oper'. read_op inp oper = Returns (0, oper', inp\<lparr>curr := length pre + length (encode r)\<rparr>)
    \<and> op_id oper' = rec_id r \<and> op_key oper' = rec_key r \<and> op_type oper' = rec_type r
    \<and> (rec_type r = PUT \<longrightarrow>
         op_data oper' = base inp + of_nat (length pre + 24)
         \<and> take (unat (op_datalen oper')) (drop (length pre + 24) (mem inp)) = rec_data r)"
proof -
  have "take (rand_len rs) (drop (length pre + 24) (mem inp)) = rand_text rs" if "r = Put i k rs" for i k rs
    unfolding assms(1) that by (simp add: create_put_def generate_rand_text_def)
  then show ?thesis
    using read_op_encode [OF assms, of oper] by (cases r) auto
qed

theorem read_op_roundtrip_witness:
  "\<exists>oper' inp'. read_op
      \<lparr>base = 0, mem = encode (Get 1 5) @ encode (Put 2 6 id), curr = 0, input_size = 52\<rparr>
      (example_op 0 0) = Returns (0, oper', inp') \<and> op_key oper' = 5 \<and> curr inp' = 20"
proof -
  have "length (encode (Put 2 6 id)) = 32"
    by (simp add: rand_len_def)
  then show ?thesis
    using read_op_roundtrip [of "\<lparr>base = 0, mem = encode (Get 1 5) @ encode (Put 2 6 id), curr = 0,
        input_size = 52\<rparr>" "[]" "Get 1 5" "encode (Put 2 6 id)" "example_op 0 0"]
    by auto
qed

text \<open>
  C2: The program end to end. On a file of generated records whose keys are not 0, with fewer \<open>PUT\<close>s
  than the table has slots, a single thread logs for every record its id, its type and the result expected
  of a set of keys, stops at the end of the file, provided at least 24 bytes of the last
  page follow it, and leaves for every key the id of its last \<open>PUT\<close> and the length and the
  address of that record's text.
\<close>

theorem hash_program_correct:
  assumes "0 < sz" "length (filter (\<lambda>r. rec_type r = PUT) recs) < unat sz" "24 \<le> pad"
    and "\<forall>r \<in> set recs. rec_key r \<noteq> 0"
    and "file = concat (List.map encode recs)"
  shows "\<exists>h. process \<lparr>base = b, mem = file @ replicate pad 0, curr = 0, input_size = length file\<rparr>
      oper (init_hashtable sz p) = Returns (expected recs {}, h)
    \<and> hmap h = map_after b 0 recs Map.empty \<and> dump_hash_table h = Returns ()"
proof -
  let ?inp = "\<lparr>base = b, mem = file @ replicate pad 0, curr = 0, input_size = length file\<rparr>"
  note new = init_hashtable_ok [OF assms(1), of p]
  have "length (filter is_put recs) < empties (init_hashtable sz p)"
    using assms(2) new(3) by (simp add: is_put_def [abs_def])
  from process_records [of ?inp "[]" recs pad, OF _ assms(3) _ _ new(1) this assms(4), of oper]
    assms(5) new(2) show ?thesis
    using dump_hash_table_ok by (auto simp: file_of_def)
qed

theorem hash_program_correct_witness:
  "\<exists>h. process \<lparr>base = 0, mem = concat (List.map encode [Put 1 5 id, Get 2 5, Del 3 7]) @ replicate 30 0,
      curr = 0, input_size = 72\<rparr> (example_op 0 0) (init_hashtable 4 0)
    = Returns ([(1, 0, 0), (2, 1, 0), (3, 2, - 1)], h) \<and> hmap h 5 = Some (1, 8, 24)"
proof -
  let ?recs = "[Put 1 5 id, Get 2 5, Del 3 7]"
  have val: "map_after 0 0 ?recs Map.empty 5 = Some (1, 8, 24)"
    by (simp add: rand_len_def)
  have len: "length (concat (List.map encode ?recs)) = 72"
    by (simp add: rand_len_def)
  have out: "expected ?recs {} = [(1, 0, 0), (2, 1, 0), (3, 2, - 1)]"
    by (simp add: PUT_def GET_def DEL_def)
  have "length (filter (\<lambda>r. rec_type r = PUT) ?recs) < unat (4 :: u32)"
    by simp
  moreover have "\<forall>r \<in> set ?recs. rec_key r \<noteq> 0"
    by simp
  ultimately obtain h where "process \<lparr>base = 0, mem = concat (List.map encode ?recs) @ replicate 30 0,
      curr = 0, input_size = length (concat (List.map encode ?recs))\<rparr> (example_op 0 0) (init_hashtable 4 0)
      = Returns (expected ?recs {}, h)" "hmap h = map_after 0 0 ?recs Map.empty"
    using hash_program_correct [of 4 ?recs 30 _ 0 "example_op 0 0" 0, OF _ _ _ _ refl] by fastforce
  then show ?thesis
    using val unfolding len out by (intro exI [of _ h]) simp
qed

end
