(* ===== verification/Parallel_Hash.thy ===== *)
theory Parallel_Hash
  imports Op_Input
begin

text \<open>
  The threads of the hash table program: \<open>process\<close> of \<open>main.c\<close> with the \<open>read_op\<close>, \<open>done_one\<close>,
  \<open>lookup\<close>, \<open>insert_update\<close> and \<open>purge_key\<close> of \<open>parallel_hash.c\<close>, as steps that any schedule may
  interleave. A step is one critical section of \<open>in->lock\<close>, one look at an entry under its own
  lock, or one load or store of a field of an entry.
\<close>

section \<open>Data\<close>

text \<open>
  Where a thread stands. \<open>Waiting\<close> is inside \<open>pthread_cond_wait\<close>, \<open>Woken\<close> behind it. \<open>Op_Done\<close>
  is before the call of \<open>done_one\<close> and \<open>Log_Line\<close> behind it, before the line is written. The
  positions \<open>Probe\<close> are the loads of the search loop that \<open>lookup\<close> and \<open>purge_key\<close> share:
  \<open>entry->key\<close>, \<open>entry->id\<close>, and \<open>entry->key\<close> again; \<open>Get_Key\<close> and \<open>Del_Lock\<close> stand behind it.
  \<open>Put_Probe\<close> and \<open>Put_Again\<close> are the two loops of \<open>insert_update\<close>, before the lock of the entry
  is taken. The positions \<open>Del\<close>, \<open>Upd\<close> and \<open>New\<close> are the assignments to the fields.
\<close>

datatype pos =
    Ready | Waiting | Woken | Op_Done i32 | Log_Line i32 | Exited
  | Probe_Key u32 | Probe_Id u32 | Probe_Cmp u32
  | Get_Key u32 | Get_Len u32 | Get_Data u32
  | Del_Lock u32 | Del_Id u32 | Del_Key u32 | Del_Len u32 | Del_Data u32 | Del_Count
  | Put_Assert | Put_Probe u32 | Put_Again u32
  | Upd_Id u32 | Upd_Len u32 | Upd_Data u32
  | New_Id u32 | New_Len u32 | New_Key u32 | New_Data u32 | New_Count

record worker =
  wpos :: pos
  wop :: op_t
  wlog :: "(u64 \<times> u32 \<times> i32) list"

text \<open>
  \<open>being_processed\<close> has the null pointer or a pointer to the operation of a thread, which is the
  thread's number.
\<close>

record par_state =
  workers :: "worker list"
  input :: input_manager
  being_processed :: "nat option list"
  htable :: hash_t

definition THREADS :: nat where "THREADS = 32"

section \<open>The operations on the table\<close>

text \<open>The entry whose lock a thread holds.\<close>

fun holds :: "pos \<Rightarrow> u32 option" where
  "holds (Del_Id c) = Some c" | "holds (Del_Key c) = Some c"
| "holds (Del_Len c) = Some c" | "holds (Del_Data c) = Some c"
| "holds (Upd_Id c) = Some c" | "holds (Upd_Len c) = Some c" | "holds (Upd_Data c) = Some c"
| "holds (New_Id c) = Some c" | "holds (New_Len c) = Some c"
| "holds (New_Key c) = Some c" | "holds (New_Data c) = Some c"
| "holds p = None"

definition lock_free :: "worker list \<Rightarrow> u32 \<Rightarrow> bool" where
  "lock_free ws c = list_all (\<lambda>w. holds (wpos w) \<noteq> Some c) ws"

definition hash_of :: "op_t \<Rightarrow> hash_t \<Rightarrow> u32" where
  "hash_of oper h = hashfunc (op_key oper) (table_size h)"

definition next_ctr :: "u32 \<Rightarrow> hash_t \<Rightarrow> u32" where
  "next_ctr c h = (c + 1) mod table_size h"

definition entry_at :: "u32 \<Rightarrow> hash_t \<Rightarrow> hash_entry" where
  "entry_at c h = table h ! unat c"

definition upd_entry :: "u32 \<Rightarrow> (hash_entry \<Rightarrow> hash_entry) \<Rightarrow> hash_t \<Rightarrow> hash_t" where
  "upd_entry c f h = set_entry c (f (entry_at c h)) h"

text \<open>The loads of \<open>while((entry->key || entry->id == -1) && entry->key != op->key && ctr != hashval - 1)\<close>.\<close>

definition behind_probe :: "op_t \<Rightarrow> u32 \<Rightarrow> pos" where
  "behind_probe oper c = (if op_type oper = GET then Get_Key c else Del_Lock c)"

fun probe_step :: "pos \<Rightarrow> op_t \<Rightarrow> hash_t \<Rightarrow> pos" where
  "probe_step (Probe_Key c) oper h =
     (if e_key (entry_at c h) \<noteq> 0 then Probe_Cmp c else Probe_Id c)"
| "probe_step (Probe_Id c) oper h =
     (if e_id (entry_at c h) = - 1 then Probe_Cmp c else behind_probe oper c)"
| "probe_step (Probe_Cmp c) oper h =
     (if e_key (entry_at c h) \<noteq> op_key oper \<and> c \<noteq> hash_of oper h - 1
      then Probe_Key (next_ctr c h) else behind_probe oper c)"
| "probe_step p oper h = p"

text \<open>The rest of \<open>lookup\<close>.\<close>

fun get_step :: "pos \<Rightarrow> op_t \<Rightarrow> hash_t \<Rightarrow> pos \<times> op_t" where
  "get_step (Get_Key c) oper h =
     (if e_key (entry_at c h) = op_key oper then Get_Len c else Op_Done (- 1), oper)"
| "get_step (Get_Len c) oper h = (Get_Data c, oper\<lparr>op_datalen := e_datalen (entry_at c h)\<rparr>)"
| "get_step (Get_Data c) oper h = (Op_Done 0, oper\<lparr>op_data := e_data (entry_at c h)\<rparr>)"
| "get_step p oper h = (p, oper)"

text \<open>The rest of \<open>purge_key\<close>, with the lock of the entry from \<open>Del_Id\<close> on.\<close>

fun del_step :: "pos \<Rightarrow> op_t \<Rightarrow> hash_t \<Rightarrow> pos \<times> hash_t" where
  "del_step (Del_Lock c) oper h =
     (if e_key (entry_at c h) = op_key oper then Del_Id c else Op_Done (- 1), h)"
| "del_step (Del_Id c) oper h = (Del_Key c, upd_entry c (\<lambda>e. e\<lparr>e_id := - 1\<rparr>) h)"
| "del_step (Del_Key c) oper h = (Del_Len c, upd_entry c (\<lambda>e. e\<lparr>e_key := 0\<rparr>) h)"
| "del_step (Del_Len c) oper h = (Del_Data c, upd_entry c (\<lambda>e. e\<lparr>e_datalen := 0\<rparr>) h)"
| "del_step (Del_Data c) oper h = (Del_Count, upd_entry c (\<lambda>e. e\<lparr>e_data := 0\<rparr>) h)"
| "del_step Del_Count oper h = (Op_Done 0, add_used (- 1) h)"
| "del_step p oper h = (p, h)"

text \<open>
  \<open>insert_update\<close>: the loops look at an entry under its lock; when a loop ends the lock is kept.
  The second loop looks at the entry where the first one ended before it goes on behind
  \<open>hashval\<close>.
\<close>

definition put_at :: "u32 \<Rightarrow> op_t \<Rightarrow> hash_t \<Rightarrow> pos" where
  "put_at c oper h = (if e_key (entry_at c h) = op_key oper then Upd_Id c else New_Id c)"

fun put_probe_step :: "pos \<Rightarrow> op_t \<Rightarrow> hash_t \<Rightarrow> pos" where
  "put_probe_step (Put_Probe c) oper h =
     (let k = op_key oper; hashval = hash_of oper h in
      if search k (entry_at c h) \<and> c \<noteq> hashval - 1 then Put_Probe (next_ctr c h)
      else if c = hashval - 1 \<and> search_free k (entry_at c h) then Put_Again (next_ctr hashval h)
      else put_at c oper h)"
| "put_probe_step (Put_Again c) oper h =
     (if search_free (op_key oper) (entry_at c h) \<and> c \<noteq> hash_of oper h - 1
      then Put_Again (next_ctr c h) else put_at c oper h)"
| "put_probe_step p oper h = p"

fun put_step :: "pos \<Rightarrow> op_t \<Rightarrow> hash_t \<Rightarrow> pos \<times> hash_t" where
  "put_step (Upd_Id c) oper h = (Upd_Len c, upd_entry c (\<lambda>e. e\<lparr>e_id := ucast (op_id oper)\<rparr>) h)"
| "put_step (Upd_Len c) oper h = (Upd_Data c, upd_entry c (\<lambda>e. e\<lparr>e_datalen := op_datalen oper\<rparr>) h)"
| "put_step (Upd_Data c) oper h = (Op_Done 0, upd_entry c (\<lambda>e. e\<lparr>e_data := op_data oper\<rparr>) h)"
| "put_step (New_Id c) oper h = (New_Len c, upd_entry c (\<lambda>e. e\<lparr>e_id := ucast (op_id oper)\<rparr>) h)"
| "put_step (New_Len c) oper h = (New_Key c, upd_entry c (\<lambda>e. e\<lparr>e_datalen := op_datalen oper\<rparr>) h)"
| "put_step (New_Key c) oper h = (New_Data c, upd_entry c (\<lambda>e. e\<lparr>e_key := op_key oper\<rparr>) h)"
| "put_step (New_Data c) oper h = (New_Count, upd_entry c (\<lambda>e. e\<lparr>e_data := op_data oper\<rparr>) h)"
| "put_step New_Count oper h = (Op_Done 0, add_used 1 h)"
| "put_step p oper h = (p, h)"

text \<open>One step of an operation; \<^const>\<open>None\<close> while the lock of the entry is taken.\<close>

definition stores :: "op_t \<Rightarrow> pos \<times> hash_t \<Rightarrow> (pos \<times> op_t \<times> hash_t) run option" where
  "stores oper r = (case r of (p, h) \<Rightarrow> Some (Returns (p, oper, h)))"

definition loads :: "hash_t \<Rightarrow> pos \<times> op_t \<Rightarrow> (pos \<times> op_t \<times> hash_t) run option" where
  "loads h r = (case r of (p, oper) \<Rightarrow> Some (Returns (p, oper, h)))"

fun op_step :: "(u32 \<Rightarrow> bool) \<Rightarrow> pos \<Rightarrow> op_t \<Rightarrow> hash_t \<Rightarrow> (pos \<times> op_t \<times> hash_t) run option" where
  "op_step free Put_Assert oper h =
     (if table_size h = 0 \<or> \<not> used h < table_size h \<or> op_key oper = 0 then Some Faults
      else loads h (Put_Probe (hash_of oper h), oper))"
| "op_step free (Probe_Key c) oper h = loads h (probe_step (Probe_Key c) oper h, oper)"
| "op_step free (Probe_Id c) oper h = loads h (probe_step (Probe_Id c) oper h, oper)"
| "op_step free (Probe_Cmp c) oper h = loads h (probe_step (Probe_Cmp c) oper h, oper)"
| "op_step free (Get_Key c) oper h = loads h (get_step (Get_Key c) oper h)"
| "op_step free (Get_Len c) oper h = loads h (get_step (Get_Len c) oper h)"
| "op_step free (Get_Data c) oper h = loads h (get_step (Get_Data c) oper h)"
| "op_step free (Del_Lock c) oper h = (if free c then stores oper (del_step (Del_Lock c) oper h) else None)"
| "op_step free (Del_Id c) oper h = stores oper (del_step (Del_Id c) oper h)"
| "op_step free (Del_Key c) oper h = stores oper (del_step (Del_Key c) oper h)"
| "op_step free (Del_Len c) oper h = stores oper (del_step (Del_Len c) oper h)"
| "op_step free (Del_Data c) oper h = stores oper (del_step (Del_Data c) oper h)"
| "op_step free Del_Count oper h = stores oper (del_step Del_Count oper h)"
| "op_step free (Put_Probe c) oper h = (if free c then loads h (put_probe_step (Put_Probe c) oper h, oper) else None)"
| "op_step free (Put_Again c) oper h = (if free c then loads h (put_probe_step (Put_Again c) oper h, oper) else None)"
| "op_step free (Upd_Id c) oper h = stores oper (put_step (Upd_Id c) oper h)"
| "op_step free (Upd_Len c) oper h = stores oper (put_step (Upd_Len c) oper h)"
| "op_step free (Upd_Data c) oper h = stores oper (put_step (Upd_Data c) oper h)"
| "op_step free (New_Id c) oper h = stores oper (put_step (New_Id c) oper h)"
| "op_step free (New_Len c) oper h = stores oper (put_step (New_Len c) oper h)"
| "op_step free (New_Key c) oper h = stores oper (put_step (New_Key c) oper h)"
| "op_step free (New_Data c) oper h = stores oper (put_step (New_Data c) oper h)"
| "op_step free New_Count oper h = stores oper (put_step New_Count oper h)"
| "op_step free p oper h = None"

section \<open>A thread\<close>

text \<open>Dispatch in \<open>process\<close>, to the first step of the operation.\<close>

definition start_op :: "op_t \<Rightarrow> hash_t \<Rightarrow> pos run" where
  "start_op oper h =
     (if op_type oper = GET \<or> op_type oper = DEL then
        (if table_size h = 0 then Faults else Returns (Probe_Key (hash_of oper h)))
      else if op_type oper = PUT then Returns Put_Assert
      else Faults)"

text \<open>The condition in the scan of \<open>being_processed\<close>, for some \<open>t\<close>.\<close>

definition blocked :: "par_state \<Rightarrow> nat \<Rightarrow> bool" where
  "blocked s tnum =
     (let oper = wop (workers s ! tnum) in
      list_ex (\<lambda>t. t \<noteq> tnum \<and>
        (case being_processed s ! t of
           None \<Rightarrow> False
         | Some j \<Rightarrow> (let other = wop (workers s ! j) in
             op_key oper = op_key other \<and> op_id oper > op_id other))) [0..<THREADS])"

definition set_pos :: "nat \<Rightarrow> pos \<Rightarrow> par_state \<Rightarrow> par_state" where
  "set_pos t p s = s\<lparr>workers := (workers s)[t := (workers s ! t)\<lparr>wpos := p\<rparr>]\<rparr>"

definition set_op :: "nat \<Rightarrow> op_t \<Rightarrow> par_state \<Rightarrow> par_state" where
  "set_op t oper s = s\<lparr>workers := (workers s)[t := (workers s ! t)\<lparr>wop := oper\<rparr>]\<rparr>"

text \<open>
  The scan starts again from the beginning after every wait, and the lock is held all the time
  otherwise: so it waits or returns, depending on whether one of the others blocks.
\<close>

definition scan :: "nat \<Rightarrow> par_state \<Rightarrow> par_state run" where
  "scan t s =
     (if blocked s t then Returns (set_pos t Waiting s)
      else run_bind (start_op (wop (workers s ! t)) (htable s)) (\<lambda>p. Returns (set_pos t p s)))"

definition read_step :: "nat \<Rightarrow> par_state \<Rightarrow> par_state run" where
  "read_step t s =
     run_bind (read_op (input s) (wop (workers s ! t))) (\<lambda>(ret, oper, inp).
       let s = (set_op t oper s)\<lparr>input := inp\<rparr> in
       if ret \<noteq> 0 then Returns (set_pos t Exited s)
       else scan t (s\<lparr>being_processed := (being_processed s)[t := Some t]\<rparr>))"

definition wake :: "worker \<Rightarrow> worker" where
  "wake w = (if wpos w = Waiting then w\<lparr>wpos := Woken\<rparr> else w)"

text \<open>
  \<open>done_one\<close>: the thread is no longer listed, and all that wait are woken. After that, and no
  longer under the lock, the thread writes the line to its file: the id and the type, which it has
  printed before the operation, and the result.
\<close>

definition done_one :: "nat \<Rightarrow> par_state \<Rightarrow> par_state" where
  "done_one t s =
     s\<lparr>workers := List.map wake (workers s), being_processed := (being_processed s)[t := None]\<rparr>"

definition write_log :: "nat \<Rightarrow> i32 \<Rightarrow> par_state \<Rightarrow> par_state" where
  "write_log t ret s =
     (let w = workers s ! t in
      s\<lparr>workers := (workers s)[t := w\<lparr>wlog := wlog w @ [(op_id (wop w), op_type (wop w), ret)]\<rparr>]\<rparr>)"

text \<open>\<open>process\<close>: one step of thread \<open>t\<close>; \<^const>\<open>None\<close> when it has to wait or has ended.\<close>

definition par_step :: "nat \<Rightarrow> par_state \<Rightarrow> par_state run option" where
  "par_step t s =
     (let w = workers s ! t in
      case wpos w of
        Ready \<Rightarrow> Some (read_step t s)
      | Waiting \<Rightarrow> None
      | Exited \<Rightarrow> None
      | Woken \<Rightarrow> Some (scan t s)
      | Op_Done ret \<Rightarrow> Some (Returns (set_pos t (Log_Line ret) (done_one t s)))
      | Log_Line ret \<Rightarrow> Some (Returns (set_pos t Ready (write_log t ret s)))
      | p \<Rightarrow> map_option (\<lambda>r. run_bind r (\<lambda>(p', oper, h).
          Returns ((set_pos t p' (set_op t oper s))\<lparr>htable := h\<rparr>)))
        (op_step (lock_free (workers s)) p (wop w) (htable s)))"

section \<open>\<open>main\<close>\<close>

text \<open>
  \<open>init_input_manager\<close>: \<open>file\<close> has the bytes of the file, or is \<^const>\<open>None\<close> when it cannot be
  opened; \<open>map\<close> gives the address of a mapping of that many bytes and how much of its last page
  lies behind the file.
\<close>

definition init_input_manager ::
  "u8 list option \<Rightarrow> (nat \<Rightarrow> (u64 \<times> nat) option) \<Rightarrow> input_manager option" where
  "init_input_manager file mmap =
     (case file of
        None \<Rightarrow> None
      | Some bytes \<Rightarrow>
          (case mmap (length bytes) of
             None \<Rightarrow> None
           | Some (b, pad) \<Rightarrow> Some \<lparr>base = b, mem = bytes @ replicate pad 0, curr = 0,
               input_size = length bytes\<rparr>))"

text \<open>\<open>n\<close> threads are started; \<open>junk\<close> is what \<open>malloc\<close> finds in their operations.\<close>

definition par_start :: "nat \<Rightarrow> (nat \<Rightarrow> op_t) \<Rightarrow> input_manager \<Rightarrow> hash_t \<Rightarrow> par_state" where
  "par_start n junk inp h =
     \<lparr>workers = List.map (\<lambda>t. \<lparr>wpos = Ready, wop = junk t, wlog = []\<rparr>) [0..<n],
      input = inp, being_processed = replicate THREADS None, htable = h\<rparr>"

definition HASH_TABLE_MAX :: u64 where "HASH_TABLE_MAX = 100000001"

text \<open>
  \<open>main\<close> until its threads run, with the numbers of its arguments; \<open>p\<close> is the address of the
  table. A failed \<open>assert\<close> is \<^const>\<open>Faults\<close>.
\<close>

definition hash_main ::
  "u8 list option \<Rightarrow> (nat \<Rightarrow> (u64 \<times> nat) option) \<Rightarrow> (nat \<Rightarrow> op_t) \<Rightarrow> u64 \<Rightarrow> u64 \<Rightarrow> i32 \<Rightarrow> par_state run" where
  "hash_main file mmap junk p sz num =
     (case init_input_manager file mmap of
        None \<Rightarrow> Faults
      | Some inp \<Rightarrow>
          if \<not> sz \<le> HASH_TABLE_MAX then Faults
          else
            (let h = init_hashtable (ucast sz) p in
             if \<not> (0 < sint num \<and> sint num \<le> int THREADS) then Faults
             else Returns (par_start (nat (sint num)) junk inp h)))"

text \<open>
  A step of any of the threads; a spurious wake-up, which \<open>pthread_cond_wait\<close> may have; and the
  states after \<open>k\<close> steps and \<open>w\<close> spurious wake-ups of any schedule.
\<close>

inductive par_next :: "par_state \<Rightarrow> par_state \<Rightarrow> bool" where
  par_next: "t < length (workers s) \<Longrightarrow> par_step t s = Some (Returns s') \<Longrightarrow> par_next s s'"

inductive spurious_wakeup :: "par_state \<Rightarrow> par_state \<Rightarrow> bool" where
  spurious_wakeup: "t < length (workers s) \<Longrightarrow> wpos (workers s ! t) = Waiting \<Longrightarrow>
    spurious_wakeup s (set_pos t Woken s)"

inductive_cases par_nextE: "par_next s s'"
inductive_cases spurious_wakeupE: "spurious_wakeup s s'"

abbreviation par_run :: "par_state \<Rightarrow> nat \<Rightarrow> nat \<Rightarrow> par_state \<Rightarrow> bool" where
  "par_run \<equiv> runs_with par_next spurious_wakeup"

end
