(* ===== verification/Parallel_Table.thy ===== *)
theory Parallel_Table
  imports Parallel_Hash
begin

text \<open>
  The operations of \<open>parallel_hash.c\<close> while other threads work on other keys: what a thread can
  rely on at each of its positions, and what its steps do to the table.
\<close>

section \<open>The table while operations are under way\<close>

text \<open>The invariant \<open>hash_ok\<close> without its part on \<open>used\<close>, which the threads update later.\<close>

definition tab_ok :: "hash_t \<Rightarrow> bool" where
  "tab_ok h \<longleftrightarrow> 0 < slots h \<and> length (table h) = slots h \<and> keys_unique h \<and> chains_ok h"

definition absent :: "hash_t \<Rightarrow> u64 \<Rightarrow> bool" where
  "absent h k \<longleftrightarrow> (\<forall>i < slots h. key_at h i \<noteq> k)"

text \<open>A search for \<open>k\<close> has come to the slot \<open>c\<close>.\<close>

definition searched :: "hash_t \<Rightarrow> u64 \<Rightarrow> u32 \<Rightarrow> bool" where
  "searched h k c \<longleftrightarrow> (\<exists>d < slots h. unat c = slot (slots h) (home h k) d
     \<and> (\<forall>j < d. occupied (table h ! slot (slots h) (home h k) j)
          \<and> key_at h (slot (slots h) (home h k) j) \<noteq> k))"

definition key_is :: "hash_t \<Rightarrow> u32 \<Rightarrow> u64 \<Rightarrow> bool" where
  "key_is h c k \<longleftrightarrow> unat c < slots h \<and> key_at h (unat c) = k"

text \<open>What a thread knows of the table.\<close>

fun local_ok :: "hash_t \<Rightarrow> pos \<Rightarrow> op_t \<Rightarrow> bool" where
  "local_ok h (Probe_Key c) oper = (op_type oper \<in> {GET, DEL} \<and> searched h (op_key oper) c)"
| "local_ok h (Probe_Id c) oper =
     (op_type oper \<in> {GET, DEL} \<and> searched h (op_key oper) c \<and> key_at h (unat c) \<noteq> op_key oper
      \<and> (absent h (op_key oper) \<or> key_at h (unat c) = 0 \<and> e_id (table h ! unat c) = - 1))"
| "local_ok h (Probe_Cmp c) oper =
     (op_type oper \<in> {GET, DEL} \<and> searched h (op_key oper) c \<and> occupied (table h ! unat c))"
| "local_ok h (Get_Key c) oper =
     (op_type oper = GET \<and> unat c < slots h \<and> (key_is h c (op_key oper) \<or> absent h (op_key oper)))"
| "local_ok h (Get_Len c) oper = (op_type oper = GET \<and> key_is h c (op_key oper))"
| "local_ok h (Get_Data c) oper = (op_type oper = GET \<and> key_is h c (op_key oper))"
| "local_ok h (Del_Lock c) oper =
     (op_type oper = DEL \<and> unat c < slots h \<and> (key_is h c (op_key oper) \<or> absent h (op_key oper)))"
| "local_ok h (Del_Id c) oper = (op_type oper = DEL \<and> key_is h c (op_key oper))"
| "local_ok h (Del_Key c) oper =
     (op_type oper = DEL \<and> key_is h c (op_key oper) \<and> e_id (table h ! unat c) = - 1)"
| "local_ok h (Del_Len c) oper = (op_type oper = DEL \<and> key_is h c 0 \<and> e_id (table h ! unat c) = - 1)"
| "local_ok h (Del_Data c) oper = (op_type oper = DEL \<and> key_is h c 0 \<and> e_id (table h ! unat c) = - 1)"
| "local_ok h Del_Count oper = (op_type oper = DEL)"
| "local_ok h Put_Assert oper = (op_type oper = PUT)"
| "local_ok h (Put_Probe c) oper = (op_type oper = PUT \<and> searched h (op_key oper) c)"
| "local_ok h (Put_Again c) oper = False"
| "local_ok h (Upd_Id c) oper = (op_type oper = PUT \<and> key_is h c (op_key oper))"
| "local_ok h (Upd_Len c) oper = (op_type oper = PUT \<and> key_is h c (op_key oper))"
| "local_ok h (Upd_Data c) oper = (op_type oper = PUT \<and> key_is h c (op_key oper))"
| "local_ok h (New_Id c) oper =
     (op_type oper = PUT \<and> searched h (op_key oper) c \<and> \<not> occupied (table h ! unat c) \<and> absent h (op_key oper))"
| "local_ok h (New_Len c) oper =
     (op_type oper = PUT \<and> searched h (op_key oper) c \<and> \<not> occupied (table h ! unat c) \<and> absent h (op_key oper))"
| "local_ok h (New_Key c) oper =
     (op_type oper = PUT \<and> searched h (op_key oper) c \<and> \<not> occupied (table h ! unat c) \<and> absent h (op_key oper))"
| "local_ok h (New_Data c) oper = (op_type oper = PUT \<and> key_is h c (op_key oper))"
| "local_ok h New_Count oper = (op_type oper = PUT)"
| "local_ok h p oper = True"

lemma tab_okD:
  assumes "tab_ok h"
  shows "0 < slots h" "length (table h) = slots h" "keys_unique h" "chains_ok h"
  using assms by (simp_all add: tab_ok_def)

lemma searched_less: "tab_ok h \<Longrightarrow> searched h k c \<Longrightarrow> unat c < slots h"
  using slot_less tab_okD(1) by (auto simp: searched_def)

lemma searched_start:
  assumes "tab_ok h"
  shows "searched h (op_key oper) (hash_of oper h)"
proof -
  have "unat (hash_of oper h) = home h (op_key oper)"
    by (simp add: hash_of_def home_def)
  then have "unat (hash_of oper h) = slot (slots h) (home h (op_key oper)) 0"
    using slot_0 home_less tab_okD(1) [OF assms] by simp
  then show ?thesis
    using tab_okD(1) [OF assms] by (auto simp: searched_def)
qed

text \<open>An occupied slot with another key is never the last one, while some slot is empty.\<close>

lemma searched_next:
  assumes ok: "tab_ok h" and "searched h (op_key oper) c" "occupied (table h ! unat c)"
    and "key_at h (unat c) \<noteq> op_key oper" and free: "\<exists>i < slots h. \<not> occupied (table h ! i)"
  shows "c \<noteq> hash_of oper h - 1" "searched h (op_key oper) (next_ctr c h)"
proof -
  let ?k = "op_key oper" and ?n = "slots h" and ?s = "home h (op_key oper)"
  have n: "?n < 2 ^ 32" and s: "?s < ?n"
    using unsigned_less [of "table_size h", where ?'a = nat] home_less [OF tab_okD(1) [OF ok]] by simp_all
  obtain d where d: "d < ?n" "unat c = slot ?n ?s d"
    and vis: "\<forall>j < d. occupied (table h ! slot ?n ?s j) \<and> key_at h (slot ?n ?s j) \<noteq> ?k"
    using assms(2) unfolding searched_def by blast
  have vis': "\<forall>j < Suc d. occupied (table h ! slot ?n ?s j) \<and> key_at h (slot ?n ?s j) \<noteq> ?k"
    using vis d(2) assms(3,4) by (auto simp: less_Suc_eq)
  obtain i where i: "i < ?n" "\<not> occupied (table h ! i)"
    using free by blast
  obtain e where e: "e < ?n" "i = slot ?n ?s e"
    using slot_surj [OF s i(1)] by blast
  have "Suc d \<noteq> ?n"
    using vis' i(2) e by auto
  then have d': "Suc d < ?n"
    using d(1) by simp
  have hv: "?s = unat (hash_of oper h)"
    by (simp add: hash_of_def home_def)
  show "c \<noteq> hash_of oper h - 1"
    using ctr_last [OF d(2) d(1) hv s n] d' by auto
  have "unat c < ?n"
    using d(2) slot_less [OF tab_okD(1) [OF ok]] by simp
  then have "unat (next_ctr c h) = slot ?n ?s (Suc d)"
    unfolding next_ctr_def using unat_next [of c "table_size h"] slot_Suc [of ?n ?s d] d(2) by simp
  then show "searched h ?k (next_ctr c h)"
    using d' vis' unfolding searched_def by blast
qed

text \<open>A slot that is empty ends the search.\<close>

lemma searched_empty:
  assumes ok: "tab_ok h" and "searched h k c" "\<not> occupied (table h ! unat c)" "k \<noteq> 0"
  shows "absent h k"
  unfolding absent_def
proof (intro allI impI notI)
  let ?n = "slots h" and ?s = "home h k"
  fix i
  assume i: "i < ?n" "key_at h i = k"
  obtain d where d: "d < ?n" "unat c = slot ?n ?s d"
    and vis: "\<forall>j < d. occupied (table h ! slot ?n ?s j) \<and> key_at h (slot ?n ?s j) \<noteq> k"
    using assms(2) unfolding searched_def by blast
  obtain e where e: "e < ?n" "i = slot ?n ?s e"
    using slot_surj [OF home_less [OF tab_okD(1) [OF ok]] i(1)] by blast
  have "\<forall>j < e. occupied (table h ! slot ?n ?s j)"
    using tab_okD(4) [OF ok] e i(2) assms(4) unfolding chains_ok_def by blast
  moreover have "\<not> e < d"
    using vis e(2) i(2) by auto
  ultimately have "d = e"
    using assms(3) d(2) by (metis linorder_neqE_nat)
  then show False
    using assms(3,4) d(2) e(2) i(2) by (simp add: occupied_def)
qed

section \<open>What the others do\<close>

text \<open>
  What a thread with key \<open>k\<close> that may hold the lock of an entry can rely on: others do not free
  slots, do not add or remove \<open>k\<close>, leave deleted entries as they are, and do not touch the
  entry.
\<close>

definition rely :: "u64 \<Rightarrow> u32 option \<Rightarrow> hash_t \<Rightarrow> hash_t \<Rightarrow> bool" where
  "rely k held h h' \<longleftrightarrow> table_size h' = table_size h
     \<and> (\<forall>i < slots h. occupied (table h ! i) \<longrightarrow> occupied (table h' ! i))
     \<and> (\<forall>i < slots h. key_at h' i = k \<longleftrightarrow> key_at h i = k)
     \<and> (\<forall>i < slots h. key_at h i = 0 \<and> e_id (table h ! i) = - 1
          \<longrightarrow> key_at h' i = 0 \<and> e_id (table h' ! i) = - 1)
     \<and> (\<forall>c. held = Some c \<and> unat c < slots h \<longrightarrow> table h' ! unat c = table h ! unat c)"

lemma relyD:
  assumes "rely k held h h'"
  shows "table_size h' = table_size h"
    and "i < slots h \<Longrightarrow> occupied (table h ! i) \<Longrightarrow> occupied (table h' ! i)"
    and "i < slots h \<Longrightarrow> key_at h' i = k \<longleftrightarrow> key_at h i = k"
    and "i < slots h \<Longrightarrow> key_at h i = 0 \<Longrightarrow> e_id (table h ! i) = - 1 \<Longrightarrow> key_at h' i = 0 \<and> e_id (table h' ! i) = - 1"
    and "held = Some c \<Longrightarrow> unat c < slots h \<Longrightarrow> table h' ! unat c = table h ! unat c"
  using assms unfolding rely_def by blast+

lemma rely_refl: "rely k held h h"
  by (simp add: rely_def)

lemma rely_absent: "rely k held h h' \<Longrightarrow> absent h' k \<longleftrightarrow> absent h k"
  using relyD(1,3) unfolding absent_def by metis

lemma rely_searched:
  assumes "rely k held h h'" "0 < slots h" "searched h k c"
  shows "searched h' k c"
proof -
  have "home h' k = home h k"
    using relyD(1) [OF assms(1)] by (simp add: home_def)
  moreover have "slot (slots h) s j < slots h" for s j
    using assms(2) by (rule slot_less)
  ultimately show ?thesis
    using assms(3) relyD(1-3) [OF assms(1)] unfolding searched_def by metis
qed

lemma rely_key_is: "rely k held h h' \<Longrightarrow> key_is h' c k \<longleftrightarrow> key_is h c k"
  using relyD(1,3) unfolding key_is_def by metis

lemma rely_held_key: "rely k (Some c) h h' \<Longrightarrow> key_is h c x \<Longrightarrow> key_is h' c x"
  using relyD(1) relyD(5) [where held = "Some c"] unfolding key_is_def by metis

lemma local_ok_rely:
  assumes "tab_ok h" "rely (op_key oper) (holds p) h h'" "local_ok h p oper"
  shows "local_ok h' p oper"
proof -
  note rely = assms(2)
  note D = relyD [OF rely] and S = rely_searched [OF rely tab_okD(1) [OF assms(1)]]
  have less: "searched h (op_key oper) c \<Longrightarrow> unat c < slots h" for c
    by (rule searched_less [OF assms(1)])
  show ?thesis
  proof (cases p)
    case (Probe_Id c)
    then show ?thesis
      using assms(3) S less D rely_absent [OF rely] by auto
  next
    case (Probe_Cmp c)
    then show ?thesis
      using assms(3) S less D by auto
  next
    case (New_Id c)
    then show ?thesis
      using assms(3) S less D(5) rely_absent [OF rely] by auto
  next
    case (New_Len c)
    then show ?thesis
      using assms(3) S less D(5) rely_absent [OF rely] by auto
  next
    case (New_Key c)
    then show ?thesis
      using assms(3) S less D(5) rely_absent [OF rely] by auto
  next
    case (Del_Key c)
    then show ?thesis
      using assms(3) D(5) rely_key_is [OF rely] by (auto simp: key_is_def)
  next
    case (Del_Len c)
    then show ?thesis
      using assms(3) D(1,5) by (auto simp: key_is_def)
  next
    case (Del_Data c)
    then show ?thesis
      using assms(3) D(1,5) by (auto simp: key_is_def)
  qed (use assms(3) S D(1) rely_absent [OF rely] rely_key_is [OF rely] in auto)
qed

section \<open>The steps of an operation\<close>

definition same_op :: "op_t \<Rightarrow> op_t \<Rightarrow> bool" where
  "same_op oper oper' \<longleftrightarrow>
     op_id oper' = op_id oper \<and> op_key oper' = op_key oper \<and> op_type oper' = op_type oper"

lemmas step_defs = stores_def loads_def upd_entry_def entry_at_def

lemma set_entry_nth [simp]:
  "unat c < length (table h) \<Longrightarrow> table (set_entry c e h) ! unat c = e"
  "i \<noteq> unat c \<Longrightarrow> table (set_entry c e h) ! i = table h ! i"
  by simp_all

lemma add_used_sel [simp]:
  "table_size (add_used v h) = table_size h" "table (add_used v h) = table h"
  by (simp_all add: add_used_def Let_def)

text \<open>A step changes only the entry whose lock it holds, and takes only locks that are free.\<close>

lemma op_step_sizes:
  assumes "op_step free p oper h = Some (Returns (p', oper', h'))"
  shows "table_size h' = table_size h \<and> length (table h') = length (table h)"
  using assms by (cases p) (auto simp: step_defs split: if_splits prod.splits)

lemma op_step_same_op:
  assumes "op_step free p oper h = Some (Returns (p', oper', h'))"
  shows "same_op oper oper'"
  using assms by (cases p) (auto simp: step_defs same_op_def split: if_splits prod.splits)

lemma op_step_entries:
  assumes "op_step free p oper h = Some (Returns (p', oper', h'))" "\<forall>c. holds p = Some c \<longrightarrow> unat c \<noteq> i"
  shows "table h' ! i = table h ! i"
  using assms by (cases p) (auto simp: step_defs split: if_splits prod.splits)

lemma op_step_locks:
  assumes "op_step free p oper h = Some (Returns (p', oper', h'))" "holds p' = Some c"
  shows "holds p = Some c \<or> free c"
  using assms
  by (cases p) (auto simp: step_defs behind_probe_def put_at_def Let_def split: if_splits prod.splits)

lemma op_step_used:
  assumes "op_step free p oper h = Some (Returns (p', oper', h'))"
  shows "used h' = used (if p = New_Count then add_used 1 h else if p = Del_Count then add_used (- 1) h else h)"
  using assms by (cases p) (auto simp: step_defs split: if_splits prod.splits)

text \<open>A step keeps what the thread itself knows.\<close>

definition has_room :: "hash_t \<Rightarrow> bool" where
  "has_room h \<longleftrightarrow> (\<exists>i < slots h. \<not> occupied (table h ! i))"

lemma local_ok_same_op:
  "same_op oper oper' \<Longrightarrow> local_ok h p oper' \<longleftrightarrow> local_ok h p oper"
  by (cases p) (auto simp: same_op_def)

lemma probe_step_local:
  assumes "tab_ok h" "has_room h" "op_key oper \<noteq> 0" "local_ok h p oper"
  shows "local_ok h (probe_step p oper h) oper"
proof (cases p)
  case (Probe_Key c)
  with assms(4) have S: "op_type oper \<in> {GET, DEL}" "searched h (op_key oper) c"
    by simp_all
  show ?thesis
  proof (cases "key_at h (unat c) = 0")
    case True
    then show ?thesis
      using S assms(3) searched_empty [OF assms(1) S(2) _ assms(3)] Probe_Key
      by (auto simp: entry_at_def occupied_def)
  qed (use S Probe_Key in \<open>simp add: entry_at_def occupied_def\<close>)
next
  case (Probe_Id c)
  then show ?thesis
    using assms(4) searched_less [OF assms(1)]
    by (auto simp: entry_at_def occupied_def behind_probe_def)
  next
  case (Probe_Cmp c)
  with assms(4) have S: "op_type oper \<in> {GET, DEL}" "searched h (op_key oper) c" "occupied (table h ! unat c)"
    by simp_all
  show ?thesis
    using S Probe_Cmp searched_next [OF assms(1) S(2,3) _ assms(2) [unfolded has_room_def]]
      searched_less [OF assms(1) S(2)]
    by (auto simp: entry_at_def behind_probe_def key_is_def)
qed (use assms(4) in simp_all)

lemma put_probe_step_local:
  assumes "tab_ok h" "has_room h" "op_key oper \<noteq> 0" "local_ok h (Put_Probe c) oper"
  shows "local_ok h (put_probe_step (Put_Probe c) oper h) oper"
proof -
  let ?e = "table h ! unat c"
  have S: "op_type oper = PUT" "searched h (op_key oper) c"
    using assms(4) by simp_all
  note less = searched_less [OF assms(1) S(2)]
  consider (go) "search (op_key oper) ?e" | (key) "e_key ?e = op_key oper" | (empty) "\<not> occupied ?e"
    by (auto simp: search_def)
  then show ?thesis
  proof cases
    case go
    then show ?thesis
      using S searched_next [OF assms(1) S(2) _ _ assms(2) [unfolded has_room_def]]
      by (simp add: search_def entry_at_def)
  next
    case key
    then show ?thesis
      using S less by (simp add: search_def search_free_def entry_at_def put_at_def key_is_def)
  next
    case empty
    then have "e_key ?e = 0"
      by (simp add: occupied_def)
    then show ?thesis
      using empty S less searched_empty [OF assms(1) S(2) empty assms(3)] assms(3)
      by (simp add: search_def search_free_def entry_at_def put_at_def)
  qed
qed

lemma searched_set_entry:
  assumes "tab_ok h" "searched h k c"
  shows "searched (set_entry c e h) k c"
proof -
  let ?n = "slots h" and ?s = "home h k"
  obtain d where d: "d < ?n" "unat c = slot ?n ?s d"
    and vis: "\<forall>j < d. occupied (table h ! slot ?n ?s j) \<and> key_at h (slot ?n ?s j) \<noteq> k"
    using assms(2) unfolding searched_def by blast
  have "unat c \<noteq> slot ?n ?s j" if "j < d" for j
    using slot_inj [of j ?n d ?s] that d by auto
  then have "\<forall>j < d. occupied (table (set_entry c e h) ! slot ?n ?s j)
      \<and> key_at (set_entry c e h) (slot ?n ?s j) \<noteq> k"
    using vis by simp
  then show ?thesis
    using d by (auto simp: searched_def home_def)
qed

lemma absent_set_entry:
  assumes "tab_ok h" "absent h k" "e_key e \<noteq> k"
  shows "absent (set_entry c e h) k"
  unfolding absent_def
proof (intro allI impI)
  fix i
  assume "i < slots (set_entry c e h)"
  then show "key_at (set_entry c e h) i \<noteq> k"
    using assms(2,3) tab_okD(2) [OF assms(1)] by (cases "i = unat c") (auto simp: absent_def)
qed

text \<open>The id of an operation is not the mark of a deleted entry.\<close>

definition op_fits :: "op_t \<Rightarrow> bool" where
  "op_fits oper \<longleftrightarrow> op_key oper \<noteq> 0 \<and> (ucast (op_id oper) :: u32) \<noteq> - 1"

lemma op_step_local:
  assumes ok: "tab_ok h" "has_room h" "op_fits oper" "local_ok h p oper"
    and "op_step free p oper h = Some (Returns (p', oper', h'))"
  shows "local_ok h' p' oper'"
proof -
  note step = assms(5) and pre = assms(4)
  note k = ok(3) [unfolded op_fits_def]
  note probe = probe_step_local [OF ok(1,2) conjunct1 [OF k]]
  note less = searched_less [OF ok(1)] and len = tab_okD(2) [OF ok(1)]
  note upd = searched_set_entry [OF ok(1)] absent_set_entry [OF ok(1)]
  show ?thesis
  proof (cases p)
    case (Probe_Key c)
    then show ?thesis
      using step pre probe [of p] by (auto simp: loads_def simp del: local_ok.simps probe_step.simps)
  next
    case (Probe_Id c)
    then show ?thesis
      using step pre probe [of p] by (auto simp: loads_def simp del: local_ok.simps probe_step.simps)
  next
    case (Probe_Cmp c)
    then show ?thesis
      using step pre probe [of p] by (auto simp: loads_def simp del: local_ok.simps probe_step.simps)
  next
    case (Put_Probe c)
    then show ?thesis
      using step pre put_probe_step_local [OF ok(1,2) conjunct1 [OF k], of c]
      by (auto simp: loads_def simp del: local_ok.simps put_probe_step.simps split: if_splits)
  next
    case Put_Assert
    then show ?thesis
      using step pre searched_start [OF ok(1), of oper] by (auto simp: loads_def split: if_splits)
  next
    case (New_Id c)
    with pre have S: "op_type oper = PUT" "searched h (op_key oper) c"
      "\<not> occupied (table h ! unat c)" "absent h (op_key oper)"
      by simp_all
    then show ?thesis
      using step New_Id k less [OF S(2)] len upd
      by (auto simp: step_defs occupied_def)
  next
    case (New_Len c)
    with pre have S: "op_type oper = PUT" "searched h (op_key oper) c"
      "\<not> occupied (table h ! unat c)" "absent h (op_key oper)"
      by simp_all
    then show ?thesis
      using step New_Len k less [OF S(2)] len upd
      by (auto simp: step_defs occupied_def)
  next
    case (New_Key c)
    then show ?thesis
      using step pre len less by (auto simp: step_defs key_is_def)
  qed (use step pre len in \<open>auto simp: step_defs key_is_def split: if_splits\<close>)
qed

section \<open>What a step does to the table\<close>

definition keys_of :: "hash_t \<Rightarrow> u64 set" where
  "keys_of h = {k. k \<noteq> 0 \<and> \<not> absent h k}"

definition live :: "hash_t \<Rightarrow> nat" where
  "live h = length (filter (\<lambda>e. e_key e \<noteq> 0) (table h))"

definition tombs :: "hash_t \<Rightarrow> nat" where
  "tombs h = length (filter (\<lambda>e. e_key e = 0 \<and> occupied e) (table h))"

lemma slots_split: "length (table h) = slots h \<Longrightarrow> live h + tombs h + empties h = slots h"
proof -
  have "length (filter (\<lambda>e. e_key e \<noteq> 0) es) + length (filter (\<lambda>e. e_key e = 0 \<and> occupied e) es)
      + length (filter (\<lambda>e. \<not> occupied e) es) = length es" for es
    by (induction es) (auto simp: occupied_def)
  then show "length (table h) = slots h \<Longrightarrow> live h + tombs h + empties h = slots h"
    by (simp add: live_def tombs_def empties_def)
qed

lemma has_room_empties: "length (table h) = slots h \<Longrightarrow> has_room h \<longleftrightarrow> 0 < empties h"
  by (auto simp: has_room_def empties_def filter_empty_conv in_set_conv_nth) (metis nth_mem)

text \<open>Steps that change neither the keys nor what is occupied.\<close>

definition alike :: "hash_t \<Rightarrow> hash_t \<Rightarrow> bool" where
  "alike h h' \<longleftrightarrow> table_size h' = table_size h \<and> length (table h') = length (table h)
     \<and> (\<forall>i < slots h. key_at h' i = key_at h i \<and> occupied (table h' ! i) = occupied (table h ! i))"

lemma length_filter_pointwise:
  assumes "length xs = length ys" "\<forall>i < length xs. P (xs ! i) = P (ys ! i)"
  shows "length (filter P xs) = length (filter P ys)"
proof -
  have "List.map P xs = List.map P ys"
    using assms by (simp add: list_eq_iff_nth_eq)
  then have "length (filter id (List.map P xs)) = length (filter id (List.map P ys))"
    by simp
  then show ?thesis
    by (simp add: filter_map o_def)
qed

lemma alike_counts:
  assumes "alike h h'" "length (table h) = slots h"
  shows "live h' = live h" "tombs h' = tombs h" "empties h' = empties h"
  unfolding live_def tombs_def empties_def
  using assms by (auto simp: alike_def intro!: length_filter_pointwise)

lemma alike_absent: "alike h h' \<Longrightarrow> absent h' k \<longleftrightarrow> absent h k"
  by (auto simp: alike_def absent_def)

lemma alike_keys: "alike h h' \<Longrightarrow> keys_of h' = keys_of h"
  by (simp add: keys_of_def alike_absent)

lemma alike_tab_ok:
  assumes "alike h h'" "tab_ok h"
  shows "tab_ok h'"
proof -
  note a = assms(1) [unfolded alike_def] and ok = tab_okD [OF assms(2)]
  have sz: "table_size h' = table_size h"
    using a by blast
  have home: "home h' k = home h k" for k
    by (simp add: home_def sz)
  have "slot (slots h) s j < slots h" for s j
    using ok(1) by (rule slot_less)
  then have "chains_ok h'"
    using ok(4) a unfolding chains_ok_def home sz by metis
  moreover have "keys_unique h'"
    using ok(3) a unfolding keys_unique_def sz by metis
  ultimately show ?thesis
    using ok a unfolding tab_ok_def by simp
qed

lemma op_step_alike:
  assumes "tab_ok h" "op_fits oper" "local_ok h p oper"
    and "op_step free p oper h = Some (Returns (p', oper', h'))" "\<forall>c. p \<noteq> New_Key c \<and> p \<noteq> Del_Key c"
  shows "alike h h'"
proof -
  have set_entry: "alike h (set_entry c e h)"
    if "e_key e = key_at h (unat c)" "occupied e = occupied (table h ! unat c)" for c e
    unfolding alike_def
  proof (intro conjI allI impI)
    fix i
    assume "i < slots h"
    then show "key_at (set_entry c e h) i = key_at h i"
      "occupied (table (set_entry c e h) ! i) = occupied (table h ! i)"
      using that tab_okD(2) [OF assms(1)] by (cases "i = unat c"; simp)+
  qed simp_all
  have same: "alike h h" "alike h (add_used v h)" for v
    by (simp_all add: alike_def)
  show ?thesis
    using assms(2-) same
    by (cases p) (auto simp: step_defs key_is_def occupied_def op_fits_def
        split: if_splits prod.splits intro!: set_entry)
qed

lemma op_step_New_Key:
  assumes ok: "tab_ok h" and "op_key oper \<noteq> 0" "local_ok h (New_Key c) oper"
    and "op_step free (New_Key c) oper h = Some (Returns (p', oper', h'))"
  shows "tab_ok h'" "keys_of h' = insert (op_key oper) (keys_of h)" "op_key oper \<notin> keys_of h"
    and "live h' = Suc (live h)" "tombs h' = tombs h" "Suc (empties h') = empties h"
proof -
  let ?k = "op_key oper"
  let ?e = "(table h ! unat c)\<lparr>e_key := ?k\<rparr>"
  have S: "searched h ?k c" "\<not> occupied (table h ! unat c)" "absent h ?k"
    using assms(3) by simp_all
  have h': "h' = set_entry c ?e h"
    using assms(4) by (auto simp: step_defs)
  have c: "unat c < slots h"
    by (rule searched_less [OF ok S(1)])
  have occ: "occupied ?e" "e_key ?e = ?k" "key_at h (unat c) = 0"
    using assms(2) S(2) by (simp_all add: occupied_def)
  have "keys_unique h'"
    unfolding h' using tab_okD [OF ok] c S(3) by (intro set_entry_unique) (auto simp: absent_def)
  moreover have "chains_ok h'"
    unfolding h' using tab_okD [OF ok] c occ S(1)
    by (intro set_entry_chains) (auto simp: searched_def)
  ultimately show "tab_ok h'"
    using tab_okD(1,2) [OF ok] by (simp add: tab_ok_def h')
  show "?k \<notin> keys_of h"
    using S(3) by (simp add: keys_of_def)
  have "absent h' x \<longleftrightarrow> x \<noteq> ?k \<and> absent h x" if "x \<noteq> 0" for x
    unfolding h' absent_def set_entry_sel using c occ(3) that tab_okD(2) [OF ok]
    by (auto simp: nth_list_update)
  then show "keys_of h' = insert ?k (keys_of h)"
    using assms(2) by (auto simp: keys_of_def)
  have len: "unat c < length (table h)"
    using c tab_okD(2) [OF ok] by simp
  note upd = length_filter_update [OF len, where x = ?e]
  show "live h' = Suc (live h)"
    using upd [of "\<lambda>e. e_key e \<noteq> 0"] occ assms(2) by (simp add: live_def h')
  show "tombs h' = tombs h"
    using upd [of "\<lambda>e. e_key e = 0 \<and> occupied e"] occ assms(2) S(2) by (simp add: tombs_def h')
  show "Suc (empties h') = empties h"
    using upd [of "\<lambda>e. \<not> occupied e"] occ S(2) by (simp add: empties_def h')
qed

lemma op_step_Del_Key:
  assumes ok: "tab_ok h" and "op_key oper \<noteq> 0" "local_ok h (Del_Key c) oper"
    and "op_step free (Del_Key c) oper h = Some (Returns (p', oper', h'))"
  shows "tab_ok h'" "keys_of h' = keys_of h - {op_key oper}" "op_key oper \<in> keys_of h"
    and "Suc (live h') = live h" "tombs h' = Suc (tombs h)" "empties h' = empties h"
proof -
  let ?k = "op_key oper"
  let ?e = "(table h ! unat c)\<lparr>e_key := 0\<rparr>"
  have S: "unat c < slots h" "key_at h (unat c) = ?k" "e_id (table h ! unat c) = - 1"
    using assms(3) by (simp_all add: key_is_def)
  have h': "h' = set_entry c ?e h"
    using assms(4) by (auto simp: step_defs)
  have occ: "occupied ?e" "e_key ?e = 0" "occupied (table h ! unat c)"
    using S by (simp_all add: occupied_def)
  have other: "\<forall>j < slots h. j \<noteq> unat c \<longrightarrow> key_at h j \<noteq> ?k"
    using tab_okD(3) [OF ok] S assms(2) unfolding keys_unique_def by metis
  have "keys_unique h'"
    unfolding h' using tab_okD [OF ok] S(1) other by (intro set_entry_unique) auto
  moreover have "chains_ok h'"
    unfolding h' using tab_okD [OF ok] S(1) occ by (intro set_entry_chains) auto
  ultimately show "tab_ok h'"
    using tab_okD(1,2) [OF ok] by (simp add: tab_ok_def h')
  show "?k \<in> keys_of h"
    using S assms(2) by (auto simp: keys_of_def absent_def)
  have "absent h' x \<longleftrightarrow> x = ?k \<or> absent h x" if "x \<noteq> 0" for x
  proof -
    have "key_at h' i = x \<longleftrightarrow> key_at h i = x \<and> x \<noteq> ?k" if "i < slots h" for i
      unfolding h' set_entry_sel using S(1,2) other that \<open>x \<noteq> 0\<close> tab_okD(2) [OF ok]
      by (cases "i = unat c") auto
    then show ?thesis
      unfolding absent_def h' set_entry_sel by auto
  qed
  then show "keys_of h' = keys_of h - {?k}"
    by (auto simp: keys_of_def)
  have len: "unat c < length (table h)"
    using S(1) tab_okD(2) [OF ok] by simp
  note upd = length_filter_update [OF len, where x = ?e]
  show "Suc (live h') = live h"
    using upd [of "\<lambda>e. e_key e \<noteq> 0"] occ assms(2) S(2) by (simp add: live_def h')
  show "tombs h' = Suc (tombs h)"
    using upd [of "\<lambda>e. e_key e = 0 \<and> occupied e"] occ assms(2) S(2) by (simp add: tombs_def h')
  show "empties h' = empties h"
    using upd [of "\<lambda>e. \<not> occupied e"] occ by (simp add: empties_def h')
qed

text \<open>The others can rely on every step.\<close>

lemma op_step_rely:
  assumes ok: "tab_ok h" "op_fits oper" "local_ok h p oper"
    and step: "op_step free p oper h = Some (Returns (p', oper', h'))"
    and "k \<noteq> op_key oper" "k \<noteq> 0" "held \<noteq> None \<longrightarrow> holds p \<noteq> held"
  shows "rely k held h h'"
proof -
  have k: "op_key oper \<noteq> 0"
    using ok(2) by (simp add: op_fits_def)
  have "table h' ! unat c = table h ! unat c" if "held = Some c" for c
    using assms(7) that by (intro op_step_entries [OF step]) (auto simp: word_unat_eq_iff)
  then have held: "\<forall>c. held = Some c \<and> unat c < slots h \<longrightarrow> table h' ! unat c = table h ! unat c"
    by blast
  have size: "table_size h' = table_size h"
    using op_step_sizes [OF step] by blast
  consider (new) c where "p = New_Key c" | (del) c where "p = Del_Key c"
    | (other) "\<forall>c. p \<noteq> New_Key c \<and> p \<noteq> Del_Key c"
    by blast
  then show ?thesis
  proof cases
    case new
    let ?e = "(table h ! unat c)\<lparr>e_key := op_key oper\<rparr>"
    have h': "h' = set_entry c ?e h"
      using step new by (auto simp: step_defs)
    have free: "\<not> occupied (table h ! unat c)"
      using ok(3) new by simp
    have at: "i = unat c \<or> table h' ! i = table h ! i" for i
      by (cases "unat c = i") (simp_all add: h')
    show ?thesis
      unfolding rely_def
    proof (intro conjI size held allI impI)
      fix i
      assume i: "i < slots h"
      have same: "occupied (table h ! i) \<Longrightarrow> table h' ! i = table h ! i"
        using at [of i] free by auto
      then show "occupied (table h ! i) \<Longrightarrow> occupied (table h' ! i)"
        by simp
      show "key_at h' i = k \<longleftrightarrow> key_at h i = k"
        using i at [of i] free assms(5,6) tab_okD(2) [OF ok(1)]
        by (cases "i = unat c") (auto simp: h' occupied_def)
      show "key_at h i = 0 \<and> e_id (table h ! i) = - 1 \<Longrightarrow> key_at h' i = 0"
        "key_at h i = 0 \<and> e_id (table h ! i) = - 1 \<Longrightarrow> e_id (table h' ! i) = - 1"
        using same by (simp_all add: occupied_def)
    qed
  next
    case del
    let ?e = "(table h ! unat c)\<lparr>e_key := 0\<rparr>"
    have h': "h' = set_entry c ?e h"
      using step del by (auto simp: step_defs)
    have S: "unat c < slots h" "key_at h (unat c) = op_key oper" "e_id (table h ! unat c) = - 1"
      using ok(3) del by (simp_all add: key_is_def)
    show ?thesis
      unfolding rely_def
    proof (intro conjI size held allI impI)
      fix i
      assume i: "i < slots h"
      show "occupied (table h ! i) \<Longrightarrow> occupied (table h' ! i)"
        using S i tab_okD(2) [OF ok(1)] by (cases "i = unat c") (auto simp: h' occupied_def)
      show "key_at h' i = k \<longleftrightarrow> key_at h i = k"
        using S i assms(5,6) tab_okD(2) [OF ok(1)] by (cases "i = unat c") (auto simp: h')
      show "key_at h i = 0 \<and> e_id (table h ! i) = - 1 \<Longrightarrow> key_at h' i = 0"
        "key_at h i = 0 \<and> e_id (table h ! i) = - 1 \<Longrightarrow> e_id (table h' ! i) = - 1"
        using S k i tab_okD(2) [OF ok(1)] by (cases "i = unat c"; simp add: h')+
    qed
  next
    case other
    have a: "alike h h'"
      by (rule op_step_alike [OF ok step other])
    then have "occupied (table h' ! i) = occupied (table h ! i)" "key_at h' i = key_at h i" if "i < slots h" for i
      using that unfolding alike_def by blast+
    then show ?thesis
      unfolding rely_def using size held by (auto simp: occupied_def)
  qed
qed

section \<open>The course of an operation\<close>

text \<open>Before a new key is stored, between the store and the count, and when the effect is done.\<close>

fun putting :: "pos \<Rightarrow> bool" where
  "putting Waiting = True" | "putting Woken = True" | "putting Put_Assert = True"
| "putting (Put_Probe c) = True" | "putting (Put_Again c) = True"
| "putting (New_Id c) = True" | "putting (New_Len c) = True" | "putting (New_Key c) = True"
| "putting p = False"

fun added :: "pos \<Rightarrow> bool" where
  "added (New_Data c) = True" | "added New_Count = True" | "added p = False"

fun removed :: "pos \<Rightarrow> bool" where
  "removed (Del_Len c) = True" | "removed (Del_Data c) = True" | "removed Del_Count = True"
| "removed p = False"

fun ended :: "pos \<Rightarrow> bool" where
  "ended (Op_Done r) = True" | "ended p = False"

text \<open>The positions of an operation.\<close>

fun running :: "pos \<Rightarrow> bool" where
  "running Ready = False" | "running Waiting = False" | "running Woken = False"
| "running Exited = False" | "running (Op_Done r) = False" | "running (Log_Line r) = False"
| "running p = True"

lemma op_step_running: "op_step free p oper h = Some r \<Longrightarrow> running p"
  by (cases p) simp_all

lemma op_step_course:
  assumes "op_step free p oper h = Some (Returns (p', oper', h'))"
  shows "running p' \<or> ended p'"
    and "putting p' \<Longrightarrow> putting p \<and> (\<forall>c. p \<noteq> New_Key c)"
    and "added p' \<longleftrightarrow> (\<exists>c. p = New_Key c) \<or> added p \<and> p \<noteq> New_Count"
    and "removed p' \<longleftrightarrow> (\<exists>c. p = Del_Key c) \<or> removed p \<and> p \<noteq> Del_Count"
  using assms
  by (cases p; auto simp: step_defs behind_probe_def put_at_def Let_def split: if_splits prod.splits; fail)+

definition effected :: "pos \<Rightarrow> bool" where
  "effected p \<longleftrightarrow> added p \<or> removed p \<or> ended p"

lemma effected_running: "effected p \<Longrightarrow> running p \<or> ended p"
  by (cases p) (auto simp: effected_def)

lemma op_step_tab_ok:
  assumes "tab_ok h" "op_fits oper" "local_ok h p oper"
    and "op_step free p oper h = Some (Returns (p', oper', h'))"
  shows "tab_ok h'"
proof -
  have k: "op_key oper \<noteq> 0"
    using assms(2) by (simp add: op_fits_def)
  consider (new) c where "p = New_Key c" | (del) c where "p = Del_Key c"
    | (other) "\<forall>c. p \<noteq> New_Key c \<and> p \<noteq> Del_Key c"
    by blast
  then show ?thesis
  proof cases
    case new
    then show ?thesis
      using op_step_New_Key(1) [OF assms(1) k assms(3,4) [unfolded new]] by blast
  next
    case del
    then show ?thesis
      using op_step_Del_Key(1) [OF assms(1) k assms(3,4) [unfolded del]] by blast
  next
    case other
    show ?thesis
      by (rule alike_tab_ok [OF op_step_alike [OF assms other] assms(1)])
  qed
qed

text \<open>Whether the operation \<open>oper\<close> on a set of keys leaves \<open>S\<close> as it is, adds or removes its key.\<close>

definition op_effect :: "op_t \<Rightarrow> u64 set \<Rightarrow> u64 set" where
  "op_effect oper S =
     (if op_type oper = PUT then insert (op_key oper) S
      else if op_type oper = DEL then S - {op_key oper} else S)"

lemma op_step_stable:
  assumes "op_step free p oper h = Some (Returns (p', oper', h'))" "effected p"
  shows "effected p'" "\<forall>c. p \<noteq> New_Key c \<and> p \<noteq> Del_Key c"
  using assms by (cases p; auto simp: step_defs effected_def)+

lemma op_step_keys:
  assumes "tab_ok h" "op_fits oper" "local_ok h p oper"
    and "op_step free p oper h = Some (Returns (p', oper', h'))"
  shows "keys_of h' = (if \<not> effected p \<and> effected p' then op_effect oper (keys_of h) else keys_of h)"
proof -
  have k: "op_key oper \<noteq> 0"
    using assms(2) by (simp add: op_fits_def)
  consider (new) c where "p = New_Key c" | (del) c where "p = Del_Key c"
    | (other) "\<forall>c. p \<noteq> New_Key c \<and> p \<noteq> Del_Key c"
    by blast
  then show ?thesis
  proof cases
    case new
    then have "op_type oper = PUT" "effected p'" "\<not> effected p"
      using assms(3,4) by (auto simp: step_defs effected_def)
    then show ?thesis
      using op_step_New_Key(2) [OF assms(1) k assms(3,4) [unfolded new]] new by (simp add: op_effect_def)
  next
    case del
    then have "op_type oper = DEL" "effected p'" "\<not> effected p"
      using assms(3,4) by (auto simp: step_defs effected_def)
    then show ?thesis
      using op_step_Del_Key(2) [OF assms(1) k assms(3,4) [unfolded del]] del by (simp add: op_effect_def)
  next
    case other
    have "keys_of h' = keys_of h"
      by (rule alike_keys [OF op_step_alike [OF assms(1-4) other]])
    moreover have "op_effect oper (keys_of h) = keys_of h" if "\<not> effected p" "effected p'"
      using assms(3,4) other k that
      by (cases p) (auto simp: step_defs effected_def op_effect_def keys_of_def key_is_def absent_def
          behind_probe_def put_at_def Let_def split: if_splits prod.splits)
    ultimately show ?thesis
      by simp
  qed
qed

text \<open>What an operation returns.\<close>

lemma op_step_result:
  assumes "tab_ok h" "op_key oper \<noteq> 0" "local_ok h p oper"
    and "op_step free p oper h = Some (Returns (Op_Done r, oper', h'))"
  shows "op_type oper = PUT \<Longrightarrow> r = 0"
    and "op_type oper = GET \<Longrightarrow> r = (if op_key oper \<in> keys_of h then 0 else - 1)"
    and "op_type oper = DEL \<Longrightarrow> r = (if p = Del_Count then 0 else - 1) \<and> (p = Del_Count \<or> op_key oper \<notin> keys_of h)"
  using assms
  by (cases p; auto simp: step_defs behind_probe_def put_at_def Let_def keys_of_def key_is_def absent_def
      split: if_splits prod.splits; fail)+

lemma op_step_returns:
  assumes "op_step free p oper h = Some r" "tab_ok h" "used h < table_size h" "op_key oper \<noteq> 0"
  obtains p' oper' h' where "r = Returns (p', oper', h')"
  using assms tab_okD(1) [OF assms(2)]
  by (cases p) (auto simp: step_defs split: if_splits prod.splits)

text \<open>An operation waits only for the lock of an entry.\<close>

lemma op_step_blocked:
  assumes "running p" "op_step free p oper h = None"
  shows "\<exists>c. \<not> free c" "holds p = None"
  using assms by (cases p; auto simp: step_defs split: if_splits prod.splits)+

end
