(* ===== verification/Parallel_Values.thy ===== *)
theory Parallel_Values
  imports Parallel_Table
begin

text \<open>
  The values in the hash table while several threads store them: the assignments of
  \<open>insert_update\<close> and \<open>purge_key\<close> to an entry are steps of their own, under the lock of the entry.
  What a thread has stored so far it finds again, and when its last assignment is done the entry
  holds the fields of its operation.
\<close>

section \<open>Entries that are being written\<close>

text \<open>The entry whose key is in the table while its other fields change.\<close>

fun half_written :: "pos \<Rightarrow> u32 option" where
  "half_written (Upd_Len c) = Some c" | "half_written (Upd_Data c) = Some c"
| "half_written (New_Data c) = Some c" | "half_written (Del_Key c) = Some c"
| "half_written p = None"

text \<open>What a thread has stored.\<close>

fun written :: "hash_t \<Rightarrow> pos \<Rightarrow> op_t \<Rightarrow> bool" where
  "written h (Upd_Len c) oper = (e_id (table h ! unat c) = ucast (op_id oper))"
| "written h (Upd_Data c) oper =
     (e_id (table h ! unat c) = ucast (op_id oper) \<and> e_datalen (table h ! unat c) = op_datalen oper)"
| "written h (New_Len c) oper = (e_id (table h ! unat c) = ucast (op_id oper))"
| "written h (New_Key c) oper =
     (e_id (table h ! unat c) = ucast (op_id oper) \<and> e_datalen (table h ! unat c) = op_datalen oper)"
| "written h (New_Data c) oper =
     (e_id (table h ! unat c) = ucast (op_id oper) \<and> e_datalen (table h ! unat c) = op_datalen oper)"
| "written h p oper = True"

lemma half_written_holds: "half_written p = Some c \<Longrightarrow> holds p = Some c"
  by (cases p) simp_all

lemma half_written_running: "half_written p = Some c \<Longrightarrow> running p"
  by (cases p) simp_all

lemma written_other:
  assumes "op_step free p oper h = Some (Returns (p', oper', h'))" "written h q other"
    and "holds q \<noteq> None \<longrightarrow> holds p \<noteq> holds q"
  shows "written h' q other"
proof -
  have "table h' ! unat c = table h ! unat c" if "holds q = Some c" for c
    using assms(3) that by (intro op_step_entries [OF assms(1)]) (auto simp: word_unat_eq_iff)
  then show ?thesis
    using assms(2) by (cases q) simp_all
qed

lemma written_own:
  assumes "tab_ok h" "local_ok h p oper" "written h p oper"
    and "op_step free p oper h = Some (Returns (p', oper', h'))"
  shows "written h' p' oper'"
  using assms tab_okD(2) [OF assms(1)] searched_less [OF assms(1)]
  by (cases p) (auto simp: step_defs key_is_def behind_probe_def put_at_def Let_def
      split: if_splits prod.splits)

text \<open>Only \<open>lookup\<close> changes its operation.\<close>

lemma op_step_oper:
  assumes "local_ok h p oper" "op_step free p oper h = Some (Returns (p', oper', h'))" "op_type oper \<noteq> GET"
  shows "oper' = oper"
  using assms by (cases p) (auto simp: step_defs split: if_splits prod.splits)

text \<open>
  The entry a thread has the lock of: its key is gone, it is half written, or it has the value of
  the operation.
\<close>

lemma op_step_value:
  assumes "tab_ok h" "local_ok h p oper" "written h p oper"
    and "op_step free p oper h = Some (Returns (p', oper', h'))"
    and "holds p = Some c" "key_at h' (unat c) \<noteq> 0"
  shows "half_written p' = Some c \<or> effected p' \<and> op_type oper = PUT
    \<and> key_at h' (unat c) = op_key oper \<and> entry_val (table h' ! unat c) = op_val oper"
  using assms tab_okD(2) [OF assms(1)] searched_less [OF assms(1)]
  by (cases p) (auto simp: step_defs key_is_def occupied_def effected_def entry_val_def op_val_def
      split: if_splits prod.splits)

text \<open>A change of the contents is a change of the entry with the key, under its lock.\<close>

lemma op_step_effect_held:
  assumes "tab_ok h" "local_ok h p oper" "op_key oper \<noteq> 0"
    and "op_step free p oper h = Some (Returns (p', oper', h'))"
    and "\<not> effected p" "effected p'" "op_type oper \<noteq> GET" "i < slots h" "key_at h i = op_key oper"
  shows "\<exists>c. holds p = Some c \<and> unat c = i"
proof -
  have "(\<exists>c. holds p = Some c \<and> unat c < slots h \<and> key_at h (unat c) = op_key oper) \<or> absent h (op_key oper)"
    using assms(2,4-7)
    by (cases p) (auto simp: step_defs effected_def behind_probe_def put_at_def Let_def key_is_def
        split: if_splits prod.splits)
  then obtain c where "holds p = Some c" "unat c < slots h" "key_at h (unat c) = op_key oper"
    using assms(8,9) unfolding absent_def by blast
  moreover from this(2,3) have "unat c = i"
    using tab_okD(3) [OF assms(1)] assms(3,8,9) unfolding keys_unique_def by metis
  ultimately show ?thesis
    by blast
qed

section \<open>The last \<open>PUT\<close> of a key\<close>

text \<open>\<open>j\<close> is the last of the records \<open>E\<close> that changes the key \<open>k\<close>, and it is a \<open>PUT\<close>.\<close>

definition last_put :: "input_rec list \<Rightarrow> u64 \<Rightarrow> nat set \<Rightarrow> nat \<Rightarrow> bool" where
  "last_put recs k E j \<longleftrightarrow> j \<in> E \<and> rec_key (recs ! j) = k \<and> rec_type (recs ! j) = PUT
     \<and> (\<forall>i \<in> E. j < i \<and> rec_key (recs ! i) = k \<longrightarrow> rec_type (recs ! i) = GET)"

lemma last_put_new:
  "\<forall>i \<in> E. rec_key (recs ! i) = k \<longrightarrow> i \<le> j \<Longrightarrow> j \<in> E \<Longrightarrow> rec_key (recs ! j) = k \<Longrightarrow>
    rec_type (recs ! j) = PUT \<Longrightarrow> last_put recs k E j"
  unfolding last_put_def by (meson not_less)

lemma last_put_insert:
  "last_put recs k E j \<Longrightarrow> rec_key (recs ! i) \<noteq> k \<or> rec_type (recs ! i) = GET \<Longrightarrow>
    last_put recs k (insert i E) j"
  by (auto simp: last_put_def)

text \<open>The value of a record.\<close>

definition val_at :: "u64 \<Rightarrow> input_rec list \<Rightarrow> nat \<Rightarrow> entry_val" where
  "val_at b recs j = (ucast (rec_id (recs ! j)), of_nat (length (rec_data (recs ! j))),
     b + of_nat (length (file_of (take j recs)) + 24))"

text \<open>What \<open>lookup\<close> has found for record \<open>j\<close>: the last \<open>PUT\<close> of the key before it.\<close>

fun found :: "u64 \<Rightarrow> input_rec list \<Rightarrow> nat \<Rightarrow> pos \<Rightarrow> op_t \<Rightarrow> bool" where
  "found b recs j (Get_Data c) oper \<longleftrightarrow>
     (\<exists>i. last_put recs (rec_key (recs ! j)) {..<j} i \<and> op_datalen oper = fst (snd (val_at b recs i)))"
| "found b recs j (Op_Done r) oper \<longleftrightarrow> r \<noteq> 0 \<or> op_type oper \<noteq> GET
     \<or> (\<exists>i. last_put recs (rec_key (recs ! j)) {..<j} i \<and> (op_datalen oper, op_data oper) = snd (val_at b recs i))"
| "found b recs j p oper \<longleftrightarrow> True"

lemma last_put_unique: "last_put recs k E i \<Longrightarrow> last_put recs k E j \<Longrightarrow> i = j"
  unfolding last_put_def by (metis linorder_neqE_nat op_types(4))

lemma half_written_key: "local_ok h p oper \<Longrightarrow> half_written p = Some c \<Longrightarrow> key_is h c (op_key oper)"
  by (cases p) simp_all

text \<open>A step that finds something loads it from the entry with the key.\<close>

lemma found_step:
  assumes "local_ok h p oper" "op_step free p oper h = Some (Returns (p', oper', h'))" "found b recs j p oper"
    and "\<And>c. p = Get_Len c \<or> p = Get_Data c \<Longrightarrow> key_is h c (op_key oper) \<Longrightarrow>
      \<exists>i. last_put recs (rec_key (recs ! j)) {..<j} i \<and> entry_val (table h ! unat c) = val_at b recs i"
  shows "found b recs j p' oper'"
proof (cases p)
  case (Get_Len c)
  then obtain i where "last_put recs (rec_key (recs ! j)) {..<j} i" "entry_val (table h ! unat c) = val_at b recs i"
    using assms(1,4) by auto
  moreover from this(2) have "e_datalen (table h ! unat c) = fst (snd (val_at b recs i))"
    by (metis entry_val_def fst_conv snd_conv)
  ultimately show ?thesis
    using assms(2) Get_Len by (auto simp: step_defs)
next
  case (Get_Data c)
  then obtain i where i: "last_put recs (rec_key (recs ! j)) {..<j} i" "entry_val (table h ! unat c) = val_at b recs i"
    using assms(1,4) by auto
  then have "e_data (table h ! unat c) = snd (snd (val_at b recs i))"
    by (metis entry_val_def snd_conv)
  moreover have "op_datalen oper = fst (snd (val_at b recs i))"
    using assms(3) Get_Data last_put_unique [OF i(1)] by auto
  ultimately show ?thesis
    using assms(2) Get_Data i(1) by (auto simp: step_defs prod_eq_iff)
qed (use assms(1,2) in \<open>auto simp: step_defs behind_probe_def put_at_def Let_def split: if_splits prod.splits\<close>)

lemma val_at_payload:
  assumes "op_id oper = rec_id (recs ! j)" "rec_type (recs ! j) = PUT"
    and "payload b (length (file_of (take j recs))) (recs ! j) oper"
  shows "op_val oper = val_at b recs j"
  using assms by (simp add: op_val_def val_at_def payload_def is_put_def)

text \<open>What one thread leaves in the table is, for every key, the value of its last \<open>PUT\<close>.\<close>

lemma map_after_last_put:
  "j \<le> length recs \<Longrightarrow> map_after b 0 (take j recs) Map.empty k = Some v \<longleftrightarrow>
    (\<exists>i. last_put recs k {..<j} i \<and> v = val_at b recs i)"
proof (induction j arbitrary: v)
  case 0
  then show ?case
    by (simp add: last_put_def)
next
  case (Suc j)
  let ?m = "map_after b 0 (take j recs) Map.empty" and ?r = "recs ! j"
  have m: "map_after b 0 (take (Suc j) recs) Map.empty = map_effect b (length (file_of (take j recs))) ?r ?m"
    using Suc.prems by (simp add: take_Suc_conv_app_nth map_after_append)
  have IH: "?m k = Some v \<longleftrightarrow> (\<exists>i. last_put recs k {..<j} i \<and> v = val_at b recs i)" for v
    using Suc by simp
  have old: "last_put recs k {..<Suc j} i \<longleftrightarrow> last_put recs k {..<j} i"
    if "rec_key ?r \<noteq> k \<or> rec_type ?r = GET" for i
    using that by (auto simp: last_put_def less_Suc_eq)
  have new: "last_put recs k {..<Suc j} i \<longleftrightarrow> i = j \<and> rec_type ?r = PUT"
    if "rec_key ?r = k" "rec_type ?r \<noteq> GET" for i
    using that by (auto simp: last_put_def less_Suc_eq)
  show ?case
  proof (cases "rec_key ?r \<noteq> k \<or> rec_type ?r = GET")
    case True
    then have "map_effect b (length (file_of (take j recs))) ?r ?m k = ?m k"
      by (cases ?r) auto
    then show ?thesis
      unfolding m old [OF True] by (simp add: IH)
  next
    case False
    then have "rec_key ?r = k" "rec_type ?r \<noteq> GET"
      by simp_all
    then show ?thesis
      unfolding m new [OF \<open>rec_key ?r = k\<close> \<open>rec_type ?r \<noteq> GET\<close>]
      by (cases ?r) (auto simp: val_at_def)
  qed
qed

end
