(* ===== verification/Parallel_Invariant.thy ===== *)
theory Parallel_Invariant
  imports Parallel_Values "HOL-Library.Multiset"
begin

text \<open>
  The invariant of the hash table program with several threads: which record of the file belongs
  to which thread, in which order records with the same key are taken, and what the table holds
  while operations are under way.
\<close>

section \<open>What one thread would return\<close>

definition result_at :: "input_rec list \<Rightarrow> nat \<Rightarrow> i32" where
  "result_at recs j =
     (if rec_type (recs ! j) = PUT \<or> rec_key (recs ! j) \<in> keys_after (take j recs) then 0 else - 1)"

definition line_at :: "input_rec list \<Rightarrow> nat \<Rightarrow> u64 \<times> u32 \<times> i32" where
  "line_at recs j = (rec_id (recs ! j), rec_type (recs ! j), result_at recs j)"

lemma expected_lines: "expected recs {} = List.map (line_at recs) [0..<length recs]"
proof -
  have "expected recs S = List.map (\<lambda>j. (rec_id (recs ! j), rec_type (recs ! j),
      if rec_type (recs ! j) = PUT \<or> rec_key (recs ! j) \<in> fold key_effect (take j recs) S then 0 else - 1))
      [0..<length recs]" for S
  proof (induction recs arbitrary: S)
    case (Cons r recs)
    show ?case
      unfolding length_Cons map_upt_Suc by (cases r) (auto simp: Cons.IH)
  qed simp
  then show ?thesis
    by (simp add: line_at_def [abs_def] result_at_def keys_after_def)
qed

text \<open>
  A key is in the table after the operations \<open>E\<close> when there is a \<open>PUT\<close> among them without a later
  \<open>DEL\<close>.
\<close>

definition stored_by :: "input_rec list \<Rightarrow> u64 \<Rightarrow> nat set \<Rightarrow> bool" where
  "stored_by recs k E \<longleftrightarrow> (\<exists>j \<in> E. rec_key (recs ! j) = k \<and> rec_type (recs ! j) = PUT
     \<and> (\<forall>i \<in> E. j < i \<and> rec_key (recs ! i) = k \<longrightarrow> rec_type (recs ! i) \<noteq> DEL))"

definition of_key :: "input_rec list \<Rightarrow> u64 \<Rightarrow> nat set \<Rightarrow> nat set" where
  "of_key recs k E = {j \<in> E. rec_key (recs ! j) = k}"

lemma stored_by_of_key: "stored_by recs k E \<longleftrightarrow> stored_by recs k (of_key recs k E)"
  by (auto simp: stored_by_def of_key_def)

lemma stored_by_cong: "of_key recs k E = of_key recs k E' \<Longrightarrow> stored_by recs k E = stored_by recs k E'"
  by (metis stored_by_of_key)

lemma stored_by_insert:
  assumes "\<forall>j \<in> E. rec_key (recs ! j) = k \<longrightarrow> j < i"
  shows "stored_by recs k (insert i E) \<longleftrightarrow>
    (if rec_key (recs ! i) = k \<and> rec_type (recs ! i) = PUT then True
     else if rec_key (recs ! i) = k \<and> rec_type (recs ! i) = DEL then False
     else stored_by recs k E)"
  using assms unfolding stored_by_def by (auto 4 3 dest: less_not_sym)

lemma rec_types: "rec_type r = PUT \<or> rec_type r = GET \<or> rec_type r = DEL"
  by (cases r) simp_all

lemma key_effect_mem:
  "k \<in> key_effect r S \<longleftrightarrow>
    (if rec_key r = k \<and> rec_type r = PUT then True
     else if rec_key r = k \<and> rec_type r = DEL then False else k \<in> S)"
  by (cases r) auto

lemma stored_by_prefix: "j \<le> length recs \<Longrightarrow> stored_by recs k {..<j} \<longleftrightarrow> k \<in> keys_after (take j recs)"
proof (induction j)
  case 0
  then show ?case
    by (simp add: stored_by_def keys_after_def)
next
  case (Suc j)
  then show ?case
    by (simp add: lessThan_Suc stored_by_insert keys_after_def take_Suc_conv_app_nth key_effect_mem)
qed

lemma last_put_cong:
  assumes "of_key recs k E = of_key recs k E'"
  shows "last_put recs k E j \<longleftrightarrow> last_put recs k E' j"
proof -
  have "j \<in> E \<longleftrightarrow> j \<in> E'" if "rec_key (recs ! j) = k" for j
    using assms that by (auto simp: of_key_def)
  then show ?thesis
    unfolding last_put_def by blast
qed

section \<open>Reading the file\<close>

definition op_is :: "input_rec \<Rightarrow> op_t \<Rightarrow> bool" where
  "op_is r oper \<longleftrightarrow> op_id oper = rec_id r \<and> op_key oper = rec_key r \<and> op_type oper = rec_type r"

text \<open>The operation of record \<open>j\<close> has the text of the record.\<close>

definition loaded :: "u64 \<Rightarrow> input_rec list \<Rightarrow> nat \<Rightarrow> op_t \<Rightarrow> bool" where
  "loaded b recs j oper \<longleftrightarrow> payload b (length (file_of (take j recs))) (recs ! j) oper"

text \<open>\<open>n\<close> records have been read, and at the end of the file \<open>m\<close> threads have read on behind it.\<close>

definition input_at :: "input_rec list \<Rightarrow> nat \<Rightarrow> nat \<Rightarrow> nat \<Rightarrow> input_manager \<Rightarrow> bool" where
  "input_at recs pad n m inp \<longleftrightarrow> mem inp = file_of recs @ replicate pad 0
     \<and> input_size inp = length (file_of recs) \<and> n \<le> length recs \<and> (0 < m \<longrightarrow> n = length recs)
     \<and> curr inp = length (file_of (take n recs)) + 24 * m"

lemma read_record:
  assumes "input_at recs pad n 0 inp" "n < length recs" "24 \<le> pad"
  shows "\<exists>oper' inp'. read_op inp oper = Returns (0, oper', inp') \<and> op_is (recs ! n) oper'
    \<and> loaded (base inp) recs n oper' \<and> base inp' = base inp \<and> input_at recs pad (Suc n) 0 inp'"
proof -
  let ?pre = "file_of (take n recs)" and ?r = "recs ! n"
  have split: "file_of recs = ?pre @ encode ?r @ file_of (drop (Suc n) recs)"
    using id_take_nth_drop [OF assms(2)] unfolding file_of_def by (metis concat_append map_append concat.simps(2) list.simps(9))
  have next_pre: "file_of (take (Suc n) recs) = ?pre @ encode ?r"
    using assms(2) by (simp add: file_of_def take_Suc_conv_app_nth)
  have mem: "mem inp = ?pre @ encode ?r @ (file_of (drop (Suc n) recs) @ replicate pad 0)"
    and curr: "curr inp = length ?pre" and size: "input_size inp = length (file_of recs)"
    using assms(1) split by (simp_all add: input_at_def)
  have "length ?pre + length (encode ?r) \<le> input_size inp"
    unfolding size by (subst split) simp
  from read_op_encode [OF mem curr _ this, of oper] assms(3) obtain oper' where
    "read_op inp oper = Returns (0, oper', inp\<lparr>curr := length ?pre + length (encode ?r)\<rparr>)" "op_is ?r oper'"
    "loaded (base inp) recs n oper'"
    using payload_read unfolding op_is_def loaded_def by auto
  moreover have "input_at recs pad (Suc n) 0 (inp\<lparr>curr := length ?pre + length (encode ?r)\<rparr>)"
    using assms(1,2) next_pre by (simp add: input_at_def)
  moreover have "base (inp\<lparr>curr := length ?pre + length (encode ?r)\<rparr>) = base inp"
    by simp
  ultimately show ?thesis
    by blast
qed

lemma read_end:
  assumes "input_at recs pad n m inp" "n = length recs" "24 * Suc m \<le> pad"
  shows "\<exists>oper' inp'. read_op inp oper = Returns (- 1, oper', inp') \<and> base inp' = base inp
    \<and> input_at recs pad n (Suc m) inp'"
proof -
  let ?c = "length (file_of recs) + 24 * m"
  have mem: "mem inp = file_of recs @ replicate pad 0" and curr: "curr inp = ?c"
    and size: "input_size inp = length (file_of recs)"
    using assms(1,2) by (simp_all add: input_at_def)
  have z: "load32 (mem inp) (?c + 16) = 0" "load32 (mem inp) (?c + 20) = 0"
    unfolding mem using assms(3) by (auto intro!: load32_zeros simp: nth_append)
  have "read_op inp oper = Returns (- 1, oper\<lparr>op_id := load64 (mem inp) ?c, op_key := load64 (mem inp) (?c + 8),
      op_type := 0, op_datalen := 0, op_data := base inp + of_nat (?c + 24)\<rparr>, inp\<lparr>curr := ?c + 24\<rparr>)"
    using assms(3) z mem curr size by (simp add: read_op_def Let_def PUT_def GET_def DEL_def)
  moreover have "input_at recs pad n (Suc m) (inp\<lparr>curr := ?c + 24\<rparr>)"
    using assms(1,2) by (simp add: input_at_def)
  moreover have "base (inp\<lparr>curr := ?c + 24\<rparr>) = base inp"
    by simp
  ultimately show ?thesis
    by blast
qed

section \<open>The invariant\<close>

definition recs_ok :: "input_rec list \<Rightarrow> bool" where
  "recs_ok recs \<longleftrightarrow> sorted_wrt (<) (List.map rec_id recs)
     \<and> (\<forall>r \<in> set recs. rec_key r \<noteq> 0 \<and> (ucast (rec_id r) :: u32) \<noteq> - 1)"

fun active :: "pos \<Rightarrow> bool" where
  "active Ready = False" | "active (Log_Line r) = False" | "active Exited = False" | "active p = True"

fun deleting :: "pos \<Rightarrow> bool" where
  "deleting (Del_Id c) = True" | "deleting (Del_Key c) = True" | "deleting (Del_Len c) = True"
| "deleting (Del_Data c) = True" | "deleting Del_Count = True" | "deleting p = False"

abbreviation pos_of :: "worker list \<Rightarrow> nat \<Rightarrow> pos" where
  "pos_of ws t \<equiv> wpos (ws ! t)"

text \<open>
  \<open>n\<close> records have been read; those in \<open>C\<close> are done and each of the others belongs to one
  thread, \<open>ix\<close> says which one.
\<close>

definition assigned :: "input_rec list \<Rightarrow> worker list \<Rightarrow> nat \<Rightarrow> nat set \<Rightarrow> (nat \<Rightarrow> nat) \<Rightarrow> bool" where
  "assigned recs ws n C ix \<longleftrightarrow> n \<le> length recs \<and> C \<subseteq> {..<n}
     \<and> (\<forall>t < length ws. active (pos_of ws t) \<longrightarrow>
          ix t < n \<and> ix t \<notin> C \<and> op_is (recs ! ix t) (wop (ws ! t)))
     \<and> (\<forall>t < length ws. \<forall>u < length ws.
          active (pos_of ws t) \<and> active (pos_of ws u) \<and> ix t = ix u \<longrightarrow> t = u)
     \<and> (\<forall>j < n. j \<in> C \<or> (\<exists>t < length ws. active (pos_of ws t) \<and> ix t = j))"

definition registered :: "worker list \<Rightarrow> nat option list \<Rightarrow> bool" where
  "registered ws bp \<longleftrightarrow> length bp = THREADS \<and> length ws \<le> THREADS
     \<and> (\<forall>t < THREADS. bp ! t = (if t < length ws \<and> active (pos_of ws t) then Some t else None))"

definition in_order :: "input_rec list \<Rightarrow> worker list \<Rightarrow> nat set \<Rightarrow> (nat \<Rightarrow> nat) \<Rightarrow> bool" where
  "in_order recs ws C ix \<longleftrightarrow>
     (\<forall>t < length ws. running (pos_of ws t) \<or> ended (pos_of ws t) \<longrightarrow>
        (\<forall>j < ix t. rec_key (recs ! j) = rec_key (recs ! ix t) \<longrightarrow> j \<in> C))
     \<and> (\<forall>i \<in> C. \<forall>j < i. rec_key (recs ! j) = rec_key (recs ! i) \<longrightarrow> j \<in> C)"

definition waits :: "input_rec list \<Rightarrow> worker list \<Rightarrow> (nat \<Rightarrow> nat) \<Rightarrow> bool" where
  "waits recs ws ix \<longleftrightarrow> (\<forall>t < length ws. pos_of ws t = Waiting \<longrightarrow>
     (\<exists>u < length ws. active (pos_of ws u) \<and> ix u < ix t
       \<and> rec_key (recs ! ix u) = rec_key (recs ! ix t)))"

text \<open>The lines a thread has written, and the one it is about to write behind \<open>done_one\<close>.\<close>

fun pending :: "pos \<Rightarrow> op_t \<Rightarrow> (u64 \<times> u32 \<times> i32) list" where
  "pending (Log_Line r) oper = [(op_id oper, op_type oper, r)]" | "pending p oper = []"

definition lines_of :: "worker \<Rightarrow> (u64 \<times> u32 \<times> i32) list" where
  "lines_of w = wlog w @ pending (wpos w) (wop w)"

definition logged :: "input_rec list \<Rightarrow> worker list \<Rightarrow> nat set \<Rightarrow> bool" where
  "logged recs ws C \<longleftrightarrow>
     mset (concat (List.map lines_of ws)) = image_mset (line_at recs) (mset_set C)"

lemma no_pending: "active p \<or> p = Ready \<or> p = Exited \<Longrightarrow> pending p oper = []"
  by (cases p) simp_all

definition exited :: "worker list \<Rightarrow> nat" where
  "exited ws = length (filter (\<lambda>w. wpos w = Exited) ws)"

definition locals :: "worker list \<Rightarrow> hash_t \<Rightarrow> bool" where
  "locals ws h \<longleftrightarrow> (\<forall>t < length ws. local_ok h (pos_of ws t) (wop (ws ! t)))
     \<and> (\<forall>t < length ws. \<forall>u < length ws. \<forall>c.
          holds (pos_of ws t) = Some c \<and> holds (pos_of ws u) = Some c \<longrightarrow> t = u)"

definition adders :: "worker list \<Rightarrow> nat" where
  "adders ws = length (filter (\<lambda>w. added (wpos w)) ws)"

definition removers :: "worker list \<Rightarrow> nat" where
  "removers ws = length (filter (\<lambda>w. removed (wpos w)) ws)"

definition putters :: "worker list \<Rightarrow> nat" where
  "putters ws = length (filter (\<lambda>w. op_type (wop w) = PUT \<and> putting (wpos w)) ws)"

definition counts :: "input_rec list \<Rightarrow> worker list \<Rightarrow> nat \<Rightarrow> hash_t \<Rightarrow> bool" where
  "counts recs ws n h \<longleftrightarrow> length (filter is_put (drop n recs)) + putters ws < empties h
     \<and> unat (used h) + adders ws = live h + removers ws \<and> removers ws \<le> tombs h"

definition effects :: "worker list \<Rightarrow> nat set \<Rightarrow> (nat \<Rightarrow> nat) \<Rightarrow> nat set" where
  "effects ws C ix = C \<union> {ix t | t. t < length ws \<and> effected (pos_of ws t)}"

definition contents :: "input_rec list \<Rightarrow> worker list \<Rightarrow> nat set \<Rightarrow> (nat \<Rightarrow> nat) \<Rightarrow> hash_t \<Rightarrow> bool" where
  "contents recs ws C ix h \<longleftrightarrow>
     (\<forall>k. k \<noteq> 0 \<longrightarrow> (k \<in> keys_of h \<longleftrightarrow> stored_by recs k (effects ws C ix)))"

definition results :: "input_rec list \<Rightarrow> worker list \<Rightarrow> (nat \<Rightarrow> nat) \<Rightarrow> bool" where
  "results recs ws ix \<longleftrightarrow> (\<forall>t < length ws.
     (\<forall>r. pos_of ws t = Op_Done r \<longrightarrow> r = result_at recs (ix t))
     \<and> (deleting (pos_of ws t) \<longrightarrow> result_at recs (ix t) = 0))"

text \<open>What the threads have stored and found; every entry that is not half written has the value of the last \<open>PUT\<close> of its key.\<close>

definition valued :: "u64 \<Rightarrow> input_rec list \<Rightarrow> worker list \<Rightarrow> nat set \<Rightarrow> (nat \<Rightarrow> nat) \<Rightarrow> hash_t \<Rightarrow> bool" where
  "valued b recs ws C ix h \<longleftrightarrow>
     (\<forall>t < length ws. active (pos_of ws t) \<longrightarrow>
        loaded b recs (ix t) (wop (ws ! t)) \<and> written h (pos_of ws t) (wop (ws ! t))
        \<and> found b recs (ix t) (pos_of ws t) (wop (ws ! t)))
     \<and> (\<forall>i < slots h. key_at h i \<noteq> 0 \<longrightarrow>
          (\<exists>t < length ws. \<exists>c. half_written (pos_of ws t) = Some c \<and> unat c = i)
          \<or> (\<exists>j. last_put recs (key_at h i) (effects ws C ix) j \<and> entry_val (table h ! i) = val_at b recs j))"

lemma valuedD:
  assumes "valued b recs ws C ix h"
  shows "t < length ws \<Longrightarrow> active (pos_of ws t) \<Longrightarrow> loaded b recs (ix t) (wop (ws ! t))
      \<and> written h (pos_of ws t) (wop (ws ! t)) \<and> found b recs (ix t) (pos_of ws t) (wop (ws ! t))"
    and "i < slots h \<Longrightarrow> key_at h i \<noteq> 0 \<Longrightarrow>
      (\<exists>t < length ws. \<exists>c. half_written (pos_of ws t) = Some c \<and> unat c = i)
      \<or> (\<exists>j. last_put recs (key_at h i) (effects ws C ix) j \<and> entry_val (table h ! i) = val_at b recs j)"
  using assms unfolding valued_def by simp_all

definition par_inv ::
  "input_rec list \<Rightarrow> nat \<Rightarrow> par_state \<Rightarrow> nat \<Rightarrow> nat set \<Rightarrow> (nat \<Rightarrow> nat) \<Rightarrow> bool" where
  "par_inv recs pad s n C ix \<longleftrightarrow>
     assigned recs (workers s) n C ix \<and> registered (workers s) (being_processed s)
     \<and> in_order recs (workers s) C ix \<and> waits recs (workers s) ix \<and> logged recs (workers s) C
     \<and> input_at recs pad n (exited (workers s)) (input s)
     \<and> tab_ok (htable s) \<and> locals (workers s) (htable s) \<and> counts recs (workers s) n (htable s)
     \<and> contents recs (workers s) C ix (htable s) \<and> results recs (workers s) ix
     \<and> valued (base (input s)) recs (workers s) C ix (htable s)"

lemma par_invD:
  assumes "par_inv recs pad s n C ix"
  shows "assigned recs (workers s) n C ix" "registered (workers s) (being_processed s)"
    "in_order recs (workers s) C ix" "waits recs (workers s) ix" "logged recs (workers s) C"
    "input_at recs pad n (exited (workers s)) (input s)"
    "tab_ok (htable s)" "locals (workers s) (htable s)" "counts recs (workers s) n (htable s)"
    "contents recs (workers s) C ix (htable s)" "results recs (workers s) ix"
    "valued (base (input s)) recs (workers s) C ix (htable s)"
  using assms unfolding par_inv_def by blast+

lemma assignedD:
  assumes "assigned recs ws n C ix"
  shows "n \<le> length recs" "C \<subseteq> {..<n}"
    and "t < length ws \<Longrightarrow> active (pos_of ws t) \<Longrightarrow> ix t < n \<and> ix t \<notin> C \<and> op_is (recs ! ix t) (wop (ws ! t))"
    and "t < length ws \<Longrightarrow> u < length ws \<Longrightarrow> active (pos_of ws t) \<Longrightarrow> active (pos_of ws u) \<Longrightarrow> ix t = ix u \<Longrightarrow> t = u"
    and "j < n \<Longrightarrow> j \<in> C \<or> (\<exists>t < length ws. active (pos_of ws t) \<and> ix t = j)"
  using assms unfolding assigned_def by blast+

lemma running_active: "running p \<Longrightarrow> active p" "ended p \<Longrightarrow> active p"
  by (cases p; simp)+

lemma op_is_fits: "recs_ok recs \<Longrightarrow> j < length recs \<Longrightarrow> op_is (recs ! j) oper \<Longrightarrow> op_fits oper"
  by (auto simp: recs_ok_def op_is_def op_fits_def)

lemma in_orderD:
  assumes "in_order recs ws C ix"
  shows "t < length ws \<Longrightarrow> running (pos_of ws t) \<or> ended (pos_of ws t) \<Longrightarrow> j < ix t \<Longrightarrow>
      rec_key (recs ! j) = rec_key (recs ! ix t) \<Longrightarrow> j \<in> C"
    and "i \<in> C \<Longrightarrow> j < i \<Longrightarrow> rec_key (recs ! j) = rec_key (recs ! i) \<Longrightarrow> j \<in> C"
  using assms unfolding in_order_def by blast+

text \<open>Two operations on the same key are never under way at the same time.\<close>

lemma records_exclusive:
  assumes "assigned recs ws n C ix" "in_order recs ws C ix" "t < length ws" "u < length ws"
    and "running (pos_of ws t) \<or> ended (pos_of ws t)" "running (pos_of ws u) \<or> ended (pos_of ws u)"
    and "rec_key (recs ! ix t) = rec_key (recs ! ix u)"
  shows "t = u"
proof -
  have act: "active (pos_of ws t)" "active (pos_of ws u)"
    using assms(5,6) running_active by blast+
  note t = assignedD(3) [OF assms(1,3) act(1)] and u = assignedD(3) [OF assms(1,4) act(2)]
  have "\<not> ix t < ix u"
    using in_orderD(1) [OF assms(2,4,6) _ assms(7)] t by blast
  moreover have "\<not> ix u < ix t"
    using in_orderD(1) [OF assms(2,3,5) _ assms(7) [symmetric]] u by blast
  ultimately show ?thesis
    using assignedD(4) [OF assms(1,3,4) act] by simp
qed

lemma keys_exclusive:
  assumes "assigned recs ws n C ix" "in_order recs ws C ix" "t < length ws" "u < length ws"
    and "running (pos_of ws t) \<or> ended (pos_of ws t)" "running (pos_of ws u) \<or> ended (pos_of ws u)"
    and "op_key (wop (ws ! t)) = op_key (wop (ws ! u))"
  shows "t = u"
proof (rule records_exclusive [OF assms(1-6)])
  have "active (pos_of ws t)" "active (pos_of ws u)"
    using assms(5,6) running_active by blast+
  then show "rec_key (recs ! ix t) = rec_key (recs ! ix u)"
    using assignedD(3) [OF assms(1,3)] assignedD(3) [OF assms(1,4)] assms(7) by (simp add: op_is_def)
qed

text \<open>
  What has been done for the key of an operation under way: everything before it in the file and
  nothing behind it.
\<close>

lemma effects_of_key:
  assumes "assigned recs ws n C ix" "in_order recs ws C ix" "t < length ws"
    and "running (pos_of ws t) \<or> ended (pos_of ws t)"
  shows "of_key recs (rec_key (recs ! ix t)) (effects ws C ix) =
    of_key recs (rec_key (recs ! ix t)) {..<ix t} \<union> (if effected (pos_of ws t) then {ix t} else {})"
proof -
  let ?k = "rec_key (recs ! ix t)"
  have act: "active (pos_of ws t)"
    using assms(4) running_active by blast
  have out: "ix t \<notin> C"
    using assignedD(3) [OF assms(1,3) act] by blast
  have C: "j \<in> C \<longleftrightarrow> j < ix t" if "rec_key (recs ! j) = ?k" for j
  proof
    assume "j \<in> C"
    then show "j < ix t"
      using out in_orderD(2) [OF assms(2) \<open>j \<in> C\<close>, of "ix t"] that by (metis linorder_neqE_nat)
  qed (rule in_orderD(1) [OF assms(2-4) _ that])
  have E: "u = t" if "u < length ws" "effected (pos_of ws u)" "rec_key (recs ! ix u) = ?k" for u
    using records_exclusive [OF assms(1,2) that(1) assms(3) effected_running [OF that(2)] assms(4) that(3)] .
  show ?thesis
    using C E assms(3) by (auto simp: of_key_def effects_def)
qed

lemma present_before:
  assumes "assigned recs ws n C ix" "in_order recs ws C ix" "contents recs ws C ix h" "t < length ws"
    and "running (pos_of ws t)" "\<not> effected (pos_of ws t)" "op_key (wop (ws ! t)) \<noteq> 0"
  shows "op_key (wop (ws ! t)) \<in> keys_of h \<longleftrightarrow> rec_key (recs ! ix t) \<in> keys_after (take (ix t) recs)"
proof -
  let ?k = "rec_key (recs ! ix t)"
  note t = assignedD(3) [OF assms(1,4) running_active(1) [OF assms(5)]]
  have k: "op_key (wop (ws ! t)) = ?k"
    using t by (simp add: op_is_def)
  have "of_key recs ?k (effects ws C ix) = of_key recs ?k {..<ix t}"
    using effects_of_key [OF assms(1,2,4)] assms(5,6) by simp
  then have "stored_by recs ?k (effects ws C ix) \<longleftrightarrow> stored_by recs ?k {..<ix t}"
    by (rule stored_by_cong)
  also have "\<dots> \<longleftrightarrow> ?k \<in> keys_after (take (ix t) recs)"
    using t assignedD(1) [OF assms(1)] by (intro stored_by_prefix) simp
  finally show ?thesis
    using assms(3,7) k unfolding contents_def by simp
qed

end
