(* ===== verification/Parallel_Operation.thy ===== *)
theory Parallel_Operation
  imports Parallel_Invariant
begin

text \<open>
  The steps of the operations on the table keep the invariant of the hash table program with
  several threads.
\<close>

section \<open>A step of an operation keeps the invariant\<close>

text \<open>Steps that do not read or finish an operation.\<close>

definition calm :: "worker list \<Rightarrow> worker list \<Rightarrow> bool" where
  "calm ws ws' \<longleftrightarrow> length ws' = length ws \<and> (\<forall>t < length ws. lines_of (ws' ! t) = lines_of (ws ! t)
     \<and> (active (pos_of ws' t) \<longleftrightarrow> active (pos_of ws t))
     \<and> (pos_of ws' t = Exited \<longleftrightarrow> pos_of ws t = Exited) \<and> same_op (wop (ws ! t)) (wop (ws' ! t)))"

lemma op_is_same_op: "same_op oper oper' \<Longrightarrow> op_is r oper' \<longleftrightarrow> op_is r oper"
  by (auto simp: same_op_def op_is_def)

lemma calmD:
  assumes "calm ws ws'"
  shows "length ws' = length ws"
    and "t < length ws \<Longrightarrow> lines_of (ws' ! t) = lines_of (ws ! t)"
    and "t < length ws \<Longrightarrow> active (pos_of ws' t) \<longleftrightarrow> active (pos_of ws t)"
    and "t < length ws \<Longrightarrow> pos_of ws' t = Exited \<longleftrightarrow> pos_of ws t = Exited"
    and "t < length ws \<Longrightarrow> op_is r (wop (ws' ! t)) \<longleftrightarrow> op_is r (wop (ws ! t))"
  using assms op_is_same_op unfolding calm_def by blast+

lemma calm_queue:
  assumes "calm ws ws'"
  shows "assigned recs ws n C ix \<Longrightarrow> assigned recs ws' n C ix"
    and "registered ws bp \<Longrightarrow> registered ws' bp"
    and "logged recs ws C \<Longrightarrow> logged recs ws' C"
    and "exited ws' = exited ws"
proof -
  note D = calmD [OF assms]
  show "assigned recs ws n C ix \<Longrightarrow> assigned recs ws' n C ix"
    unfolding assigned_def D(1) using D(3,5) by (simp cong: conj_cong imp_cong)
  show "registered ws bp \<Longrightarrow> registered ws' bp"
    unfolding registered_def D(1) using D(3) by (simp cong: conj_cong)
  have "List.map lines_of ws' = List.map lines_of ws"
    using D(1,2) by (simp add: list_eq_iff_nth_eq)
  then show "logged recs ws C \<Longrightarrow> logged recs ws' C"
    by (simp add: logged_def)
  show "exited ws' = exited ws"
    unfolding exited_def using D(1,4) by (intro length_filter_pointwise) simp_all
qed

lemma calm_in_order:
  assumes "calm ws ws'" "in_order recs ws C ix"
    and "\<And>t j. t < length ws \<Longrightarrow> running (pos_of ws' t) \<or> ended (pos_of ws' t) \<Longrightarrow>
      running (pos_of ws t) \<or> ended (pos_of ws t)
      \<or> (\<forall>j < ix t. rec_key (recs ! j) = rec_key (recs ! ix t) \<longrightarrow> j \<in> C)"
  shows "in_order recs ws' C ix"
  using assms(2,3) unfolding in_order_def calmD(1) [OF assms(1)] by blast

lemma calm_waits:
  assumes "calm ws ws'" "waits recs ws ix"
    and "\<And>t. t < length ws \<Longrightarrow> pos_of ws' t = Waiting \<Longrightarrow> pos_of ws t = Waiting
      \<or> (\<exists>u < length ws. active (pos_of ws u) \<and> ix u < ix t \<and> rec_key (recs ! ix u) = rec_key (recs ! ix t))"
  shows "waits recs ws' ix"
  unfolding waits_def calmD(1) [OF assms(1)]
proof (intro allI impI)
  fix t
  assume t: "t < length ws" "pos_of ws' t = Waiting"
  then have "\<exists>u < length ws. active (pos_of ws u) \<and> ix u < ix t \<and> rec_key (recs ! ix u) = rec_key (recs ! ix t)"
    using assms(2,3) unfolding waits_def by blast
  then show "\<exists>u < length ws. active (pos_of ws' u) \<and> ix u < ix t \<and> rec_key (recs ! ix u) = rec_key (recs ! ix t)"
    using calmD(3) [OF assms(1)] by blast
qed

definition moved :: "nat \<Rightarrow> pos \<Rightarrow> op_t \<Rightarrow> worker list \<Rightarrow> worker list" where
  "moved t p oper ws = ws[t := (ws ! t)\<lparr>wop := oper, wpos := p\<rparr>]"

lemma workers_moved:
  "t < length (workers s) \<Longrightarrow> workers (set_pos t p (set_op t oper s)) = moved t p oper (workers s)"
  by (simp add: set_pos_def set_op_def moved_def)

lemma moved_sel:
  "length (moved t p oper ws) = length ws"
  "t < length ws \<Longrightarrow> moved t p oper ws ! t = (ws ! t)\<lparr>wop := oper, wpos := p\<rparr>"
  "u \<noteq> t \<Longrightarrow> moved t p oper ws ! u = ws ! u"
  by (simp_all add: moved_def)

lemma moved_calm:
  assumes "t < length ws" "active (pos_of ws t)" "active p" "same_op (wop (ws ! t)) oper"
  shows "calm ws (moved t p oper ws)"
  unfolding calm_def
proof (intro conjI allI impI)
  fix u
  assume u: "u < length ws"
  note sel = moved_sel(2) [OF assms(1), of p oper] moved_sel(3) [of u t p oper ws]
  show "lines_of (moved t p oper ws ! u) = lines_of (ws ! u)"
    using sel assms(2,3) by (cases "u = t") (simp_all add: lines_of_def no_pending)
  show "active (pos_of (moved t p oper ws) u) \<longleftrightarrow> active (pos_of ws u)"
    using sel assms(2,3) by (cases "u = t") simp_all
  show "pos_of (moved t p oper ws) u = Exited \<longleftrightarrow> pos_of ws u = Exited"
    using sel assms(2,3) by (cases "u = t") auto
  show "same_op (wop (ws ! u)) (wop (moved t p oper ws ! u))"
    using sel assms(4) by (cases "u = t") (simp_all add: same_op_def)
qed (simp add: moved_sel)

lemma moved_pos:
  "t < length ws \<Longrightarrow> pos_of (moved t p oper ws) u = (if u = t then p else pos_of ws u)"
  by (simp add: moved_sel)

lemma moved_wop:
  "t < length ws \<Longrightarrow> wop (moved t p oper ws ! u) = (if u = t then oper else wop (ws ! u))"
  by (simp add: moved_sel)

lemma moved_filter:
  assumes "t < length ws"
  shows "length (filter P (moved t p oper ws)) + (if P (ws ! t) then 1 else 0)
    = length (filter P ws) + (if P ((ws ! t)\<lparr>wop := oper, wpos := p\<rparr>) then 1 else 0)"
  unfolding moved_def by (rule length_filter_update [OF assms])

lemma locals_moved:
  assumes ok: "tab_ok h" "has_room h" and fits: "\<forall>u < length ws. active (pos_of ws u) \<longrightarrow> op_fits (wop (ws ! u))"
    and loc: "locals ws h" and t: "t < length ws" "running (pos_of ws t)"
    and alone: "\<forall>u < length ws. u \<noteq> t \<and> (running (pos_of ws u) \<or> ended (pos_of ws u)) \<longrightarrow>
      op_key (wop (ws ! u)) \<noteq> op_key (wop (ws ! t))"
    and step: "op_step (lock_free ws) (pos_of ws t) (wop (ws ! t)) h = Some (Returns (p, oper, h'))"
  shows "locals (moved t p oper ws) h'"
proof -
  let ?ws = "moved t p oper ws"
  have L: "\<And>u. u < length ws \<Longrightarrow> local_ok h (pos_of ws u) (wop (ws ! u))"
    and locks: "\<And>u v c. u < length ws \<Longrightarrow> v < length ws \<Longrightarrow> holds (pos_of ws u) = Some c \<Longrightarrow>
      holds (pos_of ws v) = Some c \<Longrightarrow> u = v"
    using loc unfolding locals_def by blast+
  have fits_t: "op_fits (wop (ws ! t))"
    using fits t running_active(1) by blast
  have "local_ok h' (pos_of ?ws u) (wop (?ws ! u))" if u: "u < length ws" for u
  proof (cases "u = t")
    case True
    then show ?thesis
      using op_step_local [OF ok fits_t L [OF t(1)] step] t(1) by (simp add: moved_sel)
  next
    case False
    show ?thesis
    proof (cases "running (pos_of ws u)")
      case True
      have "holds (pos_of ws u) \<noteq> None \<longrightarrow> holds (pos_of ws t) \<noteq> holds (pos_of ws u)"
        using locks [OF u t(1)] False by auto
      moreover have "op_key (wop (ws ! u)) \<noteq> 0"
        using fits u running_active(1) [OF True] by (simp add: op_fits_def)
      moreover have "op_key (wop (ws ! u)) \<noteq> op_key (wop (ws ! t))"
        using alone u False True by blast
      ultimately have "rely (op_key (wop (ws ! u))) (holds (pos_of ws u)) h h'"
        by (intro op_step_rely [OF ok(1) fits_t L [OF t(1)] step])
      from local_ok_rely [OF ok(1) this L [OF u]] show ?thesis
        using False by (simp add: moved_sel)
    next
      case not_running: False
      then have "local_ok h' (pos_of ws u) (wop (ws ! u))"
        by (cases "pos_of ws u") simp_all
      then show ?thesis
        using False by (simp add: moved_sel)
    qed
  qed
  moreover have "u = v" if "u < length ws" "v < length ws" "holds (pos_of ?ws u) = Some c"
    "holds (pos_of ?ws v) = Some c" for u v c
  proof -
    have new: "w = t" if "w < length ws" "holds (pos_of ws w) = Some c" "holds p = Some c" for w
    proof -
      have "holds (pos_of ws t) = Some c \<or> lock_free ws c"
        by (rule op_step_locks [OF step that(3)])
      then show ?thesis
        using locks [OF that(1) t(1) that(2)] that(1,2) by (auto simp: lock_free_def list_all_length)
    qed
    have at: "holds (pos_of ?ws w) = holds (if w = t then p else pos_of ws w)" for w
      using t(1) by (simp add: moved_sel)
    have "u = t \<longleftrightarrow> v = t"
      using that new [of u] new [of v] unfolding at by metis
    then show ?thesis
      using locks [OF that(1,2)] that(3,4) unfolding at by (cases "u = t") simp_all
  qed
  ultimately show ?thesis
    unfolding locals_def by (simp add: moved_sel(1))
qed

lemma used_fits:
  assumes "tab_ok h" "counts recs ws n h"
  shows "unat (used h) + adders ws < slots h" "used h < table_size h"
proof -
  have "live h + tombs h + empties h = slots h"
    using slots_split tab_okD(2) [OF assms(1)] by blast
  then show "unat (used h) + adders ws < slots h"
    using assms(2) unfolding counts_def by linarith
  then show "used h < table_size h"
    by (simp add: word_less_nat_alt)
qed

lemma counts_moved:
  assumes ok: "tab_ok h" and fits: "op_fits (wop (ws ! t))" and loc: "local_ok h (pos_of ws t) (wop (ws ! t))"
    and c: "counts recs ws n h" and t: "t < length ws" "running (pos_of ws t)"
    and step: "op_step free (pos_of ws t) (wop (ws ! t)) h = Some (Returns (p, oper, h'))"
    and added: "pos_of ws t = Del_Count \<Longrightarrow> adders ws < live h + removers ws"
  shows "counts recs (moved t p oper ws) n h'"
proof -
  let ?p = "pos_of ws t" and ?ws = "moved t p oper ws"
  note course = op_step_course [OF step]
  have k: "op_key (wop (ws ! t)) \<noteq> 0"
    using fits by (simp add: op_fits_def)
  have type: "op_type oper = op_type (wop (ws ! t))"
    using op_step_same_op [OF step] by (simp add: same_op_def)
  have A: "adders ?ws + (if added ?p then 1 else 0) = adders ws + (if added p then 1 else 0)"
    using moved_filter [OF t(1), of "\<lambda>w. added (wpos w)"] by (simp add: adders_def)
  have R: "removers ?ws + (if removed ?p then 1 else 0) = removers ws + (if removed p then 1 else 0)"
    using moved_filter [OF t(1), of "\<lambda>w. removed (wpos w)"] by (simp add: removers_def)
  have P: "putters ?ws + (if op_type (wop (ws ! t)) = PUT \<and> putting ?p then 1 else 0)
      = putters ws + (if op_type (wop (ws ! t)) = PUT \<and> putting p then 1 else 0)"
    using moved_filter [OF t(1), of "\<lambda>w. op_type (wop w) = PUT \<and> putting (wpos w)"] type
    by (simp add: putters_def)
  note c = c [unfolded counts_def]
  note used = op_step_used [OF step]
  consider (new) c where "?p = New_Key c" | (del) c where "?p = Del_Key c"
    | (new_count) "?p = New_Count" | (del_count) "?p = Del_Count"
    | (other) "\<forall>c. ?p \<noteq> New_Key c \<and> ?p \<noteq> Del_Key c \<and> ?p \<noteq> New_Count \<and> ?p \<noteq> Del_Count"
    by blast
  then show ?thesis
  proof cases
    case new
    note N = op_step_New_Key [OF ok k loc [unfolded new] step [unfolded new]]
    have "op_type (wop (ws ! t)) = PUT" "added p" "\<not> putting p" "\<not> removed p"
      using loc new course by auto
    then show ?thesis
      using A R P new N(4-6) c used unfolding counts_def by simp
  next
    case del
    note D = op_step_Del_Key [OF ok k loc [unfolded del] step [unfolded del]]
    have "removed p" "\<not> added p" "\<not> putting p"
      using loc del course by auto
    then show ?thesis
      using A R P del D(4-6) c used unfolding counts_def by simp
  next
    case new_count
    have a: "alike h h'"
      using op_step_alike [OF ok fits loc step] new_count by simp
    have p: "\<not> added p" "\<not> putting p" "\<not> removed p"
      using new_count course by auto
    have "unat (used h) < 2 ^ 32 - 1"
      using used_fits(1) [OF ok assms(4)] A new_count unsigned_less [of "table_size h", where ?'a = nat]
      by (simp split: if_splits)
    then have "used h \<noteq> - 1"
      using unat_max by auto
    then have "used h' = used h + 1" "unat (used h + 1) = unat (used h) + 1"
      using used new_count add_used_up \<open>unat (used h) < 2 ^ 32 - 1\<close>
      by (simp, subst unat_add_lem [THEN iffD1]) simp_all
    then show ?thesis
      using A R P new_count p alike_counts [OF a tab_okD(2) [OF ok]] c unfolding counts_def by simp
  next
    case del_count
    have a: "alike h h'"
      using op_step_alike [OF ok fits loc step] del_count by simp
    have p: "\<not> added p" "\<not> putting p" "\<not> removed p"
      using del_count course by auto
    have "0 < unat (used h)"
      using added [OF del_count] c by linarith
    then have "used h \<noteq> 0"
      by auto
    then have "used h' = used h - 1" "unat (used h - 1) = unat (used h) - 1"
      using used del_count add_used_down unat_minus_one by simp_all
    then show ?thesis
      using A R P del_count p alike_counts [OF a tab_okD(2) [OF ok]] c \<open>0 < unat (used h)\<close>
      unfolding counts_def by simp
  next
    case other
    have a: "alike h h'"
      using op_step_alike [OF ok fits loc step] other by simp
    have "added p = added ?p" "removed p = removed ?p" "putting p \<longrightarrow> putting ?p"
      using other course by auto
    then show ?thesis
      using A R P other used alike_counts [OF a tab_okD(2) [OF ok]] c unfolding counts_def
      by (auto split: if_splits)
  qed
qed

lemma effects_moved:
  assumes "t < length ws" "effected (pos_of ws t) \<Longrightarrow> effected p"
  shows "effects (moved t p oper ws) C ix =
    (if effected p then insert (ix t) (effects ws C ix) else effects ws C ix)"
proof -
  have "effected (pos_of (moved t p oper ws) u) \<longleftrightarrow> u = t \<and> effected p \<or> effected (pos_of ws u)" for u
    using assms by (cases "u = t") (auto simp: moved_sel)
  then show ?thesis
    using assms unfolding effects_def by (auto simp: moved_sel(1) split: if_splits)
qed

lemma contents_moved:
  assumes inv: "assigned recs ws n C ix" "in_order recs ws C ix" "contents recs ws C ix h"
    and ok: "tab_ok h" and fits: "op_fits (wop (ws ! t))" and loc: "local_ok h (pos_of ws t) (wop (ws ! t))"
    and t: "t < length ws" "running (pos_of ws t)"
    and step: "op_step free (pos_of ws t) (wop (ws ! t)) h = Some (Returns (p, oper, h'))"
  shows "contents recs (moved t p oper ws) C ix h'"
proof -
  let ?p = "pos_of ws t" and ?E = "effects ws C ix" and ?k = "rec_key (recs ! ix t)"
  have oi: "op_is (recs ! ix t) (wop (ws ! t))"
    using assignedD(3) [OF inv(1) t(1) running_active(1) [OF t(2)]] by blast
  note keys = op_step_keys [OF ok fits loc step]
  have E: "effects (moved t p oper ws) C ix = (if effected p then insert (ix t) ?E else ?E)"
    by (rule effects_moved [OF t(1)]) (rule op_step_stable(1) [OF step])
  show ?thesis
  proof (cases "\<not> effected ?p \<and> effected p")
    case True
    have before: "j < ix t" if "j \<in> ?E" "rec_key (recs ! j) = ?k" for j
      using effects_of_key [OF inv(1,2) t(1)] t(2) True that by (auto simp: of_key_def)
    have "k \<in> op_effect (wop (ws ! t)) (keys_of h) \<longleftrightarrow> stored_by recs k (insert (ix t) ?E)" if "k \<noteq> 0" for k
    proof (cases "k = ?k")
      case True
      then show ?thesis
        using before oi inv(3) that unfolding contents_def
        by (subst stored_by_insert) (auto simp: op_effect_def op_is_def)
    next
      case False
      then have "of_key recs k (insert (ix t) ?E) = of_key recs k ?E"
        by (auto simp: of_key_def)
      from stored_by_cong [OF this] show ?thesis
        using False oi inv(3) that unfolding contents_def by (auto simp: op_effect_def op_is_def)
    qed
    then show ?thesis
      unfolding contents_def E keys using True by simp
  next
    case False
    have "ix t \<in> ?E" if "effected ?p"
      using that t(1) by (auto simp: effects_def)
    then have "effects (moved t p oper ws) C ix = ?E"
      using False E by (auto simp: insert_absorb)
    then show ?thesis
      using inv(3) keys False unfolding contents_def by simp
  qed
qed

lemma results_moved:
  assumes inv: "assigned recs ws n C ix" "in_order recs ws C ix" "contents recs ws C ix h" "results recs ws ix"
    and ok: "tab_ok h" and fits: "op_fits (wop (ws ! t))" and loc: "local_ok h (pos_of ws t) (wop (ws ! t))"
    and t: "t < length ws" "running (pos_of ws t)"
    and step: "op_step free (pos_of ws t) (wop (ws ! t)) h = Some (Returns (p, oper, h'))"
  shows "results recs (moved t p oper ws) ix"
proof -
  let ?p = "pos_of ws t"
  have k: "op_key (wop (ws ! t)) \<noteq> 0"
    using fits by (simp add: op_fits_def)
  have oi: "op_is (recs ! ix t) (wop (ws ! t))"
    using assignedD(3) [OF inv(1) t(1) running_active(1) [OF t(2)]] by blast
  note present = present_before [OF inv(1-3) t _ k]
  have del: "result_at recs (ix t) = 0" if "deleting p"
  proof (cases "deleting ?p")
    case True
    then show ?thesis
      using inv(4) t(1) unfolding results_def by blast
  next
    case False
    then have "\<exists>c. ?p = Del_Lock c \<and> p = Del_Id c \<and> key_is h c (op_key (wop (ws ! t)))"
      using that step loc by (cases ?p) (auto simp: step_defs behind_probe_def put_at_def Let_def key_is_def
          split: if_splits prod.splits)
    then have "\<not> effected ?p" "op_key (wop (ws ! t)) \<in> keys_of h"
      using k by (auto simp: effected_def keys_of_def absent_def key_is_def)
    then show ?thesis
      using present by (simp add: result_at_def)
  qed
  have ret: "r = result_at recs (ix t)" if "p = Op_Done r" for r
  proof -
    note res = op_step_result [OF ok k loc step [unfolded that]]
    consider "op_type (wop (ws ! t)) = PUT" | "op_type (wop (ws ! t)) = GET" | "op_type (wop (ws ! t)) = DEL"
      using rec_types [of "recs ! ix t"] oi by (auto simp: op_is_def)
    then show ?thesis
    proof cases
      case 1
      then show ?thesis
        using res(1) oi by (simp add: result_at_def op_is_def)
    next
      case 2
      then have "\<not> effected ?p"
        using loc step that by (cases ?p) (auto simp: step_defs effected_def split: if_splits prod.splits)
      then show ?thesis
        using res(2) 2 oi present by (simp add: result_at_def op_is_def)
    next
      case 3
      show ?thesis
      proof (cases "?p = Del_Count")
        case True
        then have "result_at recs (ix t) = 0"
          using inv(4) t(1) unfolding results_def by (metis deleting.simps(5))
        then show ?thesis
          using res(3) 3 True by simp
      next
        case False
        then have "\<not> effected ?p"
          using 3 loc step that
          by (cases ?p) (auto simp: step_defs effected_def behind_probe_def put_at_def Let_def
              split: if_splits prod.splits)
        then show ?thesis
          using res(3) 3 False oi present by (simp add: result_at_def op_is_def)
      qed
    qed
  qed
  show ?thesis
    unfolding results_def moved_sel(1)
  proof (intro allI impI)
    fix u
    assume "u < length ws"
    then show "(\<forall>r. pos_of (moved t p oper ws) u = Op_Done r \<longrightarrow> r = result_at recs (ix u))
        \<and> (deleting (pos_of (moved t p oper ws) u) \<longrightarrow> result_at recs (ix u) = 0)"
      using inv(4) del ret t(1) unfolding results_def by (cases "u = t") (simp_all add: moved_sel)
  qed
qed

text \<open>A step of one thread leaves the values of the other keys and what the others have stored.\<close>

lemma loaded_same: "loaded b recs j oper \<Longrightarrow> rec_type (recs ! j) \<noteq> PUT \<or> oper' = oper \<Longrightarrow> loaded b recs j oper'"
  by (auto simp: loaded_def payload_def is_put_def)

lemma value_found:
  assumes inv: "assigned recs ws n C ix" "in_order recs ws C ix" "locals ws h" "valued b recs ws C ix h"
    and t: "t < length ws" "pos_of ws t = Get_Len c \<or> pos_of ws t = Get_Data c"
    and key: "key_is h c (op_key (wop (ws ! t)))" "op_key (wop (ws ! t)) \<noteq> 0"
  shows "\<exists>i. last_put recs (rec_key (recs ! ix t)) {..<ix t} i \<and> entry_val (table h ! unat c) = val_at b recs i"
proof -
  have run: "running (pos_of ws t)" and eff: "\<not> effected (pos_of ws t)"
    using t(2) by (auto simp: effected_def)
  have "op_is (recs ! ix t) (wop (ws ! t))"
    using assignedD(3) [OF inv(1) t(1) running_active(1) [OF run]] by blast
  then have k: "key_at h (unat c) = rec_key (recs ! ix t)" "key_at h (unat c) \<noteq> 0" "unat c < slots h"
    using key by (simp_all add: op_is_def key_is_def)
  have "half_written (pos_of ws u) \<noteq> Some d" if "u < length ws" "unat d = unat c" for u d
  proof
    assume half: "half_written (pos_of ws u) = Some d"
    have "local_ok h (pos_of ws u) (wop (ws ! u))"
      using inv(3) that(1) unfolding locals_def by blast
    from half_written_key [OF this half] have "op_key (wop (ws ! u)) = op_key (wop (ws ! t))"
      using key(1) that(2) by (simp add: key_is_def)
    from keys_exclusive [OF inv(1,2) that(1) t(1) _ _ this] half_written_running [OF half] run have "u = t"
      by blast
    then show False
      using half t(2) by auto
  qed
  then obtain i where "last_put recs (key_at h (unat c)) (effects ws C ix) i" "entry_val (table h ! unat c) = val_at b recs i"
    using valuedD(2) [OF inv(4) k(3,2)] by metis
  moreover have of_key: "of_key recs (rec_key (recs ! ix t)) (effects ws C ix)
      = of_key recs (rec_key (recs ! ix t)) {..<ix t}"
    using effects_of_key [OF inv(1,2) t(1)] run eff by simp
  ultimately show ?thesis
    unfolding k(1) last_put_cong [OF of_key] by blast
qed

lemma written_moved:
  assumes inv: "assigned recs ws n C ix" "in_order recs ws C ix" "locals ws h" "valued b recs ws C ix h"
    and ok: "tab_ok h" "op_fits (wop (ws ! t))" and t: "t < length ws" "running (pos_of ws t)"
    and step: "op_step free (pos_of ws t) (wop (ws ! t)) h = Some (Returns (p, oper, h'))"
    and u: "u < length ws" "active (pos_of (moved t p oper ws) u)"
  shows "loaded b recs (ix u) (wop (moved t p oper ws ! u))
    \<and> written h' (pos_of (moved t p oper ws) u) (wop (moved t p oper ws ! u))
    \<and> found b recs (ix u) (pos_of (moved t p oper ws) u) (wop (moved t p oper ws ! u))"
proof (cases "u = t")
  case True
  have act: "active (pos_of ws t)"
    using t(2) running_active by blast
  have loc: "local_ok h (pos_of ws t) (wop (ws ! t))"
    using inv(3) t(1) unfolding locals_def by blast
  have V: "loaded b recs (ix t) (wop (ws ! t))" "written h (pos_of ws t) (wop (ws ! t))"
    "found b recs (ix t) (pos_of ws t) (wop (ws ! t))"
    using inv(4) t(1) act unfolding valued_def by blast+
  have "op_is (recs ! ix t) (wop (ws ! t))"
    using assignedD(3) [OF inv(1) t(1) act] by blast
  then have "rec_type (recs ! ix t) \<noteq> PUT \<or> oper = wop (ws ! t)"
    using op_step_oper [OF loc step] by (auto simp: op_is_def)
  moreover have "found b recs (ix t) p oper"
    using value_found [OF inv t(1)] ok(2) by (intro found_step [OF loc step V(3)]) (simp add: op_fits_def)
  ultimately show ?thesis
    using True t(1) loaded_same [OF V(1)] written_own [OF ok(1) loc V(2) step] by (simp add: moved_sel)
next
  case False
  have act: "active (pos_of ws u)"
    using u False by (simp add: moved_sel)
  have "holds (pos_of ws u) \<noteq> None \<longrightarrow> holds (pos_of ws t) \<noteq> holds (pos_of ws u)"
    using inv(3) t(1) u(1) False unfolding locals_def by (metis not_None_eq)
  then show ?thesis
    using inv(4) u(1) act False written_other [OF step] unfolding valued_def by (simp add: moved_sel)
qed

lemma value_held:
  assumes inv: "assigned recs ws n C ix" "in_order recs ws C ix" "valued b recs ws C ix h"
    and ok: "tab_ok h" and loc: "local_ok h (pos_of ws t) (wop (ws ! t))"
    and t: "t < length ws" "running (pos_of ws t)"
    and step: "op_step free (pos_of ws t) (wop (ws ! t)) h = Some (Returns (p, oper, h'))"
    and c: "holds (pos_of ws t) = Some c" "key_at h' (unat c) \<noteq> 0"
  shows "half_written p = Some c
    \<or> last_put recs (key_at h' (unat c)) (effects (moved t p oper ws) C ix) (ix t)
      \<and> entry_val (table h' ! unat c) = val_at b recs (ix t)"
proof -
  let ?E = "effects (moved t p oper ws) C ix" and ?oper = "wop (ws ! t)"
  have act: "active (pos_of ws t)"
    using t(2) running_active by blast
  have oi: "op_is (recs ! ix t) ?oper"
    using assignedD(3) [OF inv(1) t(1) act] by blast
  have V: "loaded b recs (ix t) ?oper" "written h (pos_of ws t) ?oper"
    using inv(3) t(1) act unfolding valued_def by blast+
  show ?thesis
  proof (cases "half_written p = Some c")
    case False
    then have eff: "effected p" and put: "op_type ?oper = PUT"
      and new: "key_at h' (unat c) = op_key ?oper" "entry_val (table h' ! unat c) = op_val ?oper"
      using op_step_value [OF ok loc V(2) step c] by blast+
    have E: "?E = insert (ix t) (effects ws C ix)"
      using effects_moved [OF t(1) op_step_stable(1) [OF step]] eff by simp
    have "i \<le> ix t" if "i \<in> ?E" "rec_key (recs ! i) = rec_key (recs ! ix t)" for i
    proof (cases "i = ix t")
      case False
      then have "i \<in> of_key recs (rec_key (recs ! ix t)) (effects ws C ix)"
        using that unfolding E by (simp add: of_key_def)
      then show ?thesis
        unfolding effects_of_key [OF inv(1,2) t(1) disjI1 [OF t(2)]]
        by (auto simp: of_key_def split: if_splits)
    qed simp
    then have "last_put recs (rec_key (recs ! ix t)) ?E (ix t)"
      using put oi by (intro last_put_new) (auto simp: E op_is_def)
    moreover have "op_val ?oper = val_at b recs (ix t)"
      using oi put V(1) by (intro val_at_payload) (simp_all add: op_is_def loaded_def)
    ultimately show ?thesis
      using new oi by (simp add: op_is_def)
  qed simp
qed

lemma value_not_held:
  assumes inv: "assigned recs ws n C ix" and ok: "tab_ok h" and fits: "op_fits (wop (ws ! t))"
    and loc: "local_ok h (pos_of ws t) (wop (ws ! t))" and t: "t < length ws" "running (pos_of ws t)"
    and step: "op_step free (pos_of ws t) (wop (ws ! t)) h = Some (Returns (p, oper, h'))"
    and i: "i < slots h" "\<forall>c. holds (pos_of ws t) = Some c \<longrightarrow> unat c \<noteq> i"
    and last: "last_put recs (key_at h i) (effects ws C ix) j"
  shows "last_put recs (key_at h i) (effects (moved t p oper ws) C ix) j"
proof -
  have E: "effects (moved t p oper ws) C ix = (if effected p then insert (ix t) (effects ws C ix) else effects ws C ix)"
    by (rule effects_moved [OF t(1)]) (rule op_step_stable(1) [OF step])
  have oi: "op_is (recs ! ix t) (wop (ws ! t))"
    using assignedD(3) [OF inv t(1) running_active(1) [OF t(2)]] by blast
  show ?thesis
  proof (cases "\<not> effected (pos_of ws t) \<and> effected p")
    case True
    then have "rec_key (recs ! ix t) \<noteq> key_at h i \<or> rec_type (recs ! ix t) = GET"
      using op_step_effect_held [OF ok loc _ step, of i] fits oi i unfolding op_fits_def op_is_def by metis
    then show ?thesis
      using True E last_put_insert [OF last] by simp
  next
    case False
    have "ix t \<in> effects ws C ix" if "effected (pos_of ws t)"
      using that t(1) by (auto simp: effects_def)
    then show ?thesis
      using False E last by (auto simp: insert_absorb)
  qed
qed

lemma valued_moved:
  assumes inv: "assigned recs ws n C ix" "in_order recs ws C ix" "locals ws h" "valued b recs ws C ix h"
    and ok: "tab_ok h" and fits: "op_fits (wop (ws ! t))" and t: "t < length ws" "running (pos_of ws t)"
    and step: "op_step free (pos_of ws t) (wop (ws ! t)) h = Some (Returns (p, oper, h'))"
  shows "valued b recs (moved t p oper ws) C ix h'"
proof -
  let ?ws = "moved t p oper ws"
  have loc: "local_ok h (pos_of ws t) (wop (ws ! t))"
    using inv(3) t(1) unfolding locals_def by blast
  have "(\<exists>u < length ws. \<exists>c. half_written (pos_of ?ws u) = Some c \<and> unat c = i)
      \<or> (\<exists>j. last_put recs (key_at h' i) (effects ?ws C ix) j \<and> entry_val (table h' ! i) = val_at b recs j)"
    if i: "i < slots h" "key_at h' i \<noteq> 0" for i
  proof (cases "\<exists>c. holds (pos_of ws t) = Some c \<and> unat c = i")
    case True
    then obtain c where c: "holds (pos_of ws t) = Some c" "unat c = i"
      by blast
    from value_held [OF inv(1,2,4) ok loc t step c(1)] i(2) c(2) consider "half_written p = Some c"
      | "last_put recs (key_at h' i) (effects ?ws C ix) (ix t) \<and> entry_val (table h' ! i) = val_at b recs (ix t)"
      by blast
    then show ?thesis
    proof cases
      case 1
      then show ?thesis
        using t(1) c(2) by (intro disjI1 exI [of _ t]) (simp add: moved_pos)
    qed blast
  next
    case False
    then have same: "table h' ! i = table h ! i"
      by (intro op_step_entries [OF step]) blast
    then have "key_at h i \<noteq> 0"
      using i(2) by simp
    then consider u c where "u < length ws" "half_written (pos_of ws u) = Some c" "unat c = i"
      | j where "last_put recs (key_at h i) (effects ws C ix) j" "entry_val (table h ! i) = val_at b recs j"
      using inv(4) i(1) unfolding valued_def by blast
    then show ?thesis
    proof cases
      case 1
      then have "u \<noteq> t"
        using False half_written_holds by blast
      then show ?thesis
        using 1 t(1) by (intro disjI1 exI [of _ u]) (simp add: moved_pos)
    next
      case 2
      then show ?thesis
        using value_not_held [OF inv(1) ok fits loc t step i(1) _ 2(1)] False unfolding same by blast
    qed
  qed
  moreover have "slots h' = slots h"
    using op_step_sizes [OF step] by simp
  ultimately show ?thesis
    unfolding valued_def moved_sel(1) using written_moved [OF inv ok fits t step] by simp
qed

text \<open>The keys whose store is not counted yet are in the table.\<close>

lemma added_present:
  assumes inv: "assigned recs ws n C ix" "in_order recs ws C ix" "contents recs ws C ix h"
    and t: "t < length ws" "added (pos_of ws t)" and "op_type (wop (ws ! t)) = PUT" "op_key (wop (ws ! t)) \<noteq> 0"
  shows "op_key (wop (ws ! t)) \<in> keys_of h"
proof -
  have eff: "effected (pos_of ws t)"
    using t(2) by (simp add: effected_def)
  note run = effected_running [OF eff]
  have oi: "op_is (recs ! ix t) (wop (ws ! t))"
    using assignedD(3) [OF inv(1) t(1)] run running_active by blast
  have "of_key recs (rec_key (recs ! ix t)) (effects ws C ix)
      = of_key recs (rec_key (recs ! ix t)) (insert (ix t) {..<ix t})"
    using effects_of_key [OF inv(1,2) t(1) run] eff by (auto simp: of_key_def)
  from stored_by_cong [OF this] have "stored_by recs (rec_key (recs ! ix t)) (effects ws C ix)"
    using oi assms(6) by (simp add: stored_by_insert op_is_def)
  then show ?thesis
    using inv(3) oi assms(7) unfolding contents_def op_is_def by simp
qed

lemma card_keys: "tab_ok h \<Longrightarrow> finite (keys_of h) \<and> card (keys_of h) \<le> live h"
proof -
  assume "tab_ok h"
  have "keys_of h \<subseteq> set (List.map e_key (filter (\<lambda>e. e_key e \<noteq> 0) (table h)))"
  proof
    fix k
    assume "k \<in> keys_of h"
    then obtain i where "i < slots h" "key_at h i = k" "k \<noteq> 0"
      by (auto simp: keys_of_def absent_def)
    then have "table h ! i \<in> set (filter (\<lambda>e. e_key e \<noteq> 0) (table h))"
      using tab_okD(2) [OF \<open>tab_ok h\<close>] by simp
    then show "k \<in> set (List.map e_key (filter (\<lambda>e. e_key e \<noteq> 0) (table h)))"
      using \<open>key_at h i = k\<close> by auto
  qed
  moreover note card_length [of "List.map e_key (filter (\<lambda>e. e_key e \<noteq> 0) (table h))"]
  ultimately show ?thesis
    unfolding live_def length_map
    by (meson List.finite_set card_mono finite_subset le_trans)
qed

lemma adders_live:
  assumes inv: "assigned recs ws n C ix" "in_order recs ws C ix" "contents recs ws C ix h"
    and ok: "tab_ok h" "locals ws h"
    and fits: "\<forall>t < length ws. active (pos_of ws t) \<longrightarrow> op_fits (wop (ws ! t))"
  shows "adders ws \<le> live h"
proof -
  let ?A = "{t. t < length ws \<and> added (pos_of ws t)}"
  have run: "running (pos_of ws t) \<and> active (pos_of ws t)" if "added (pos_of ws t)" for t
    using that by (cases "pos_of ws t") simp_all
  have "inj_on (\<lambda>t. op_key (wop (ws ! t))) ?A"
    using keys_exclusive [OF inv(1,2)] run by (intro inj_onI) blast
  moreover have "op_key (wop (ws ! t)) \<in> keys_of h" if "t \<in> ?A" for t
  proof (rule added_present [OF inv])
    show "t < length ws" "added (pos_of ws t)"
      using that by simp_all
    then show "op_key (wop (ws ! t)) \<noteq> 0"
      using fits run by (simp add: op_fits_def)
    have "local_ok h (pos_of ws t) (wop (ws ! t))"
      using ok(2) that unfolding locals_def by blast
    then show "op_type (wop (ws ! t)) = PUT"
      using that by (cases "pos_of ws t") simp_all
  qed
  ultimately have "card ?A \<le> card (keys_of h)"
    using card_keys [OF ok(1)] by (intro card_inj_on_le) auto
  then show ?thesis
    using card_keys [OF ok(1)] by (simp add: adders_def length_filter_conv_card)
qed

lemma par_inv_fits:
  assumes "recs_ok recs" "assigned recs ws n C ix"
  shows "\<forall>t < length ws. active (pos_of ws t) \<longrightarrow> op_fits (wop (ws ! t))"
  using op_is_fits [OF assms(1)] assignedD(1,3) [OF assms(2)] by (meson order_less_le_trans)

lemma op_step_inv:
  assumes recs: "recs_ok recs" and inv: "par_inv recs pad s n C ix"
    and t: "t < length (workers s)" "running (pos_of (workers s) t)"
    and step: "op_step (lock_free (workers s)) (pos_of (workers s) t) (wop (workers s ! t)) (htable s)
      = Some (Returns (p, oper, h'))"
  shows "par_inv recs pad ((set_pos t p (set_op t oper s))\<lparr>htable := h'\<rparr>) n C ix"
proof -
  let ?ws = "workers s" and ?h = "htable s"
  note I = par_invD [OF inv]
  note fits = par_inv_fits [OF recs I(1)]
  have fit: "op_fits (wop (?ws ! t))"
    using fits t running_active(1) by blast
  have loc: "local_ok ?h (pos_of ?ws t) (wop (?ws ! t))"
    using I(8) t(1) unfolding locals_def by blast
  have room: "has_room ?h"
    using I(9) has_room_empties [OF tab_okD(2) [OF I(7)]] by (simp add: counts_def)
  have alone: "\<forall>u < length ?ws. u \<noteq> t \<and> (running (pos_of ?ws u) \<or> ended (pos_of ?ws u)) \<longrightarrow>
      op_key (wop (?ws ! u)) \<noteq> op_key (wop (?ws ! t))"
    using keys_exclusive [OF I(1,3)] t by blast
  have act: "active (pos_of ?ws t)" "active p"
    using t(2) op_step_course(1) [OF step] running_active by blast+
  have calm: "calm ?ws (moved t p oper ?ws)"
    using t(1) act op_step_same_op [OF step] by (rule moved_calm)
  have order: "in_order recs (moved t p oper ?ws) C ix"
    using calm I(3) by (rule calm_in_order) (use t in \<open>auto simp: moved_pos split: if_splits\<close>)
  have "p \<noteq> Waiting"
    using op_step_course(1) [OF step] by auto
  then have waits: "waits recs (moved t p oper ?ws) ix"
    by (intro calm_waits [OF calm I(4)]) (use t(1) in \<open>simp add: moved_pos split: if_splits\<close>)
  have "adders ?ws < live ?h + removers ?ws" if "pos_of ?ws t = Del_Count"
  proof -
    have "?ws ! t \<in> set ?ws"
      using t(1) by simp
    then have "0 < removers ?ws"
      using that unfolding removers_def by (metis filter_empty_conv length_greater_0_conv removed.simps(3))
    then show ?thesis
      using adders_live [OF I(1,3,10,7,8) fits] by simp
  qed
  note counts = counts_moved [OF I(7) fit loc I(9) t step this]
  have tab: "tab_ok h'"
    by (rule op_step_tab_ok [OF I(7) fit loc step])
  have w: "workers ((set_pos t p (set_op t oper s))\<lparr>htable := h'\<rparr>) = moved t p oper ?ws"
    using workers_moved [OF t(1)] by simp
  have rest: "being_processed ((set_pos t p (set_op t oper s))\<lparr>htable := h'\<rparr>) = being_processed s"
    "input ((set_pos t p (set_op t oper s))\<lparr>htable := h'\<rparr>) = input s"
    "htable ((set_pos t p (set_op t oper s))\<lparr>htable := h'\<rparr>) = h'"
    by (simp_all add: set_pos_def set_op_def)
  show ?thesis
    unfolding par_inv_def w rest
    using calm_queue [OF calm] I(1,2,5,6) order waits tab counts
      locals_moved [OF I(7) room fits I(8) t alone step]
      contents_moved [OF I(1,3,10,7) fit loc t step]
      results_moved [OF I(1,3,10,11,7) fit loc t step]
      valued_moved [OF I(1,3,8,12,7) fit t step]
    by simp
qed

end
