(* ===== verification/Parallel_Cost.thy ===== *)
theory Parallel_Cost
  imports Parallel_Operation
begin

text \<open>
  A bound on the steps of the threads that are left: what an operation has before it, and what a
  record has before it until it is done.
\<close>

section \<open>The steps of an operation that are left\<close>

text \<open>How far the slot \<open>c\<close> is from the first slot of a search.\<close>

definition dist :: "u32 \<Rightarrow> u64 \<Rightarrow> u32 \<Rightarrow> nat" where
  "dist sz k c = (unat c + unat sz - unat (hashfunc k sz)) mod unat sz"

fun work :: "u32 \<Rightarrow> u64 \<Rightarrow> pos \<Rightarrow> nat" where
  "work sz k (Probe_Key c) = 3 * (unat sz - dist sz k c) + 6"
| "work sz k (Probe_Id c) = 3 * (unat sz - dist sz k c) + 5"
| "work sz k (Probe_Cmp c) = 3 * (unat sz - dist sz k c) + 4"
| "work sz k (Get_Key c) = 3" | "work sz k (Get_Len c) = 2" | "work sz k (Get_Data c) = 1"
| "work sz k (Del_Lock c) = 6" | "work sz k (Del_Id c) = 5" | "work sz k (Del_Key c) = 4"
| "work sz k (Del_Len c) = 3" | "work sz k (Del_Data c) = 2" | "work sz k Del_Count = 1"
| "work sz k Put_Assert = unat sz + 6"
| "work sz k (Put_Probe c) = unat sz - dist sz k c + 5"
| "work sz k (Upd_Id c) = 3" | "work sz k (Upd_Len c) = 2" | "work sz k (Upd_Data c) = 1"
| "work sz k (New_Id c) = 5" | "work sz k (New_Len c) = 4" | "work sz k (New_Key c) = 3"
| "work sz k (New_Data c) = 2" | "work sz k New_Count = 1"
| "work sz k p = 0"

lemma dist_slot:
  assumes "0 < slots h" "d < slots h" "unat c = slot (slots h) (home h k) d"
  shows "dist (table_size h) k c = d"
proof -
  let ?n = "slots h" and ?s = "home h k"
  have s: "?s < ?n"
    using home_less [OF assms(1)] .
  have "dist (table_size h) k c = ((?s + d) mod ?n + ?n - ?s) mod ?n"
    using assms(3) by (simp add: dist_def slot_def home_def)
  also have "\<dots> = d"
  proof (cases "?s + d < ?n")
    case False
    then have "(?s + d) mod ?n = ?s + d - ?n"
      using s assms(2) by (simp add: mod_if)
    then show ?thesis
      using False assms(2) by simp
  qed (use assms(2) in simp)
  finally show ?thesis .
qed

lemma dist_start: "0 < slots h \<Longrightarrow> dist (table_size h) (op_key oper) (hash_of oper h) = 0"
  by (simp add: dist_def hash_of_def)

lemma dist_less: "0 < slots h \<Longrightarrow> dist (table_size h) k c < slots h"
  by (simp add: dist_def)

text \<open>The next slot of a search is farther away, as the search does not come round.\<close>

lemma dist_next:
  assumes ok: "tab_ok h" and "searched h (op_key oper) c" "occupied (table h ! unat c)"
    and "key_at h (unat c) \<noteq> op_key oper" and free: "has_room h"
  shows "dist (table_size h) (op_key oper) (next_ctr c h) = Suc (dist (table_size h) (op_key oper) c)"
    "Suc (dist (table_size h) (op_key oper) c) < slots h"
proof -
  let ?k = "op_key oper" and ?n = "slots h" and ?s = "home h (op_key oper)"
  note n = tab_okD(1) [OF ok]
  obtain d where d: "d < ?n" "unat c = slot ?n ?s d"
    and vis: "\<forall>j < d. occupied (table h ! slot ?n ?s j) \<and> key_at h (slot ?n ?s j) \<noteq> ?k"
    using assms(2) unfolding searched_def by blast
  obtain e where e: "e < ?n" "\<not> occupied (table h ! slot ?n ?s e)"
    using free slot_surj [OF home_less [OF n]] unfolding has_room_def by metis
  have "e \<noteq> d" "\<not> e < d"
    using e(2) vis assms(3) d(2) by auto
  then have d': "Suc d < ?n"
    using e(1) by simp
  have "unat (next_ctr c h) = slot ?n ?s (Suc d)"
    unfolding next_ctr_def using unat_next [of c "table_size h"] slot_Suc [of ?n ?s d] d(2)
      slot_less [OF n, of ?s d] by simp
  then show "dist (table_size h) ?k (next_ctr c h) = Suc (dist (table_size h) ?k c)"
    "Suc (dist (table_size h) ?k c) < ?n"
    using dist_slot [OF n d] dist_slot [OF n d', of "next_ctr c h" ?k] d' by simp_all
qed

lemma put_probe_steps:
  assumes "tab_ok h" "has_room h" "op_key oper \<noteq> 0" "searched h (op_key oper) c"
  shows "put_probe_step (Put_Probe c) oper h =
    (if search (op_key oper) (table h ! unat c) then Put_Probe (next_ctr c h) else put_at c oper h)"
proof (cases "search (op_key oper) (table h ! unat c)")
  case True
  then show ?thesis
    using searched_next(1) [OF assms(1,4) _ _ assms(2) [unfolded has_room_def]]
    by (simp add: search_def entry_at_def Let_def)
next
  case False
  then have "\<not> search_free (op_key oper) (table h ! unat c)"
    by (auto simp: search_def search_free_def occupied_def)
  then show ?thesis
    using False by (simp add: entry_at_def Let_def)
qed

lemma op_step_work:
  assumes ok: "tab_ok h" "has_room h" "op_key oper \<noteq> 0" "local_ok h p oper"
    and step: "op_step free p oper h = Some (Returns (p', oper', h'))"
  shows "work (table_size h) (op_key oper) p' < work (table_size h) (op_key oper) p"
proof -
  note n = tab_okD(1) [OF ok(1)]
  have rem: "0 < slots h - dist (table_size h) (op_key oper) c" for c
    using dist_less [OF n, of "op_key oper" c] by simp
  have closer: "slots h - dist (table_size h) (op_key oper) (next_ctr c h) + 1 = slots h - dist (table_size h) (op_key oper) c"
    if "searched h (op_key oper) c" "occupied (table h ! unat c)" "key_at h (unat c) \<noteq> op_key oper" for c
    using dist_next [OF ok(1) that ok(2)] by simp
  show ?thesis
  proof (cases p)
    case (Probe_Cmp c)
    then have S: "searched h (op_key oper) c" "occupied (table h ! unat c)"
      using ok(4) by auto
    have "p' = probe_step (Probe_Cmp c) oper h"
      using step Probe_Cmp by (auto simp: loads_def simp del: probe_step.simps)
    then show ?thesis
      using closer [OF S] rem [of c] Probe_Cmp
      by (auto simp: behind_probe_def entry_at_def)
  next
    case (Probe_Id c)
    then show ?thesis
      using step rem [of c] by (auto simp: step_defs behind_probe_def split: if_splits)
  next
    case (Put_Probe c)
    then have S: "searched h (op_key oper) c"
      using ok(4) by auto
    have "p' = put_probe_step (Put_Probe c) oper h"
      using step Put_Probe by (auto simp: loads_def simp del: put_probe_step.simps split: if_splits)
    then have p': "p' = (if search (op_key oper) (table h ! unat c) then Put_Probe (next_ctr c h) else put_at c oper h)"
      using put_probe_steps [OF ok(1-3) S] by simp
    show ?thesis
      using p' closer [OF S] rem [of c] Put_Probe
      by (auto simp: search_def occupied_def put_at_def)
  qed (use step n rem dist_start [OF n, of oper] ok(4) in \<open>auto simp: step_defs behind_probe_def split: if_splits\<close>)
qed

section \<open>The steps of all threads that are left\<close>

definition turn :: "u32 \<Rightarrow> nat" where
  "turn sz = 3 * unat sz + 10"

text \<open>
  The end of an operation may wake all the others, who then look again whether it is their turn;
  so an operation that is under way has as many steps more before it as there are threads, and
  the line that is written behind it.
\<close>

definition cost :: "u32 \<Rightarrow> nat \<Rightarrow> worker \<Rightarrow> nat" where
  "cost sz m w =
     (case wpos w of
        Exited \<Rightarrow> 0
      | Ready \<Rightarrow> 1
      | Log_Line r \<Rightarrow> 2
      | Waiting \<Rightarrow> m + turn sz
      | Woken \<Rightarrow> m + turn sz + 1
      | p \<Rightarrow> m + 3 + work sz (op_key (wop w)) p)"

definition steps_left :: "input_rec list \<Rightarrow> nat \<Rightarrow> par_state \<Rightarrow> nat" where
  "steps_left recs n s =
     (let sz = table_size (htable s); m = length (workers s) in
      (length recs - n) * (m + turn sz) + sum_list (List.map (cost sz m) (workers s)))"

lemma cost_running: "running (wpos w) \<or> ended (wpos w) \<Longrightarrow> cost sz m w = m + 3 + work sz (op_key (wop w)) (wpos w)"
  by (cases "wpos w") (simp_all add: cost_def)

lemma cost_at:
  "wpos w = Exited \<Longrightarrow> cost sz m w = 0" "wpos w = Ready \<Longrightarrow> cost sz m w = 1"
  "wpos w = Log_Line r \<Longrightarrow> cost sz m w = 2"
  "wpos w = Waiting \<Longrightarrow> cost sz m w = m + turn sz" "wpos w = Woken \<Longrightarrow> cost sz m w = m + turn sz + 1"
  by (simp_all add: cost_def)

lemma cost_moved:
  assumes "t < length ws"
  shows "sum_list (List.map (cost sz m) (moved t p oper ws)) + cost sz m (ws ! t) =
    sum_list (List.map (cost sz m) ws) + cost sz m ((ws ! t)\<lparr>wop := oper, wpos := p\<rparr>)"
proof -
  have "cost sz m (ws ! t) \<le> sum_list (List.map (cost sz m) ws)"
    using assms by (intro member_le_sum_list) simp_all
  then show ?thesis
    using assms by (simp add: moved_def map_update sum_list_update)
qed

lemma cost_wake: "sum_list (List.map (cost sz m) (List.map wake ws)) \<le> sum_list (List.map (cost sz m) ws) + length ws"
proof (induction ws)
  case (Cons w ws)
  have "cost sz m (wake w) \<le> cost sz m w + 1"
    by (simp add: wake_def cost_def)
  then show ?case
    using Cons by simp
qed simp

lemma start_work:
  assumes "start_op oper h = Returns p" "0 < slots h"
  shows "work (table_size h) (op_key oper) p + 3 < turn (table_size h) \<and> running p"
  using assms dist_start [OF assms(2), of oper] by (auto simp: start_op_def turn_def split: if_splits)

end
