(* ===== verification/Parallel_Queue.thy ===== *)
theory Parallel_Queue
  imports Parallel_Cost
begin

text \<open>
  The critical sections of \<open>read_op\<close> and \<open>done_one\<close>: waiting for the turn, reading a record, the
  end of the file, the end of an operation. Every step of every thread keeps the invariant.
\<close>

section \<open>Waiting for the turn\<close>

lemma rec_id_less:
  assumes "recs_ok recs" "i < length recs" "j < length recs"
  shows "rec_id (recs ! i) < rec_id (recs ! j) \<longleftrightarrow> i < j"
proof -
  have less: "rec_id (recs ! a) < rec_id (recs ! b)" if "a < b" "b < length recs" for a b
    using sorted_wrt_nth_less [of "(<)" "List.map rec_id recs" a b] assms(1) that by (simp add: recs_ok_def)
  then show ?thesis
    using less [of i j] less [of j i] assms(2,3) by (metis less_imp_not_less linorder_neqE_nat order_less_irrefl)
qed

lemma blocked_iff:
  assumes "recs_ok recs" "assigned recs (workers s) n C ix" "registered (workers s) (being_processed s)"
    and t: "t < length (workers s)" "active (pos_of (workers s) t)"
  shows "blocked s t \<longleftrightarrow> (\<exists>u < length (workers s). active (pos_of (workers s) u) \<and> ix u < ix t
    \<and> rec_key (recs ! ix u) = rec_key (recs ! ix t))"
proof -
  let ?ws = "workers s"
  note A = assignedD(3) [OF assms(2)] and n = assignedD(1) [OF assms(2)]
  have other: "op_key (wop (?ws ! t)) = op_key (wop (?ws ! u)) \<and> op_id (wop (?ws ! t)) > op_id (wop (?ws ! u))
      \<longleftrightarrow> ix u < ix t \<and> rec_key (recs ! ix u) = rec_key (recs ! ix t)"
    if u: "u < length ?ws" "active (pos_of ?ws u)" for u
    using A [OF t] A [OF u] rec_id_less [OF assms(1), of "ix u" "ix t"] n by (auto simp: op_is_def)
  have reg: "being_processed s ! u = (if u < length ?ws \<and> active (pos_of ?ws u) then Some u else None)"
    if "u < THREADS" for u
    using assms(3) that unfolding registered_def by blast
  have le: "length ?ws \<le> THREADS"
    using assms(3) unfolding registered_def by blast
  have "blocked s t \<longleftrightarrow> (\<exists>u < THREADS. u \<noteq> t \<and> u < length ?ws \<and> active (pos_of ?ws u)
      \<and> op_key (wop (?ws ! t)) = op_key (wop (?ws ! u)) \<and> op_id (wop (?ws ! t)) > op_id (wop (?ws ! u)))"
    unfolding blocked_def Let_def list_ex_iff set_upt using reg
    by (auto split: option.splits if_splits)
  also have "\<dots> \<longleftrightarrow> (\<exists>u < length ?ws. active (pos_of ?ws u) \<and> ix u < ix t
      \<and> rec_key (recs ! ix u) = rec_key (recs ! ix t))"
  proof
    assume "\<exists>u < length ?ws. active (pos_of ?ws u) \<and> ix u < ix t \<and> rec_key (recs ! ix u) = rec_key (recs ! ix t)"
    then obtain u where u: "u < length ?ws" "active (pos_of ?ws u)" "ix u < ix t"
      "rec_key (recs ! ix u) = rec_key (recs ! ix t)"
      by blast
    moreover have "u \<noteq> t" "u < THREADS"
      using u(1,3) le by auto
    ultimately show "\<exists>u < THREADS. u \<noteq> t \<and> u < length ?ws \<and> active (pos_of ?ws u)
      \<and> op_key (wop (?ws ! t)) = op_key (wop (?ws ! u)) \<and> op_id (wop (?ws ! t)) > op_id (wop (?ws ! u))"
      using other [OF u(1,2)] by blast
  qed (use other in blast)
  finally show ?thesis .
qed

text \<open>Steps that leave the table as it is keep the values.\<close>

lemma written_free: "holds p = None \<Longrightarrow> written h p oper"
  by (cases p) simp_all

lemma valued_keep:
  assumes "valued b recs ws C ix h" "length ws' = length ws" "effects ws' C' ix' = effects ws C ix"
    and "\<And>t. t < length ws \<Longrightarrow> half_written (pos_of ws' t) = half_written (pos_of ws t)"
    and "\<And>t. t < length ws \<Longrightarrow> active (pos_of ws' t) \<Longrightarrow>
      loaded b recs (ix' t) (wop (ws' ! t)) \<and> written h (pos_of ws' t) (wop (ws' ! t))
      \<and> found b recs (ix' t) (pos_of ws' t) (wop (ws' ! t))"
  shows "valued b recs ws' C' ix' h"
  using assms(1) unfolding valued_def assms(2,3) by (simp add: assms(4,5) cong: conj_cong)

text \<open>Moves to a position where the thread holds no lock and has done nothing to the table.\<close>

lemma table_moved:
  assumes "t < length ws" "local_ok h p oper" "holds p = None" "\<not> effected p" "\<not> deleting p"
    and "\<not> effected (pos_of ws t)"
  shows "locals ws h \<Longrightarrow> locals (moved t p oper ws) h"
    and "contents recs ws C ix h \<Longrightarrow> contents recs (moved t p oper ws) C ix h"
    and "results recs ws ix \<Longrightarrow> results recs (moved t p oper ws) ix"
    and "counts recs ws n h \<Longrightarrow> length (filter is_put (drop m recs)) + putters (moved t p oper ws)
        \<le> length (filter is_put (drop n recs)) + putters ws \<Longrightarrow> counts recs (moved t p oper ws) m h"
    and "valued b recs ws C ix h \<Longrightarrow> holds (pos_of ws t) = None \<Longrightarrow>
        active p \<longrightarrow> loaded b recs (ix t) oper \<and> found b recs (ix t) p oper \<Longrightarrow>
        valued b recs (moved t p oper ws) C ix h"
proof -
  let ?ws = "moved t p oper ws"
  show "locals ws h \<Longrightarrow> locals ?ws h"
    unfolding locals_def moved_sel(1) using assms(1-3) by (auto simp: moved_pos moved_wop split: if_splits)
  have effects: "effects ?ws C ix = effects ws C ix"
    using effects_moved [OF assms(1)] assms(4,6) by simp
  then show "contents recs ws C ix h \<Longrightarrow> contents recs ?ws C ix h"
    by (simp add: contents_def)
  have "p \<noteq> Op_Done r" for r
    using assms(4) by (auto simp: effected_def)
  then show "results recs ws ix \<Longrightarrow> results recs ?ws ix"
    unfolding results_def moved_sel(1) using assms(1,5) by (auto simp: moved_pos)
  have "adders ?ws = adders ws" "removers ?ws = removers ws"
    using moved_filter [OF assms(1), of "\<lambda>w. added (wpos w)"]
      moved_filter [OF assms(1), of "\<lambda>w. removed (wpos w)"] assms(4,6)
    by (auto simp: adders_def removers_def effected_def split: if_splits)
  then show "counts recs ws n h \<Longrightarrow> length (filter is_put (drop m recs)) + putters ?ws
        \<le> length (filter is_put (drop n recs)) + putters ws \<Longrightarrow> counts recs ?ws m h"
    unfolding counts_def by linarith
  have free: "half_written q = None" if "holds q = None" for q
    using half_written_holds [of q] that by (cases "half_written q") auto
  show "valued b recs ?ws C ix h"
    if valued: "valued b recs ws C ix h" "holds (pos_of ws t) = None"
      "active p \<longrightarrow> loaded b recs (ix t) oper \<and> found b recs (ix t) p oper"
  proof (rule valued_keep [OF valued(1) moved_sel(1) effects])
    fix u
    assume u: "u < length ws"
    show "half_written (pos_of ?ws u) = half_written (pos_of ws u)"
      using free assms(1,3) valued(2) by (simp add: moved_pos)
    assume "active (pos_of ?ws u)"
    then show "loaded b recs (ix u) (wop (?ws ! u)) \<and> written h (pos_of ?ws u) (wop (?ws ! u))
        \<and> found b recs (ix u) (pos_of ?ws u) (wop (?ws ! u))"
      using valued(1,3) u assms(1) written_free [OF assms(3)] unfolding valued_def
      by (cases "u = t") (simp_all add: moved_sel)
  qed
qed

lemma same_wop: "w\<lparr>wop := wop w, wpos := p\<rparr> = w\<lparr>wpos := p\<rparr>"
  by (cases w) simp

lemma set_pos_sel:
  "workers (set_pos t p s) = moved t p (wop (workers s ! t)) (workers s)"
  "being_processed (set_pos t p s) = being_processed s" "input (set_pos t p s) = input s"
  "htable (set_pos t p s) = htable s"
proof -
  show "workers (set_pos t p s) = moved t p (wop (workers s ! t)) (workers s)"
    by (simp add: set_pos_def moved_def same_wop)
qed (simp_all add: set_pos_def)

lemma start_op_starts:
  assumes "tab_ok h" "op_is r oper"
  obtains p where "start_op oper h = Returns p" "running p" "local_ok h p oper" "holds p = None"
    and "\<not> effected p" "\<not> deleting p" "\<And>b recs j. found b recs j p oper"
proof -
  have "table_size h \<noteq> 0"
    using tab_okD(1) [OF assms(1)] by auto
  then show thesis
    using rec_types [of r] assms searched_start [OF assms(1), of oper]
    by (intro that [of "if op_type oper = PUT then Put_Assert else Probe_Key (hash_of oper h)"])
      (auto simp: start_op_def op_is_def effected_def)
qed

lemma scan_inv:
  assumes recs: "recs_ok recs" and inv: "par_inv recs pad s n C ix"
    and t: "t < length (workers s)" "pos_of (workers s) t = Woken"
  shows "\<exists>p. scan t s = Returns (set_pos t p s) \<and> par_inv recs pad (set_pos t p s) n C ix
    \<and> (p = Waiting \<or> start_op (wop (workers s ! t)) (htable s) = Returns p)"
proof -
  let ?ws = "workers s" and ?h = "htable s"
  let ?oper = "wop (?ws ! t)"
  note I = par_invD [OF inv]
  have act: "active (pos_of ?ws t)"
    by (simp add: t(2))
  have eff: "\<not> effected (pos_of ?ws t)"
    by (simp add: t(2) effected_def)
  note A = assignedD(3) [OF I(1) t(1) act]
  have load: "loaded (base (input s)) recs (ix t) ?oper"
    using I(12) t(1) act unfolding valued_def by blast
  note blocked = blocked_iff [OF recs I(1,2) t(1) act]
  have moved: "par_inv recs pad (set_pos t p s) n C ix"
    if "active p" "local_ok ?h p ?oper" "holds p = None" "\<not> effected p" "\<not> deleting p"
      "putting p \<or> op_type ?oper \<noteq> PUT" "blocked s t \<longleftrightarrow> p = Waiting"
      "found (base (input s)) recs (ix t) p ?oper" for p
  proof -
    let ?ws' = "moved t p ?oper ?ws"
    have calm: "calm ?ws ?ws'"
      using t(1) act that(1) by (rule moved_calm) (simp add: same_op_def)
    have "\<forall>j < ix t. rec_key (recs ! j) = rec_key (recs ! ix t) \<longrightarrow> j \<in> C" if "running p \<or> ended p"
    proof (intro allI impI)
      fix j
      have "p \<noteq> Waiting"
        using that by auto
      assume "j < ix t" "rec_key (recs ! j) = rec_key (recs ! ix t)"
      moreover from this have "j < n"
        using A by simp
      ultimately show "j \<in> C"
        using assignedD(5) [OF I(1), of j] blocked \<open>blocked s t \<longleftrightarrow> p = Waiting\<close> \<open>p \<noteq> Waiting\<close> by blast
    qed
    then have order: "in_order recs ?ws' C ix"
      by (intro calm_in_order [OF calm I(3)]) (auto simp: moved_pos t(1) split: if_splits)
    have waits: "waits recs ?ws' ix"
      using calm I(4) by (rule calm_waits)
        (use blocked that(7) t(1) in \<open>auto simp: moved_pos split: if_splits\<close>)
    have "putters ?ws' \<le> putters ?ws"
      using moved_filter [OF t(1), of "\<lambda>w. op_type (wop w) = PUT \<and> putting (wpos w)" p ?oper] t(2)
      by (simp add: putters_def split: if_splits)
    then have "counts recs ?ws' n ?h"
      using I(9) by (intro table_moved(4) [OF t(1) that(2-5) eff, where n = n]) simp_all
    moreover have "valued (base (input s)) recs ?ws' C ix ?h"
      using load t(2) that(8) by (intro table_moved(5) [OF t(1) that(2-5) eff I(12)]) simp_all
    ultimately show ?thesis
      unfolding par_inv_def set_pos_sel calm_queue(4) [OF calm]
      by (intro conjI order waits calm_queue(1-3) [OF calm] table_moved(1-3) [OF t(1) that(2-5) eff] I)
  qed
  show ?thesis
  proof (cases "blocked s t")
    case True
    then have "par_inv recs pad (set_pos t Waiting s) n C ix"
      by (intro moved) (simp_all add: effected_def)
    then show ?thesis
      using True by (auto simp: scan_def)
  next
    case False
    obtain p where p: "start_op ?oper ?h = Returns p" "running p" "local_ok ?h p ?oper" "holds p = None"
      "\<not> effected p" "\<not> deleting p" "found (base (input s)) recs (ix t) p ?oper"
      by (rule start_op_starts [OF I(7) conjunct2 [OF conjunct2 [OF A]]]) (rule that)
    have "par_inv recs pad (set_pos t p s) n C ix"
      using p False A rec_types [of "recs ! ix t"] running_active(1) [OF p(2)]
      by (intro moved) (auto simp: start_op_def op_is_def split: if_splits)
    then show ?thesis
      using False p(1) by (auto simp: scan_def)
  qed
qed

section \<open>Reading the next operation\<close>

lemma moved_lines:
  assumes "t < length ws" "pending p oper = []" "pending (pos_of ws t) (wop (ws ! t)) = []"
  shows "List.map lines_of (moved t p oper ws) = List.map lines_of ws"
proof -
  have "lines_of ((ws ! t)\<lparr>wop := oper, wpos := p\<rparr>) = List.map lines_of ws ! t"
    using assms by (simp add: lines_of_def)
  then show ?thesis
    by (simp only: moved_def map_update list_update_id)
qed

lemma adv_assigned:
  assumes "assigned recs ws n C ix" "t < length ws" "pos_of ws t = Ready" "n < length recs"
    and "op_is (recs ! n) oper"
  shows "assigned recs (moved t Woken oper ws) (Suc n) C (ix(t := n))"
proof -
  let ?ws = "moved t Woken oper ws" and ?ix = "ix(t := n)"
  have W: "active Woken" "\<not> active (pos_of ws t)"
    by (simp_all add: assms(3))
  have act: "active (pos_of ?ws u) \<longleftrightarrow> u = t \<or> active (pos_of ws u)" for u
    using W by (simp add: moved_pos assms(2))
  note D = assignedD [OF assms(1)]
  show ?thesis
    unfolding assigned_def moved_sel(1)
  proof (intro conjI allI impI)
    show "Suc n \<le> length recs" "C \<subseteq> {..<Suc n}"
      using assms(4) D(2) by auto
    fix u
    assume u: "u < length ws"
    {
      assume a: "active (pos_of ?ws u)"
      have "n \<notin> C"
        using D(2) by auto
      then show "?ix u < Suc n" "?ix u \<notin> C" "op_is (recs ! ?ix u) (wop (?ws ! u))"
        using D(3) [OF u] a act [of u] assms(2,5) by (auto simp: moved_wop)
    }
    fix v
    assume v: "v < length ws" and uv: "active (pos_of ?ws u) \<and> active (pos_of ?ws v) \<and> ?ix u = ?ix v"
    then show "u = v"
      using D(3) [OF u] D(3) [OF v] D(4) [OF u v] act by (cases "u = t"; cases "v = t") auto
  next
    fix j
    assume "j < Suc n"
    then show "j \<in> C \<or> (\<exists>u < length ws. active (pos_of ?ws u) \<and> ?ix u = j)"
      using D(5) [of j] act assms(2) W by (cases "j = n") (auto, metis)
  qed
qed

lemma read_inv:
  assumes recs: "recs_ok recs" and inv: "par_inv recs pad s n C ix"
    and t: "t < length (workers s)" "pos_of (workers s) t = Ready" and n: "n < length recs" and "24 \<le> pad"
  shows "\<exists>oper inp. read_op (input s) (wop (workers s ! t)) = Returns (0, oper, inp)
    \<and> par_inv recs pad (set_pos t Woken ((set_op t oper s)\<lparr>input := inp,
        being_processed := (being_processed s)[t := Some t]\<rparr>)) (Suc n) C (ix(t := n))"
proof -
  let ?ws = "workers s" and ?h = "htable s"
  note I = par_invD [OF inv]
  have "exited ?ws = 0"
    using I(6) n by (auto simp: input_at_def)
  then obtain oper inp where read: "read_op (input s) (wop (?ws ! t)) = Returns (0, oper, inp)"
    and oi: "op_is (recs ! n) oper" and inp: "input_at recs pad (Suc n) 0 inp"
    and load: "loaded (base (input s)) recs n oper" "base inp = base (input s)"
    using read_record [of recs pad n "input s"] I(6) n assms(6) by metis
  let ?s = "set_pos t Woken ((set_op t oper s)\<lparr>input := inp, being_processed := (being_processed s)[t := Some t]\<rparr>)"
  let ?ws' = "moved t Woken oper ?ws" and ?ix = "ix(t := n)"
  have sel: "workers ?s = ?ws'" "input ?s = inp" "being_processed ?s = (being_processed s)[t := Some t]"
    "htable ?s = ?h"
    using t(1) by (simp_all add: set_pos_def set_op_def moved_def)
  have eff: "\<not> effected (pos_of ?ws t)" "\<not> active (pos_of ?ws t)"
    by (simp_all add: t(2) effected_def)
  have old: "ix u = ?ix u" if "active (pos_of ?ws u)" for u
    using that eff by auto
  have assigned: "assigned recs ?ws' (Suc n) C ?ix"
    by (rule adv_assigned [OF I(1) t n oi])
  have registered: "registered ?ws' ((being_processed s)[t := Some t])"
    using I(2) t(1) unfolding registered_def
    by (auto simp: moved_sel(1) moved_pos nth_list_update)
  have order: "in_order recs ?ws' C ?ix"
    unfolding in_order_def moved_sel(1)
  proof (intro conjI allI impI ballI)
    show "j \<in> C" if "i \<in> C" "j < i" "rec_key (recs ! j) = rec_key (recs ! i)" for i j
      by (rule in_orderD(2) [OF I(3) that])
    show "j \<in> C" if "u < length ?ws" "running (pos_of ?ws' u) \<or> ended (pos_of ?ws' u)" "j < ?ix u"
      "rec_key (recs ! j) = rec_key (recs ! ?ix u)" for u j
    proof -
      have u: "u \<noteq> t" "running (pos_of ?ws u) \<or> ended (pos_of ?ws u)"
        using that(2) t(1) by (auto simp: moved_pos split: if_splits)
      then show ?thesis
        using in_orderD(1) [OF I(3) that(1) u(2)] that(3,4) by simp
    qed
  qed
  have waits: "waits recs ?ws' ?ix"
    unfolding waits_def moved_sel(1)
  proof (intro allI impI)
    fix u
    assume u: "u < length ?ws" "pos_of ?ws' u = Waiting"
    then have "u \<noteq> t" "pos_of ?ws u = Waiting"
      using t(1) by (auto simp: moved_pos split: if_splits)
    then obtain v where v: "v < length ?ws" "active (pos_of ?ws v)" "ix v < ix u"
      "rec_key (recs ! ix v) = rec_key (recs ! ix u)"
      using I(4) u(1) unfolding waits_def by blast
    then have "v \<noteq> t"
      using eff by auto
    with v \<open>u \<noteq> t\<close> t(1) show "\<exists>v < length ?ws. active (pos_of ?ws' v) \<and> ?ix v < ?ix u
        \<and> rec_key (recs ! ?ix v) = rec_key (recs ! ?ix u)"
      by (intro exI [of _ v]) (simp add: moved_pos)
  qed
  have "List.map lines_of ?ws' = List.map lines_of ?ws"
    using t by (intro moved_lines) simp_all
  then have logged: "logged recs ?ws' C"
    using I(5) by (simp add: logged_def)
  have exited: "exited ?ws' = 0"
    using moved_filter [OF t(1), of "\<lambda>w. wpos w = Exited" Woken oper] \<open>exited ?ws = 0\<close> t(2)
    by (simp add: exited_def)
  have W: "local_ok ?h Woken oper" "holds Woken = None" "\<not> effected Woken" "\<not> deleting Woken"
    by (simp_all add: effected_def)
  note table = table_moved [OF t(1) W eff(1)]
  have effects: "effects ?ws C ?ix = effects ?ws C ix"
    using old effected_running running_active unfolding effects_def by (metis (mono_tags, lifting))
  then have contents: "contents recs ?ws C ?ix ?h"
    using I(10) by (simp add: contents_def)
  have "valued (base inp) recs ?ws C ?ix ?h"
    by (rule valued_keep [OF I(12) _ effects, folded load(2)])
      (use I(12) old in \<open>auto simp: valued_def load(2) simp del: fun_upd_apply\<close>)
  then have valued: "valued (base inp) recs ?ws' C ?ix ?h"
    using load t(2) by (intro table(5)) simp_all
  have results: "results recs ?ws ?ix"
    unfolding results_def
  proof (intro allI impI)
    fix u
    assume "u < length ?ws"
    then have "(\<forall>r. pos_of ?ws u = Op_Done r \<longrightarrow> r = result_at recs (ix u))
        \<and> (deleting (pos_of ?ws u) \<longrightarrow> result_at recs (ix u) = 0)"
      using I(11) unfolding results_def by blast
    then show "(\<forall>r. pos_of ?ws u = Op_Done r \<longrightarrow> r = result_at recs (?ix u))
        \<and> (deleting (pos_of ?ws u) \<longrightarrow> result_at recs (?ix u) = 0)"
      using old [of u] by (cases "pos_of ?ws u") (simp_all del: fun_upd_apply)
  qed
  have "length (filter is_put (drop n recs)) =
      (if rec_type (recs ! n) = PUT then 1 else 0) + length (filter is_put (drop (Suc n) recs))"
    by (subst Cons_nth_drop_Suc [OF n, symmetric]) (simp add: is_put_def)
  then have "length (filter is_put (drop (Suc n) recs)) + putters ?ws'
      \<le> length (filter is_put (drop n recs)) + putters ?ws"
    using moved_filter [OF t(1), of "\<lambda>w. op_type (wop w) = PUT \<and> putting (wpos w)" Woken oper] t(2)
      oi
    by (auto simp: putters_def op_is_def split: if_splits)
  then have "counts recs ?ws' (Suc n) ?h"
    by (rule table(4) [OF I(9)])
  then have "par_inv recs pad ?s (Suc n) C ?ix"
    unfolding par_inv_def sel exited
    by (intro conjI assigned registered order waits logged inp I(7) table(1) [OF I(8)]
        table(2) [OF contents] table(3) [OF results] valued)
  with read show ?thesis
    by blast
qed

lemma exit_inv:
  assumes inv: "par_inv recs pad s n C ix" and t: "t < length (workers s)" "pos_of (workers s) t = Ready"
    and n: "n = length recs" and pad: "24 * length (workers s) \<le> pad"
  shows "\<exists>oper inp. read_op (input s) (wop (workers s ! t)) = Returns (- 1, oper, inp)
    \<and> par_inv recs pad (set_pos t Exited ((set_op t oper s)\<lparr>input := inp\<rparr>)) n C ix"
proof -
  let ?ws = "workers s" and ?h = "htable s"
  note I = par_invD [OF inv]
  have "?ws ! t \<in> set ?ws" "wpos (?ws ! t) \<noteq> Exited"
    using t by simp_all
  then have "exited ?ws < length ?ws"
    unfolding exited_def by (rule length_filter_less)
  then have "24 * Suc (exited ?ws) \<le> pad"
    using pad by simp
  from read_end [OF I(6) n this] obtain oper inp where
    read: "read_op (input s) (wop (?ws ! t)) = Returns (- 1, oper, inp)"
    and inp: "input_at recs pad n (Suc (exited ?ws)) inp" "base inp = base (input s)"
    by blast
  let ?s = "set_pos t Exited ((set_op t oper s)\<lparr>input := inp\<rparr>)"
  let ?ws' = "moved t Exited oper ?ws"
  have sel: "workers ?s = ?ws'" "input ?s = inp" "being_processed ?s = being_processed s"
    "htable ?s = ?h"
    using t(1) by (simp_all add: set_pos_def set_op_def moved_def)
  have E: "local_ok ?h Exited oper" "holds Exited = None" "\<not> effected Exited" "\<not> deleting Exited"
    "\<not> active Exited" "\<not> active (pos_of ?ws t)" "\<not> effected (pos_of ?ws t)"
    by (simp_all add: t(2) effected_def)
  have act: "active (pos_of ?ws' u) \<longleftrightarrow> active (pos_of ?ws u)" for u
    using E t(1) by (simp add: moved_pos)
  have oper: "wop (?ws' ! u) = wop (?ws ! u)" if "active (pos_of ?ws u)" for u
    using that E t(1) by (auto simp: moved_wop)
  have assigned: "assigned recs ?ws' n C ix"
    using I(1) oper unfolding assigned_def moved_sel(1) act by auto
  have registered: "registered ?ws' (being_processed s)"
    using I(2) unfolding registered_def moved_sel(1) act .
  have order: "in_order recs ?ws' C ix"
    using I(3) t(1) unfolding in_order_def moved_sel(1) by (auto simp: moved_pos split: if_splits)
  have waits: "waits recs ?ws' ix"
    using I(4) t(1) unfolding waits_def moved_sel(1) act by (auto simp: moved_pos split: if_splits)
  have "List.map lines_of ?ws' = List.map lines_of ?ws"
    using t by (intro moved_lines) simp_all
  then have logged: "logged recs ?ws' C"
    using I(5) by (simp add: logged_def)
  have exited: "exited ?ws' = Suc (exited ?ws)"
    using moved_filter [OF t(1), of "\<lambda>w. wpos w = Exited" Exited oper] t(2) by (simp add: exited_def)
  note table = table_moved [OF t(1) E(1-4,7)]
  have "putters ?ws' \<le> putters ?ws"
    using moved_filter [OF t(1), of "\<lambda>w. op_type (wop w) = PUT \<and> putting (wpos w)" Exited oper] t(2)
    by (simp add: putters_def)
  then have counts: "counts recs ?ws' n ?h"
    by (intro table(4) [OF I(9)]) simp
  have valued: "valued (base inp) recs ?ws' C ix ?h"
    unfolding inp(2) using E(5) t(2) by (intro table(5) [OF I(12)]) simp_all
  have "par_inv recs pad ?s n C ix"
    unfolding par_inv_def sel exited
    by (intro conjI assigned registered order waits logged inp(1) I(7) counts table(1) [OF I(8)]
        table(2) [OF I(10)] table(3) [OF I(11)] valued)
  with read show ?thesis
    by blast
qed

section \<open>Finishing an operation\<close>

lemma mset_concat_update:
  "t < length xss \<Longrightarrow> mset (concat (xss[t := xss ! t @ [x]])) = add_mset x (mset (concat xss))"
proof (induction xss arbitrary: t)
  case (Cons xs xss)
  then show ?case
    by (cases t) simp_all
qed simp

lemma done_inv:
  assumes inv: "par_inv recs pad s n C ix" and t: "t < length (workers s)" "pos_of (workers s) t = Op_Done r"
  shows "par_inv recs pad (set_pos t (Log_Line r) (done_one t s)) n (insert (ix t) C) ix"
proof -
  let ?ws = "workers s" and ?h = "htable s" and ?C = "insert (ix t) C"
  note I = par_invD [OF inv]
  define ws' where "ws' = workers (set_pos t (Log_Line r) (done_one t s))"
  have len: "length ws' = length ?ws"
    by (simp add: ws'_def set_pos_def done_one_def)
  have at: "ws' ! u = (if u = t then (?ws ! t)\<lparr>wpos := Log_Line r\<rparr> else wake (?ws ! u))"
    if "u < length ?ws" for u
    using that t by (auto simp: ws'_def set_pos_def done_one_def wake_def)
  have pos: "pos_of ws' u = (if u = t then Log_Line r else if pos_of ?ws u = Waiting then Woken else pos_of ?ws u)"
    and oper: "wop (ws' ! u) = wop (?ws ! u)" if "u < length ?ws" for u
    using at [OF that] by (simp_all add: wake_def)
  have act_t: "active (pos_of ?ws t)"
    by (simp add: t(2))
  note A = assignedD [OF I(1)] and At = assignedD(3) [OF I(1) t(1) act_t]
  have act: "active (pos_of ws' u) \<longleftrightarrow> u \<noteq> t \<and> active (pos_of ?ws u)" if "u < length ?ws" for u
    using pos [OF that] by auto
  have assigned: "assigned recs ws' n ?C ix"
    unfolding assigned_def len
  proof (intro conjI allI impI A(1))
    show "?C \<subseteq> {..<n}"
      using A(2) At by simp
    fix u
    assume u: "u < length ?ws"
    {
      assume "active (pos_of ws' u)"
      then have "u \<noteq> t" "active (pos_of ?ws u)"
        using act [OF u] by blast+
      then show "ix u < n" "ix u \<notin> ?C" "op_is (recs ! ix u) (wop (ws' ! u))"
        using A(3) [OF u] A(4) [OF u t(1) _ act_t] oper [OF u] by auto
    }
    fix v
    assume "v < length ?ws" "active (pos_of ws' u) \<and> active (pos_of ws' v) \<and> ix u = ix v"
    then show "u = v"
      using A(4) [OF u] act u by blast
  next
    fix j
    assume "j < n"
    then show "j \<in> ?C \<or> (\<exists>u < length ?ws. active (pos_of ws' u) \<and> ix u = j)"
      using A(5) [of j] act by (metis insertCI)
  qed
  have registered: "registered ws' ((being_processed s)[t := None])"
    using I(2) t(1) act unfolding registered_def len by (auto simp: nth_list_update)
  have order: "in_order recs ws' ?C ix"
    unfolding in_order_def len
  proof (intro conjI allI impI ballI)
    show "j \<in> ?C" if "u < length ?ws" "running (pos_of ws' u) \<or> ended (pos_of ws' u)" "j < ix u"
      "rec_key (recs ! j) = rec_key (recs ! ix u)" for u j
    proof -
      have "running (pos_of ?ws u) \<or> ended (pos_of ?ws u)"
        using that(2) pos [OF that(1)] by (auto split: if_splits)
      then show ?thesis
        using in_orderD(1) [OF I(3) that(1) _ that(3,4)] by blast
    qed
    show "j \<in> ?C" if "i \<in> ?C" "j < i" "rec_key (recs ! j) = rec_key (recs ! i)" for i j
      using in_orderD(1) [OF I(3) t(1), of j] in_orderD(2) [OF I(3), of i j] t(2) that by auto
  qed
  have waits: "waits recs ws' ix"
    unfolding waits_def len using pos by simp
  have "List.map lines_of ws' = (List.map lines_of ?ws)[t := List.map lines_of ?ws ! t
      @ [(op_id (wop (?ws ! t)), op_type (wop (?ws ! t)), r)]]"
    using t at len by (auto simp: list_eq_iff_nth_eq nth_list_update wake_def lines_of_def)
  moreover have "(op_id (wop (?ws ! t)), op_type (wop (?ws ! t)), r) = line_at recs (ix t)"
    using At I(11) t unfolding results_def by (simp add: line_at_def op_is_def)
  moreover have "finite C"
    using A(2) finite_subset by blast
  ultimately have logged: "logged recs ws' ?C"
    using I(5) At t(1) mset_concat_update [of t "List.map lines_of ?ws" "line_at recs (ix t)"]
    by (simp add: logged_def)
  have exited: "exited ws' = exited ?ws"
    unfolding exited_def using len pos t by (intro length_filter_pointwise) auto
  have locals: "locals ws' ?h"
    unfolding locals_def len
  proof (intro conjI allI impI)
    fix u
    assume u: "u < length ?ws"
    show "local_ok ?h (pos_of ws' u) (wop (ws' ! u))"
      using I(8) u unfolding locals_def pos [OF u] oper [OF u] by simp
    fix v c
    assume "v < length ?ws" "holds (pos_of ws' u) = Some c \<and> holds (pos_of ws' v) = Some c"
    then show "u = v"
      using I(8) u pos [OF u] pos [of v] unfolding locals_def by (auto split: if_splits)
  qed
  have "adders ws' = adders ?ws" "removers ws' = removers ?ws" "putters ws' = putters ?ws"
    unfolding adders_def removers_def putters_def using len pos oper t
    by (auto intro!: length_filter_pointwise split: if_splits)
  then have counts: "counts recs ws' n ?h"
    using I(9) by (simp add: counts_def)
  have eff: "effected (pos_of ws' u) \<longleftrightarrow> u \<noteq> t \<and> effected (pos_of ?ws u)" if "u < length ?ws" for u
    using pos [OF that] by (auto simp: effected_def)
  have "effected (pos_of ?ws t)"
    by (simp add: t(2) effected_def)
  then have effects: "effects ws' ?C ix = effects ?ws C ix"
    using eff t(1) unfolding effects_def len by auto
  have valued: "valued (base (input s)) recs ws' ?C ix ?h"
  proof (rule valued_keep [OF I(12) len effects])
    fix u
    assume u: "u < length ?ws"
    show "half_written (pos_of ws' u) = half_written (pos_of ?ws u)"
      using pos [OF u] t(2) by simp
    assume a: "active (pos_of ws' u)"
    then have "active (pos_of ?ws u)"
      using act [OF u] by blast
    then show "loaded (base (input s)) recs (ix u) (wop (ws' ! u)) \<and> written ?h (pos_of ws' u) (wop (ws' ! u))
        \<and> found (base (input s)) recs (ix u) (pos_of ws' u) (wop (ws' ! u))"
      using I(12) u pos [OF u] oper [OF u] unfolding valued_def by simp
  qed
  have contents: "contents recs ws' ?C ix ?h"
    using I(10) effects by (simp add: contents_def)
  have results: "results recs ws' ix"
    unfolding results_def len
  proof (intro allI impI)
    fix u
    assume u: "u < length ?ws"
    show "(\<forall>r. pos_of ws' u = Op_Done r \<longrightarrow> r = result_at recs (ix u))
        \<and> (deleting (pos_of ws' u) \<longrightarrow> result_at recs (ix u) = 0)"
      using I(11) u unfolding results_def pos [OF u] by simp
  qed
  have sel: "being_processed (set_pos t (Log_Line r) (done_one t s)) = (being_processed s)[t := None]"
    "input (set_pos t (Log_Line r) (done_one t s)) = input s"
    "htable (set_pos t (Log_Line r) (done_one t s)) = ?h"
    by (simp_all add: set_pos_def done_one_def)
  show ?thesis
    unfolding par_inv_def sel ws'_def [symmetric] exited
    by (intro conjI assigned registered order waits logged I(6,7) locals counts contents results valued)
qed

text \<open>
  Steps that leave the table, the queue and all operations as they are: the line is written, or a
  thread is woken.
\<close>

definition quiet :: "worker \<Rightarrow> worker \<Rightarrow> bool" where
  "quiet w w' \<longleftrightarrow> wop w' = wop w \<and> lines_of w' = lines_of w
     \<and> (wpos w' = wpos w \<or> wpos w = Waiting \<and> wpos w' = Woken
        \<or> (\<exists>r. wpos w = Log_Line r) \<and> wpos w' = Ready)"

lemma quiet_pos:
  assumes "quiet w w'"
  shows "active (wpos w') = active (wpos w)" "running (wpos w') = running (wpos w)"
    "ended (wpos w') = ended (wpos w)" "effected (wpos w') = effected (wpos w)"
    "added (wpos w') = added (wpos w)" "removed (wpos w') = removed (wpos w)"
    "putting (wpos w') = putting (wpos w)" "holds (wpos w') = holds (wpos w)"
    "deleting (wpos w') = deleting (wpos w)" "half_written (wpos w') = half_written (wpos w)"
    "wpos w' = Exited \<longleftrightarrow> wpos w = Exited" "wpos w' = Op_Done r \<longleftrightarrow> wpos w = Op_Done r"
    "wpos w' = Waiting \<Longrightarrow> wpos w = Waiting" "local_ok h (wpos w') oper = local_ok h (wpos w) oper"
    "written h (wpos w') oper = written h (wpos w) oper"
    "found b recs j (wpos w') oper = found b recs j (wpos w) oper"
  using assms unfolding quiet_def by (auto simp: effected_def)

lemma quiet_inv:
  assumes inv: "par_inv recs pad s n C ix" and len: "length ws = length (workers s)"
    and quiet: "\<And>u. u < length (workers s) \<Longrightarrow> quiet (workers s ! u) (ws ! u)"
  shows "par_inv recs pad (s\<lparr>workers := ws\<rparr>) n C ix"
proof -
  let ?ws = "workers s" and ?h = "htable s"
  note I = par_invD [OF inv] and P = quiet_pos [OF quiet]
  have oper: "wop (ws ! u) = wop (?ws ! u)" "lines_of (ws ! u) = lines_of (?ws ! u)" if "u < length ?ws" for u
    using quiet [OF that] by (simp_all add: quiet_def)
  have calm: "calm ?ws ws"
    unfolding calm_def by (simp add: len oper P(1,11) same_op_def)
  have "in_order recs ws C ix" "waits recs ws ix"
    using P(2,3,13) by (auto intro!: calm_in_order [OF calm I(3)] calm_waits [OF calm I(4)])
  moreover have "locals ws ?h"
    using I(8) unfolding locals_def len by (simp add: oper P(8,14) cong: conj_cong)
  moreover have "adders ws = adders ?ws" "removers ws = removers ?ws" "putters ws = putters ?ws"
    unfolding adders_def removers_def putters_def using len oper P(5-7)
    by (auto intro!: length_filter_pointwise)
  then have "counts recs ws n ?h"
    using I(9) by (simp add: counts_def)
  moreover have effects: "effects ws C ix = effects ?ws C ix"
    unfolding effects_def len using P(4) by auto
  then have "contents recs ws C ix ?h"
    using I(10) by (simp add: contents_def)
  moreover have "results recs ws ix"
    using I(11) unfolding results_def len by (simp add: P(9,12))
  moreover have "valued (base (input s)) recs ws C ix ?h"
    using valuedD(1) [OF I(12)] by (intro valued_keep [OF I(12) len effects]) (simp_all add: oper P(1,10,15,16))
  ultimately show ?thesis
    using calm_queue [OF calm] I by (simp add: par_inv_def)
qed

lemma log_inv:
  assumes inv: "par_inv recs pad s n C ix" and t: "t < length (workers s)" "pos_of (workers s) t = Log_Line r"
  shows "par_inv recs pad (set_pos t Ready (write_log t r s)) n C ix"
proof -
  let ?ws = "workers (set_pos t Ready (write_log t r s))"
  have "par_inv recs pad (s\<lparr>workers := ?ws\<rparr>) n C ix"
    using t by (intro quiet_inv [OF inv])
      (auto simp: quiet_def lines_of_def set_pos_def write_log_def Let_def nth_list_update)
  then show ?thesis
    by (simp add: set_pos_def write_log_def Let_def)
qed

lemma wakeup_inv:
  assumes inv: "par_inv recs pad s n C ix" and t: "t < length (workers s)" "pos_of (workers s) t = Waiting"
  shows "par_inv recs pad (set_pos t Woken s) n C ix"
  unfolding set_pos_def using t
  by (intro quiet_inv [OF inv]) (auto simp: quiet_def lines_of_def nth_list_update)

section \<open>Every schedule\<close>

lemma start_inv:
  assumes recs: "recs_ok recs" and n: "n \<le> THREADS" and sz: "0 < sz" "length (filter is_put recs) < unat sz"
  shows "par_inv recs pad (par_start n junk
      \<lparr>base = b, mem = file_of recs @ replicate pad 0, curr = 0, input_size = length (file_of recs)\<rparr>
      (init_hashtable sz p)) 0 {} ix"
proof -
  let ?h = "init_hashtable sz p"
  let ?ws = "List.map (\<lambda>t. \<lparr>wpos = Ready, wop = junk t, wlog = []\<rparr>) [0..<n]"
  note ok = hash_okD [OF init_hashtable_ok(1) [OF sz(1), of p]]
  have tab: "tab_ok ?h"
    using ok(1-4) by (simp add: tab_ok_def)
  have keys: "keys_of ?h = {}"
    by (auto simp: keys_of_def absent_def init_hashtable_def zero_entry_def)
  have "valued b recs ?ws {} ix ?h"
    by (auto simp: valued_def init_hashtable_def zero_entry_def)
  have none: "effects ?ws {} ix = {}" "adders ?ws = 0" "removers ?ws = 0" "putters ?ws = 0" "exited ?ws = 0"
    by (auto simp: effects_def effected_def adders_def removers_def putters_def exited_def filter_empty_conv)
  have "assigned recs ?ws 0 {} ix" "registered ?ws (replicate THREADS None)" "in_order recs ?ws {} ix"
    "waits recs ?ws ix" "locals ?ws ?h" "results recs ?ws ix"
    using n by (auto simp: assigned_def registered_def in_order_def waits_def locals_def results_def)
  moreover have "logged recs ?ws {}"
    by (simp add: logged_def lines_of_def o_def)
  moreover have "live ?h = 0" "empties ?h = unat sz" "used ?h = 0"
    using init_hashtable_ok(3) [OF sz(1)] by (auto simp: live_def init_hashtable_def zero_entry_def)
  then have "counts recs ?ws 0 ?h"
    using none sz(2) by (simp add: counts_def)
  moreover have "contents recs ?ws {} ix ?h"
    using keys none by (simp add: contents_def stored_by_def)
  moreover have "input_at recs pad 0 0
      \<lparr>base = b, mem = file_of recs @ replicate pad 0, curr = 0, input_size = length (file_of recs)\<rparr>"
    by (simp add: input_at_def file_of_def)
  ultimately show ?thesis
    using tab none(5) \<open>valued b recs ?ws {} ix ?h\<close> by (simp add: par_inv_def par_start_def)
qed

lemma scan_set_pos: "t < length (workers s) \<Longrightarrow> scan t (set_pos t p s) = scan t s"
proof -
  assume t: "t < length (workers s)"
  have op: "wop (workers (set_pos t p s) ! u) = wop (workers s ! u)" for u
    by (cases "u = t") (use t in \<open>simp_all add: set_pos_def\<close>)
  have "blocked (set_pos t p s) t = blocked s t"
    unfolding blocked_def op set_pos_sel(2) ..
  moreover have "set_pos t q (set_pos t p s) = set_pos t q s" for q
    using t by (simp add: set_pos_def)
  ultimately show ?thesis
    by (simp add: scan_def op set_pos_sel(4))
qed

lemma par_step_running:
  assumes "running (wpos (workers s ! t))"
  shows "par_step t s = map_option (\<lambda>r. run_bind r (\<lambda>(p', oper, h).
      Returns ((set_pos t p' (set_op t oper s))\<lparr>htable := h\<rparr>)))
    (op_step (lock_free (workers s)) (wpos (workers s ! t)) (wop (workers s ! t)) (htable s))"
  using assms by (cases "wpos (workers s ! t)") (simp_all add: par_step_def Let_def)

text \<open>How a step changes the number of steps left.\<close>

lemma steps_left_moved:
  assumes "t < length (workers s)" "workers s' = moved t p oper (workers s)"
    and "table_size (htable s') = table_size (htable s)"
    and "cost (table_size (htable s)) (length (workers s)) ((workers s ! t)\<lparr>wop := oper, wpos := p\<rparr>)
      < cost (table_size (htable s)) (length (workers s)) (workers s ! t)"
  shows "steps_left recs n s' < steps_left recs n s"
  using cost_moved [OF assms(1), of "table_size (htable s)" "length (workers s)" p oper] assms(2-4)
  by (simp add: steps_left_def moved_sel(1) Let_def)

lemma cost_turn:
  assumes "p = Waiting \<or> start_op (wop w) h = Returns p" "0 < slots h"
  shows "cost (table_size h) m (w\<lparr>wpos := p\<rparr>) \<le> m + turn (table_size h)"
  using assms start_work [of "wop w" h p] cost_running [of "w\<lparr>wpos := p\<rparr>" "table_size h" m]
  by (auto simp: cost_def)

lemma steps_left_read:
  assumes "t < length (workers s)" "pos_of (workers s) t = Ready" "n < length recs"
    and "workers s' = moved t p oper (workers s)" "table_size (htable s') = table_size (htable s)"
    and "p = Waiting \<or> start_op oper (htable s) = Returns p" "0 < slots (htable s)"
  shows "steps_left recs (Suc n) s' < steps_left recs n s"
proof -
  let ?sz = "table_size (htable s)" and ?m = "length (workers s)"
  have "cost ?sz ?m ((workers s ! t)\<lparr>wop := oper, wpos := p\<rparr>) \<le> ?m + turn ?sz"
    using cost_turn [of p "(workers s ! t)\<lparr>wop := oper\<rparr>"] assms(6,7) by simp
  moreover have "cost ?sz ?m (workers s ! t) = 1"
    using assms(2) by (rule cost_at)
  moreover have "(length recs - n) * (?m + turn ?sz) = (length recs - Suc n) * (?m + turn ?sz) + (?m + turn ?sz)"
    using assms(3) by (metis Suc_diff_Suc mult_Suc add.commute)
  ultimately show ?thesis
    using cost_moved [OF assms(1), of ?sz ?m p oper] assms(4,5)
    by (simp add: steps_left_def moved_sel(1) Let_def)
qed

lemma steps_left_done:
  assumes "t < length (workers s)" "pos_of (workers s) t = Op_Done r"
  shows "steps_left recs n (set_pos t (Log_Line r) (done_one t s)) < steps_left recs n s"
proof -
  let ?sz = "table_size (htable s)" and ?m = "length (workers s)"
  let ?ws = "List.map wake (workers s)"
  let ?w = "(workers s ! t)\<lparr>wpos := Log_Line r\<rparr>"
  have at: "?ws ! t = workers s ! t"
    using assms by (simp add: wake_def)
  have ws: "workers (set_pos t (Log_Line r) (done_one t s)) = ?ws[t := ?w]"
    using assms(1) at by (simp add: set_pos_def done_one_def)
  have "cost ?sz ?m ?w = 2" "cost ?sz ?m (?ws ! t) = ?m + 3"
    unfolding at using assms(2) by (simp_all add: cost_def)
  moreover have "cost ?sz ?m (?ws ! t) \<le> sum_list (List.map (cost ?sz ?m) ?ws)"
    using assms(1) by (intro member_le_sum_list) simp_all
  ultimately have "sum_list (List.map (cost ?sz ?m) (?ws[t := ?w])) < sum_list (List.map (cost ?sz ?m) (workers s))"
    using assms(1) cost_wake [of ?sz ?m "workers s"] unfolding map_update
    by (subst sum_list_update) (simp_all del: List.map_map)
  then show ?thesis
    unfolding steps_left_def ws
    by (simp add: set_pos_def done_one_def Let_def del: List.map_map)
qed

lemma steps_left_log:
  assumes "t < length (workers s)" "pos_of (workers s) t = Log_Line r"
  shows "steps_left recs n (set_pos t Ready (write_log t r s)) < steps_left recs n s"
proof -
  let ?sz = "table_size (htable s)" and ?m = "length (workers s)"
  let ?w = "(workers s ! t)\<lparr>wlog := wlog (workers s ! t) @ [(op_id (wop (workers s ! t)), op_type (wop (workers s ! t)), r)],
    wpos := Ready\<rparr>"
  have ws: "workers (set_pos t Ready (write_log t r s)) = (workers s)[t := ?w]"
    using assms(1) by (simp add: set_pos_def write_log_def Let_def)
  have "cost ?sz ?m ?w = 1" "cost ?sz ?m (workers s ! t) = 2"
    using assms(2) by (simp_all add: cost_def)
  moreover from this(2) have "2 \<le> sum_list (List.map (cost ?sz ?m) (workers s))"
    using assms(1) member_le_sum_list [of "cost ?sz ?m (workers s ! t)" "List.map (cost ?sz ?m) (workers s)"] by simp
  ultimately have "sum_list (List.map (cost ?sz ?m) ((workers s)[t := ?w])) < sum_list (List.map (cost ?sz ?m) (workers s))"
    using assms(1) unfolding map_update by (subst sum_list_update) simp_all
  then show ?thesis
    unfolding steps_left_def ws by (simp add: set_pos_def write_log_def Let_def)
qed

lemma steps_left_wakeup:
  assumes "t < length (workers s)" "pos_of (workers s) t = Waiting"
  shows "steps_left recs n (set_pos t Woken s) = Suc (steps_left recs n s)"
proof -
  let ?sz = "table_size (htable s)" and ?m = "length (workers s)"
  have "cost ?sz ?m ((workers s ! t)\<lparr>wop := wop (workers s ! t), wpos := Woken\<rparr>) = Suc (cost ?sz ?m (workers s ! t))"
    using assms(2) by (simp add: cost_def)
  then show ?thesis
    using cost_moved [OF assms(1), of ?sz ?m Woken "wop (workers s ! t)"]
    by (simp add: steps_left_def set_pos_sel moved_sel(1) Let_def)
qed

lemma steps_left_run:
  assumes "recs_ok recs" "par_inv recs pad s n C ix" "t < length (workers s)" "running (pos_of (workers s) t)"
    and step: "op_step (lock_free (workers s)) (pos_of (workers s) t) (wop (workers s ! t)) (htable s)
      = Some (Returns (p, oper, h))"
  shows "steps_left recs n ((set_pos t p (set_op t oper s))\<lparr>htable := h\<rparr>) < steps_left recs n s"
proof (rule steps_left_moved [OF assms(3)])
  let ?w = "workers s ! t" and ?sz = "table_size (htable s)"
  note I = par_invD [OF assms(2)]
  show "workers ((set_pos t p (set_op t oper s))\<lparr>htable := h\<rparr>) = moved t p oper (workers s)"
    using workers_moved [OF assms(3)] by simp
  show "table_size (htable ((set_pos t p (set_op t oper s))\<lparr>htable := h\<rparr>)) = ?sz"
    using op_step_sizes [OF step] by simp
  have "op_fits (wop ?w)"
    using par_inv_fits [OF assms(1) I(1)] assms(3) running_active(1) [OF assms(4)] by blast
  moreover have "has_room (htable s)"
    using has_room_empties [OF tab_okD(2) [OF I(7)]] I(9) unfolding counts_def by linarith
  moreover have "local_ok (htable s) (wpos ?w) (wop ?w)"
    using I(8) assms(3) unfolding locals_def by blast
  ultimately have "work ?sz (op_key (wop ?w)) p < work ?sz (op_key (wop ?w)) (wpos ?w)"
    using op_step_work [OF I(7) _ _ _ step] by (simp add: op_fits_def)
  moreover have "op_key oper = op_key (wop ?w)"
    using op_step_same_op [OF step] by (simp add: same_op_def)
  ultimately show "cost ?sz (length (workers s)) (?w\<lparr>wop := oper, wpos := p\<rparr>) < cost ?sz (length (workers s)) ?w"
    using op_step_course(1) [OF step] assms(4)
      cost_running [of "?w\<lparr>wop := oper, wpos := p\<rparr>"] cost_running [of ?w] by simp
qed

text \<open>Every step of every thread returns, and keeps the invariant.\<close>

lemma par_step_inv:
  assumes recs: "recs_ok recs" and inv: "par_inv recs pad s n C ix" and t: "t < length (workers s)"
    and pad: "24 * length (workers s) \<le> pad" and step: "par_step t s = Some r"
  shows "\<exists>s' n' C' ix'. r = Returns s' \<and> length (workers s') = length (workers s)
    \<and> par_inv recs pad s' n' C' ix' \<and> steps_left recs n' s' < steps_left recs n s"
proof -
  let ?ws = "workers s"
  let ?w = "?ws ! t"
  note I = par_invD [OF inv] and size = tab_okD(1) [OF par_invD(7) [OF inv]]
  have len: "length (workers (set_pos t p s')) = length (workers s')" for p s'
    by (simp add: set_pos_def)
  consider (ready) "wpos ?w = Ready" | (woken) "wpos ?w = Woken" | (ended) ret where "wpos ?w = Op_Done ret"
    | (line) ret where "wpos ?w = Log_Line ret"
    | (off) "wpos ?w = Waiting \<or> wpos ?w = Exited" | (run) "running (wpos ?w)"
    by (cases "wpos ?w") simp_all
  then show ?thesis
  proof cases
    case ready
    then have r: "r = read_step t s"
      using step by (simp add: par_step_def)
    show ?thesis
    proof (cases "n < length recs")
      case True
      have "24 \<le> pad"
        using pad t by (cases "length ?ws") simp_all
      from read_inv [OF recs inv t ready True this] obtain oper inp where
        read: "read_op (input s) (wop ?w) = Returns (0, oper, inp)"
        and inv': "par_inv recs pad (set_pos t Woken ((set_op t oper s)\<lparr>input := inp,
          being_processed := (being_processed s)[t := Some t]\<rparr>)) (Suc n) C (ix(t := n))"
        by blast
      let ?s = "(set_op t oper s)\<lparr>input := inp, being_processed := (being_processed s)[t := Some t]\<rparr>"
      have lens: "length (workers ?s) = length ?ws"
        by (simp add: set_op_def)
      have "r = scan t ?s"
        using read r by (simp add: read_step_def Let_def set_op_def)
      also have "\<dots> = scan t (set_pos t Woken ?s)"
        using lens t by (simp add: scan_set_pos)
      finally have r: "r = scan t (set_pos t Woken ?s)" .
      have "pos_of (workers (set_pos t Woken ?s)) t = Woken" "t < length (workers (set_pos t Woken ?s))"
        using t lens by (simp_all add: set_pos_def)
      from scan_inv [OF recs inv' this(2,1)] obtain q where
        q: "scan t (set_pos t Woken ?s) = Returns (set_pos t q (set_pos t Woken ?s))"
          "par_inv recs pad (set_pos t q (set_pos t Woken ?s)) (Suc n) C (ix(t := n))"
        and starts: "q = Waiting \<or> start_op (wop (workers (set_pos t Woken ?s) ! t)) (htable (set_pos t Woken ?s)) = Returns q"
        by blast
      have at: "workers (set_pos t q (set_pos t Woken ?s)) = moved t q oper ?ws"
        "wop (workers (set_pos t Woken ?s) ! t) = oper" "htable (set_pos t Woken ?s) = htable s"
        using t by (simp_all add: set_pos_def set_op_def moved_def)
      have "steps_left recs (Suc n) (set_pos t q (set_pos t Woken ?s)) < steps_left recs n s"
        using starts [unfolded at(2,3)] size
        by (intro steps_left_read [OF t ready True at(1)]) (simp_all add: set_pos_def set_op_def)
      moreover note q(2)
      moreover have "r = Returns (set_pos t q (set_pos t Woken ?s))"
        "length (workers (set_pos t q (set_pos t Woken ?s))) = length ?ws"
        using r q(1) len lens by simp_all
      ultimately show ?thesis
        by blast
    next
      case False
      then have "n = length recs"
        using assignedD(1) [OF I(1)] by simp
      from exit_inv [OF inv t ready this pad] obtain oper inp where
        "read_op (input s) (wop ?w) = Returns (- 1, oper, inp)"
        and inv': "par_inv recs pad (set_pos t Exited ((set_op t oper s)\<lparr>input := inp\<rparr>)) n C ix"
        by blast
      then have "r = Returns (set_pos t Exited ((set_op t oper s)\<lparr>input := inp\<rparr>))"
        using r by (simp add: read_step_def Let_def)
      moreover have "length (workers (set_pos t Exited ((set_op t oper s)\<lparr>input := inp\<rparr>))) = length ?ws"
        by (simp add: set_pos_def set_op_def)
      moreover have "steps_left recs n (set_pos t Exited ((set_op t oper s)\<lparr>input := inp\<rparr>)) < steps_left recs n s"
      proof (rule steps_left_moved [OF t, where p = Exited and oper = oper])
        show "cost (table_size (htable s)) (length ?ws) (?w\<lparr>wop := oper, wpos := Exited\<rparr>)
          < cost (table_size (htable s)) (length ?ws) ?w"
          unfolding cost_at(2) [OF ready] by (simp add: cost_at(1))
      qed (use t in \<open>simp_all add: set_pos_def set_op_def moved_def\<close>)
      ultimately show ?thesis
        using inv' by blast
    qed
  next
    case woken
    then have "r = scan t s"
      using step by (simp add: par_step_def)
    moreover obtain q where q: "scan t s = Returns (set_pos t q s)" "par_inv recs pad (set_pos t q s) n C ix"
      "q = Waiting \<or> start_op (wop ?w) (htable s) = Returns q"
      using scan_inv [OF recs inv t woken] by blast
    moreover have "steps_left recs n (set_pos t q s) < steps_left recs n s"
      using cost_turn [OF q(3) size, of "length ?ws"] cost_at(5) [OF woken, of "table_size (htable s)" "length ?ws"]
      by (intro steps_left_moved [OF t set_pos_sel(1)]) (simp_all add: set_pos_sel(4) same_wop)
    ultimately show ?thesis
      using len by auto
  next
    case (ended ret)
    then have "r = Returns (set_pos t (Log_Line ret) (done_one t s))"
      using step by (simp add: par_step_def)
    moreover have "length (workers (set_pos t (Log_Line ret) (done_one t s))) = length ?ws"
      by (simp add: set_pos_def done_one_def)
    ultimately show ?thesis
      using done_inv [OF inv t ended] steps_left_done [OF t ended] by blast
  next
    case (line ret)
    then have "r = Returns (set_pos t Ready (write_log t ret s))"
      using step by (simp add: par_step_def)
    moreover have "length (workers (set_pos t Ready (write_log t ret s))) = length ?ws"
      by (simp add: set_pos_def write_log_def Let_def)
    ultimately show ?thesis
      using log_inv [OF inv t line] steps_left_log [OF t line] by blast
  next
    case off
    then show ?thesis
      using step by (auto simp: par_step_def)
  next
    case run
    then obtain r' where r': "op_step (lock_free ?ws) (wpos ?w) (wop ?w) (htable s) = Some r'"
      and r: "r = run_bind r' (\<lambda>(p', oper, h). Returns ((set_pos t p' (set_op t oper s))\<lparr>htable := h\<rparr>))"
      using step par_step_running [OF run] by auto
    have "op_fits (wop ?w)"
      using par_inv_fits [OF recs I(1)] t running_active(1) [OF run] by blast
    then have "op_key (wop ?w) \<noteq> 0"
      by (simp add: op_fits_def)
    from op_step_returns [OF r' I(7) used_fits(2) [OF I(7,9)] this] obtain p oper h where
      "r' = Returns (p, oper, h)" .
    then have "r = Returns ((set_pos t p (set_op t oper s))\<lparr>htable := h\<rparr>)"
      "par_inv recs pad ((set_pos t p (set_op t oper s))\<lparr>htable := h\<rparr>) n C ix"
      "steps_left recs n ((set_pos t p (set_op t oper s))\<lparr>htable := h\<rparr>) < steps_left recs n s"
      using r op_step_inv [OF recs inv t run] steps_left_run [OF recs inv t run] r' by simp_all
    moreover have "length (workers ((set_pos t p (set_op t oper s))\<lparr>htable := h\<rparr>)) = length ?ws"
      by (simp add: set_pos_def set_op_def)
    ultimately show ?thesis
      by blast
  qed
qed

end
