(* ===== verification/Parallel_Program.thy ===== *)
theory Parallel_Program
  imports Parallel_Queue
begin

text \<open>
  The hash table program with several threads: whatever the schedule, the operations on one key
  are done in the order of the file and never at the same time, every operation returns what it
  returns when the file is processed by one thread, and no schedule goes on for ever.
\<close>

section \<open>Reachable states\<close>

text \<open>The invariant, and the number of steps left.\<close>

definition par_left :: "input_rec list \<Rightarrow> nat \<Rightarrow> nat \<Rightarrow> par_state \<Rightarrow> nat \<Rightarrow> bool" where
  "par_left recs pad w s m \<longleftrightarrow> recs_ok recs \<and> length (workers s) = w \<and> 24 * w \<le> pad
     \<and> (\<exists>n C ix. par_inv recs pad s n C ix \<and> m = steps_left recs n s)"

interpretation threads: disturbed_system par_next "par_left recs pad w" spurious_wakeup for recs pad w
proof unfold_locales
  fix s s' m
  assume left: "par_left recs pad w s m" and step: "par_next s s'"
  from left obtain n C ix where I: "recs_ok recs" "length (workers s) = w" "24 * length (workers s) \<le> pad"
    "par_inv recs pad s n C ix" "m = steps_left recs n s"
    by (auto simp: par_left_def)
  from step obtain t where t: "t < length (workers s)" "par_step t s = Some (Returns s')"
    by (rule par_nextE)
  from par_step_inv [OF I(1,4) t(1) I(3) t(2)] obtain n' C' ix' where
    "length (workers s') = length (workers s)" "par_inv recs pad s' n' C' ix'"
    "steps_left recs n' s' < steps_left recs n s"
    by auto
  then show "\<exists>m' < m. par_left recs pad w s' m'"
    using I by (auto simp: par_left_def)
next
  fix s s' m
  assume left: "par_left recs pad w s m" and step: "spurious_wakeup s s'"
  from step obtain t where t: "t < length (workers s)" "pos_of (workers s) t = Waiting" "s' = set_pos t Woken s"
    by (rule spurious_wakeupE)
  then have "length (workers s') = length (workers s)"
    by (simp add: set_pos_def)
  then show "par_left recs pad w s' (Suc m)"
    using left unfolding par_left_def t(3) steps_left_wakeup [OF t(1,2)]
    by (blast intro: wakeup_inv [OF _ t(1,2)])
qed

lemma par_run_inv:
  assumes "par_run s0 k w s" "par_inv recs pad s0 n0 C0 ix0" "recs_ok recs" "24 * length (workers s0) \<le> pad"
  shows "\<exists>n C ix. length (workers s) = length (workers s0) \<and> par_inv recs pad s n C ix
    \<and> k + steps_left recs n s \<le> steps_left recs n0 s0 + w"
proof -
  have "par_left recs pad (length (workers s0)) s0 (steps_left recs n0 s0)"
    using assms(2-4) by (auto simp: par_left_def)
  from threads.disturbed_runs [OF assms(1) this] show ?thesis
    by (auto simp: par_left_def)
qed

text \<open>The file stays mapped where it is.\<close>

lemma par_step_base:
  assumes "par_step t s = Some (Returns s')"
  shows "base (input s') = base (input s)"
proof -
  have read: "base inp' = base inp" if "read_op inp oper = Returns (ret, oper', inp')" for inp oper ret oper' inp'
    using that by (auto simp: read_op_def Let_def split: if_splits)
  have scan: "base (input s') = base (input s)" if "scan t s = Returns s'" for s
    using that by (auto simp: scan_def run_bind_eq_Returns set_pos_def split: if_splits)
  have "base (input s') = base (input s)" if step: "read_step t s = Returns s'"
  proof -
    obtain ret oper inp where r: "read_op (input s) (wop (workers s ! t)) = Returns (ret, oper, inp)"
      using step by (auto simp: read_step_def run_bind_eq_Returns)
    let ?s = "(set_op t oper s)\<lparr>input := inp\<rparr>"
    let ?s' = "?s\<lparr>being_processed := (being_processed s)[t := Some t]\<rparr>"
    have "being_processed ?s = being_processed s"
      by (simp add: set_op_def)
    then have "s' = set_pos t Exited ?s \<or> scan t ?s' = Returns s'"
      using step by (simp add: read_step_def r Let_def split: if_splits)
    then have "base (input s') = base inp"
      using scan [of ?s'] by (elim disjE) (simp_all add: set_pos_def)
    then show ?thesis
      using read [OF r] by simp
  qed
  then show ?thesis
    using assms scan
    by (auto simp: par_step_def Let_def run_bind_eq_Returns set_pos_def set_op_def write_log_def done_one_def
        split: pos.splits)
qed

lemma par_run_base: "par_run s0 k w s \<Longrightarrow> base (input s) = base (input s0)"
  by (induction rule: runs_with.induct)
    (auto elim!: par_nextE spurious_wakeupE simp: par_step_base set_pos_def)

section \<open>Some thread can go on\<close>

lemma op_step_free:
  assumes "running p" "\<And>c. free c"
  shows "op_step free p oper h \<noteq> None"
  using assms by (cases p) (simp_all add: loads_def stores_def split: prod.splits)

lemma op_step_held:
  assumes "holds p = Some c"
  shows "op_step free p oper h \<noteq> None \<and> running p"
  using assms by (cases p) (simp_all add: loads_def stores_def split: prod.splits)

lemma par_step_None:
  "running (pos_of (workers s) t) \<Longrightarrow> par_step t s = None \<longleftrightarrow>
    op_step (lock_free (workers s)) (pos_of (workers s) t) (wop (workers s ! t)) (htable s) = None"
  by (simp add: par_step_running)

lemma par_step_ready:
  "pos_of (workers s) t \<noteq> Waiting \<Longrightarrow> pos_of (workers s) t \<noteq> Exited \<Longrightarrow> \<not> running (pos_of (workers s) t) \<Longrightarrow>
    par_step t s \<noteq> None"
  by (cases "pos_of (workers s) t") (simp_all add: par_step_def Let_def)

lemma held_steps: "holds (pos_of (workers s) t) = Some c \<Longrightarrow> par_step t s \<noteq> None"
  by (simp add: par_step_None op_step_held)

lemma free_steps:
  "running (pos_of (workers s) t) \<Longrightarrow> (\<And>c. lock_free (workers s) c) \<Longrightarrow> par_step t s \<noteq> None"
  by (simp add: par_step_None op_step_free)

lemma some_step:
  assumes "par_inv recs pad s n C ix" "\<forall>t < length (workers s). par_step t s = None"
  shows "\<forall>t < length (workers s). pos_of (workers s) t = Exited"
proof (rule ccontr)
  let ?ws = "workers s"
  have held: "pos_of ?ws t = Waiting \<or> pos_of ?ws t = Exited" if len: "t < length ?ws" for t
  proof (rule ccontr)
    assume t: "\<not> (pos_of ?ws t = Waiting \<or> pos_of ?ws t = Exited)"
    have run: "running (pos_of ?ws t)"
      by (rule ccontr) (use par_step_ready [of s t] assms(2) len t in simp)
    have free: "lock_free ?ws c" for c
    proof -
      have "holds (pos_of ?ws u) \<noteq> Some c" if "u < length ?ws" for u
        using held_steps [of s u c] assms(2) that by auto
      then show ?thesis
        by (simp add: lock_free_def list_all_length)
    qed
    show False
      using free_steps [OF run free] assms(2) len by simp
  qed
  assume "\<not> ?thesis"
  then obtain t where "t < length ?ws \<and> pos_of ?ws t = Waiting"
    using held by blast
  from ex_has_least_nat [of "\<lambda>t. t < length ?ws \<and> pos_of ?ws t = Waiting", OF this, of ix]
  obtain t where t: "t < length ?ws" "pos_of ?ws t = Waiting"
    and least: "\<And>u. u < length ?ws \<Longrightarrow> pos_of ?ws u = Waiting \<Longrightarrow> ix t \<le> ix u"
    by blast
  obtain u where "u < length ?ws" "active (pos_of ?ws u)" "ix u < ix t"
    using par_invD(4) [OF assms(1)] t unfolding waits_def by blast
  then show False
    using held [of u] least [of u] by auto
qed

text \<open>A schedule that lets some thread go on as long as one can comes to an end.\<close>

lemma par_run_ends:
  assumes "recs_ok recs" "24 * length (workers s) \<le> pad" "par_inv recs pad s n C ix"
  shows "\<exists>k s'. par_run s k 0 s' \<and> (\<forall>t < length (workers s'). par_step t s' = None)"
proof -
  have "par_left recs pad (length (workers s)) s (steps_left recs n s)"
    using assms by (auto simp: par_left_def)
  from threads.ends [OF this steps_from.start] obtain k s' m' where
    "steps_from par_next s k s'" and s': "par_left recs pad (length (workers s)) s' m'" "\<forall>u. \<not> par_next s' u"
    by blast
  from runs_with_steps [OF this(1)] have run: "par_run s k 0 s'" .
  from s'(1) obtain n' C' ix' where I: "par_inv recs pad s' n' C' ix'" "24 * length (workers s') \<le> pad"
    by (auto simp: par_left_def)
  have "par_step t s' = None" if t: "t < length (workers s')" for t
  proof (rule ccontr)
    assume "par_step t s' \<noteq> None"
    then obtain r where "par_step t s' = Some r"
      by blast
    with par_step_inv [OF assms(1) I(1) t I(2) this] have "\<exists>u. par_next s' u"
      using par_next [OF t] by blast
    with s'(2) show False
      by blast
  qed
  with run show ?thesis
    by blast
qed

lemma lines_of_mem: "l \<in> set (lines_of v) \<Longrightarrow> l \<in> set (wlog v)
    \<or> (\<exists>r. wpos v = Log_Line r \<and> l = (op_id (wop v), op_type (wop v), r))"
  by (cases "wpos v") (auto simp: lines_of_def)

section \<open>From the start\<close>

text \<open>What \<open>main\<close> hands to its threads.\<close>

definition par_main :: "nat \<Rightarrow> (nat \<Rightarrow> op_t) \<Rightarrow> u64 \<Rightarrow> u8 list \<Rightarrow> nat \<Rightarrow> u32 \<Rightarrow> u64 \<Rightarrow> par_state" where
  "par_main n junk b file pad sz p = par_start n junk
     \<lparr>base = b, mem = file @ replicate pad 0, curr = 0, input_size = length file\<rparr> (init_hashtable sz p)"

lemma par_main_len: "length (workers (par_main n junk b file pad sz p)) = n"
  by (simp add: par_main_def par_start_def)

lemma par_main_steps:
  "steps_left recs 0 (par_main n junk b file pad sz p) = length recs * (n + turn sz) + n"
proof -
  have "cost sz' m \<lparr>wpos = Ready, wop = junk t, wlog = []\<rparr> = 1" for sz' m t
    by (simp add: cost_def)
  then have "List.map (cost sz' m) (workers (par_main n junk b file pad sz p)) = replicate n 1" for sz' m
    by (simp add: par_main_def par_start_def o_def map_replicate_const)
  then show ?thesis
    by (simp add: steps_left_def par_main_len sum_list_replicate)
      (simp add: par_main_def par_start_def init_hashtable_def)
qed

lemma par_main_inv:
  assumes "recs_ok recs" "n \<le> THREADS" "length (filter is_put recs) < unat sz"
  shows "par_inv recs pad (par_main n junk b (file_of recs) pad sz p) 0 {} ix"
proof -
  have "0 < sz"
    using assms(3) by (auto simp: word_gt_0)
  then show ?thesis
    unfolding par_main_def using start_inv [OF assms(1,2) _ assms(3)] by blast
qed

lemma par_main_run:
  assumes "recs_ok recs" "n \<le> THREADS" "length (filter is_put recs) < unat sz" "24 * n \<le> pad"
    and "par_run (par_main n junk b (file_of recs) pad sz p) k w s"
  obtains m C ix where "length (workers s) = n" "par_inv recs pad s m C ix"
    "k + steps_left recs m s \<le> length recs * (n + turn sz) + n + w"
  using par_run_inv [OF assms(5) par_main_inv [OF assms(1-3)] assms(1)] assms(4)
  unfolding par_main_len par_main_steps by blast

lemma hash_main_starts:
  assumes "hash_main (Some file) mmap junk p sz num = Returns s0" "mmap (length file) = Some (b, pad)"
  obtains n where "s0 = par_main n junk b file pad (ucast sz) p" "0 < n" "n \<le> THREADS"
    "n = length (workers s0)" "unat (ucast sz :: u32) = unat sz"
proof (rule that [of "nat (sint num)"])
  have "sz \<le> 100000001" "0 < sint num" "sint num \<le> int THREADS"
    using assms by (simp_all add: hash_main_def init_input_manager_def Let_def HASH_TABLE_MAX_def split: if_splits)
  then show "0 < nat (sint num)" "nat (sint num) \<le> THREADS"
    by simp_all
  show "s0 = par_main (nat (sint num)) junk b file pad (ucast sz) p"
    using assms by (simp add: hash_main_def init_input_manager_def par_main_def Let_def split: if_splits)
  then show "nat (sint num) = length (workers s0)"
    by (simp add: par_main_len)
  have "unat sz \<le> 100000001"
    using \<open>sz \<le> 100000001\<close> by (simp add: word_le_nat_alt)
  then show "unat (ucast sz :: u32) = unat sz"
    by (simp add: unsigned_ucast_eq take_bit_nat_eq_self)
qed

lemma hash_main_run:
  assumes "recs_ok recs" "hash_main (Some (file_of recs)) mmap junk p sz num = Returns s0"
    and "mmap (length (file_of recs)) = Some (b, pad)" "24 * THREADS \<le> pad"
    and "length (filter is_put recs) < unat sz" "par_run s0 k w s"
  obtains m C ix where "length (workers s) = length (workers s0)" "0 < length (workers s0)"
    "par_inv recs pad s m C ix" "24 * length (workers s) \<le> pad"
    "k + steps_left recs m s \<le> length recs * (length (workers s0) + 3 * unat sz + 10) + length (workers s0) + w"
proof -
  obtain n where n: "s0 = par_main n junk b (file_of recs) pad (ucast sz) p" "0 < n" "n \<le> THREADS"
    "n = length (workers s0)" "unat (ucast sz :: u32) = unat sz"
    using hash_main_starts [OF assms(2,3)] by metis
  have pad: "24 * n \<le> pad"
    using assms(4) n(3) by simp
  obtain m C ix where I: "length (workers s) = n" "par_inv recs pad s m C ix"
    "k + steps_left recs m s \<le> length recs * (n + turn (ucast sz)) + n + w"
    using par_main_run [OF assms(1) n(3) _ pad assms(6) [unfolded n(1)]] assms(5) n(5) by metis
  then show thesis
    using that [of m C ix] n(2,4,5) pad by (simp add: turn_def add.assoc)
qed

lemma hash_main_ends:
  assumes "recs_ok recs" "hash_main (Some (file_of recs)) mmap junk p sz num = Returns s0"
    and "mmap (length (file_of recs)) = Some (b, pad)" "24 * THREADS \<le> pad"
    and "length (filter is_put recs) < unat sz"
  shows "\<exists>k s. par_run s0 k 0 s \<and> length (workers s) = length (workers s0)
    \<and> (\<forall>t < length (workers s). par_step t s = None)"
proof -
  obtain m C ix where inv: "par_inv recs pad s0 m C ix" "24 * length (workers s0) \<le> pad"
    using hash_main_run [OF assms runs_with.start] by blast
  obtain k s where ks: "par_run s0 k 0 s" "\<forall>t < length (workers s). par_step t s = None"
    using par_run_ends [OF assms(1) inv(2,1)] by blast
  moreover have "length (workers s) = length (workers s0)"
    using hash_main_run [OF assms ks(1)] by blast
  ultimately show ?thesis
    by blast
qed

section \<open>At the end\<close>

lemma par_inv_final:
  assumes "par_inv recs pad s n C ix" "\<forall>t < length (workers s). pos_of (workers s) t = Exited" "0 < length (workers s)"
  shows "mset (concat (List.map wlog (workers s))) = mset (expected recs {})"
    and "hash_ok (htable s)" and "dom (hmap (htable s)) - {0} = keys_after recs - {0}"
    and "hmap (htable s) k = Some v \<Longrightarrow> map_after (base (input s)) 0 recs Map.empty k = Some v"
proof -
  let ?ws = "workers s" and ?h = "htable s"
  note I = par_invD [OF assms(1)]
  have gone: "\<not> active (pos_of ?ws t)" "\<not> added (pos_of ?ws t)" "\<not> removed (pos_of ?ws t)" "\<not> effected (pos_of ?ws t)"
    if "t < length ?ws" for t
    using assms(2) that by (simp_all add: effected_def)
  have "0 < exited ?ws"
    using assms(2,3) nth_mem [OF assms(3)] by (auto simp: exited_def length_greater_0_conv filter_empty_conv simp del: nth_mem)
  then have n: "n = length recs"
    using I(6) by (simp add: input_at_def)
  have C: "C = {..<length recs}"
    using assignedD(2) [OF I(1)] assignedD(5) [OF I(1)] gone(1) n by blast
  have lines: "List.map lines_of ?ws = List.map wlog ?ws"
    using assms(2) by (auto simp: lines_of_def in_set_conv_nth)
  show "mset (concat (List.map wlog ?ws)) = mset (expected recs {})"
    using I(5) unfolding logged_def C expected_lines lines by (simp add: lessThan_atLeast0 flip: mset_upt)
  have "adders ?ws = 0" "removers ?ws = 0"
    using gone by (auto simp: adders_def removers_def filter_empty_conv in_set_conv_nth)
  then have "unat (used ?h) = live ?h"
    using I(9) by (simp add: counts_def)
  then show "hash_ok ?h"
    using tab_okD [OF I(7)] by (simp add: hash_ok_def live_def)
  have E: "effects ?ws C ix = {..<length recs}"
    using gone(4) C by (auto simp: effects_def)
  then have "k \<in> keys_of ?h \<longleftrightarrow> k \<in> keys_after recs" if "k \<noteq> 0" for k
    using I(10) that stored_by_prefix [of "length recs" recs k] by (simp add: contents_def)
  moreover have "k \<in> keys_of ?h \<longleftrightarrow> k \<in> dom (hmap ?h)" if "k \<noteq> 0" for k
    using hmap_None_iff [OF tab_okD(2) [OF I(7)], of k] that by (auto simp: keys_of_def absent_def)
  ultimately show "dom (hmap ?h) - {0} = keys_after recs - {0}"
    by blast
  have half: "\<not> (\<exists>t < length ?ws. \<exists>c. half_written (pos_of ?ws t) = Some c \<and> unat c = i)" for i
    using gone(1) half_written_running running_active(1) by blast
  show "map_after (base (input s)) 0 recs Map.empty k = Some v" if v: "hmap ?h k = Some v"
  proof -
    have "k \<noteq> 0"
      using v by (auto simp: hmap_def)
    then obtain i where i: "i < slots ?h" "key_at ?h i = k" "entry_val (table ?h ! i) = v"
      using v hmap_Some_iff [OF tab_okD(2,3) [OF I(7)], of k v] by auto
    then obtain j where "last_put recs k {..<length recs} j" "v = val_at (base (input s)) recs j"
      using I(12) \<open>k \<noteq> 0\<close> half E unfolding valued_def by metis
    then show ?thesis
      using map_after_last_put [of "length recs" recs "base (input s)" k v] by auto
  qed
qed

lemma keys_after_nonzero: "recs_ok recs \<Longrightarrow> 0 \<notin> keys_after recs"
proof -
  have "fold key_effect recs S \<subseteq> rec_key ` set recs \<union> S" for S
  proof (induction recs arbitrary: S)
    case (Cons r recs)
    have "key_effect r S \<subseteq> insert (rec_key r) S"
      by (cases r) auto
    then show ?case
      using Cons [of "key_effect r S"] by auto
  qed simp
  then show "recs_ok recs \<Longrightarrow> 0 \<notin> keys_after recs"
    unfolding keys_after_def recs_ok_def by fastforce
qed

lemma hash_main_base:
  assumes "hash_main (Some f) mmap junk p sz num = Returns s0" "mmap (length f) = Some (b, pad)"
    and "par_run s0 k w s"
  shows "base (input s) = b"
proof -
  obtain n where "s0 = par_main n junk b f pad (ucast sz) p"
    using hash_main_starts [OF assms(1,2)] by blast
  then show ?thesis
    using par_run_base [OF assms(3)] by (simp add: par_main_def par_start_def)
qed

lemma threads_final:
  assumes "recs_ok recs" "hash_main (Some (file_of recs)) mmap junk p sz num = Returns s0"
    and "mmap (length (file_of recs)) = Some (b, pad)" "24 * THREADS \<le> pad"
    and "length (filter is_put recs) < unat sz"
    and "par_run s0 k w s" "\<forall>t < length (workers s). par_step t s = None"
  shows "mset (concat (List.map wlog (workers s))) = mset (expected recs {})"
    and "hmap (htable s) = map_after b 0 recs Map.empty" "dump_hash_table (htable s) = Returns ()"
proof -
  note b = hash_main_base [OF assms(2,3,6)]
  obtain m C ix where I: "length (workers s) = length (workers s0)" "0 < length (workers s0)"
    "par_inv recs pad s m C ix"
    using hash_main_run [OF assms(1-6)] by blast
  note final = par_inv_final [OF I(3) some_step [OF I(3)]]
  show "mset (concat (List.map wlog (workers s))) = mset (expected recs {})"
    using final(1) assms(7) I(1,2) by metis
  have "hash_ok (htable s)" "dom (hmap (htable s)) - {0} = keys_after recs - {0}"
    using final(2,3) assms(7) I(1,2) by metis+
  moreover have "0 \<notin> dom (hmap (htable s))"
    by (simp add: hmap_def domIff)
  ultimately have dom: "dom (hmap (htable s)) = dom (map_after b 0 recs Map.empty)"
    and "dump_hash_table (htable s) = Returns ()"
    using keys_after_nonzero [OF assms(1)] dump_hash_table_ok
    unfolding dom_map_after keys_after_def by auto
  show "dump_hash_table (htable s) = Returns ()"
    by fact
  have "map_after b 0 recs Map.empty k = Some v" if "hmap (htable s) k = Some v" for k v
    using final(4) assms(7) I(1,2) b that by metis
  then show "hmap (htable s) = map_after b 0 recs Map.empty"
    using dom by (intro ext) (metis domIff not_Some_eq)
qed

text \<open>The text of a record in the mapped file.\<close>

lemma text_at:
  assumes "i < length recs" "rec_type (recs ! i) = PUT"
  shows "take (length (rec_data (recs ! i))) (drop (length (file_of (take i recs)) + 24) (file_of recs @ rest))
      = rec_data (recs ! i)"
    and "length (file_of (take i recs)) + 24 \<le> length (file_of recs)" "length (rec_data (recs ! i)) \<le> 32"
proof -
  obtain n k rs where r: "recs ! i = Put n k rs"
    using assms(2) by (cases "recs ! i") simp_all
  have "recs = take i recs @ recs ! i # drop (Suc i) recs"
    by (rule id_take_nth_drop [OF assms(1)])
  then have file_eq: "file_of recs = file_of (take i recs) @ encode (recs ! i) @ file_of (drop (Suc i) recs)"
    unfolding file_of_def by (metis concat.simps(2) concat_append list.simps(9) map_append)
  show "take (length (rec_data (recs ! i))) (drop (length (file_of (take i recs)) + 24) (file_of recs @ rest))
      = rec_data (recs ! i)"
    by (simp add: file_eq r create_put_def generate_rand_text_def)
  show "length (file_of (take i recs)) + 24 \<le> length (file_of recs)"
    by (simp add: file_eq r)
  show "length (rec_data (recs ! i)) \<le> 32"
    using rand_len_bounds(2) by (simp add: r)
qed

text \<open>A thread that is woken too early waits on.\<close>

lemma early_wakeup:
  assumes "recs_ok recs" "par_inv recs pad s n C ix" "t < length (workers s)" "pos_of (workers s) t = Waiting"
  shows "par_step t (set_pos t Woken s) = Some (Returns s)"
proof -
  note I = par_invD [OF assms(2)]
  have "active (pos_of (workers s) t)"
    by (simp add: assms(4))
  then have "blocked s t"
    using blocked_iff [OF assms(1) I(1,2) assms(3)] I(4) assms(3,4) unfolding waits_def by blast
  moreover have "(workers s)[t := (workers s ! t)\<lparr>wpos := Waiting\<rparr>] = workers s"
    using assms(4) by (cases "workers s ! t") (metis list_update_id worker.update_convs(1) worker.select_convs(1))
  ultimately have "scan t s = Returns s"
    by (simp add: scan_def set_pos_def)
  moreover have "pos_of (workers (set_pos t Woken s)) t = Woken"
    using assms(3) by (simp add: set_pos_def)
  ultimately show ?thesis
    using assms(3) by (simp add: par_step_def scan_set_pos)
qed

text \<open>A run of two threads, for the examples.\<close>

definition example_recs :: "input_rec list" where
  "example_recs = [Put 1 5 id, Get 2 5, Del 3 7]"

definition example_main :: par_state where
  "example_main = par_main 2 (\<lambda>t. example_op 0 0) 0 (file_of example_recs) 768 4 0"

lemma example_starts:
  "hash_main (Some (file_of example_recs)) (\<lambda>n. Some (0, 768)) (\<lambda>t. example_op 0 0) 0 4 2 = Returns example_main"
  by (simp add: hash_main_def init_input_manager_def example_main_def par_main_def HASH_TABLE_MAX_def
      THREADS_def Let_def)

lemma example_recs_ok: "recs_ok example_recs" "length (filter is_put example_recs) < unat (4 :: u32)"
  "length (filter is_put example_recs) < unat (4 :: u64)"
  by (simp_all add: recs_ok_def example_recs_def is_put_def)

lemma example_main_inv: "par_inv example_recs 768 example_main 0 {} ix"
  unfolding example_main_def using example_recs_ok by (intro par_main_inv) (simp_all add: THREADS_def)

lemma example_ends: "\<exists>k s. par_run example_main k 0 s \<and> length (workers s) = 2
    \<and> (\<forall>t < length (workers s). par_step t s = None)"
proof -
  have "length (workers example_main) = 2"
    by (simp add: example_main_def par_main_len)
  then show ?thesis
    using hash_main_ends [OF example_recs_ok(1) example_starts refl _ example_recs_ok(3)]
    by (simp add: THREADS_def)
qed

text \<open>\<open>n\<close> steps of one thread.\<close>

fun alone :: "nat \<Rightarrow> nat \<Rightarrow> par_state \<Rightarrow> par_state option" where
  "alone t 0 s = Some s"
| "alone t (Suc n) s =
     (if t < length (workers s) then
        (case par_step t s of Some (Returns s') \<Rightarrow> alone t n s' | _ \<Rightarrow> None)
      else None)"

lemma alone_par_run: "par_run s0 k w s \<Longrightarrow> alone t n s = Some s' \<Longrightarrow> par_run s0 (k + n) w s'"
proof (induction n arbitrary: k s)
  case (Suc n)
  then obtain s1 where "t < length (workers s)" "par_step t s = Some (Returns s1)" "alone t n s1 = Some s'"
    by (auto split: if_splits option.splits run.splits)
  with Suc.IH [OF runs_with.step [OF Suc.prems(1) par_next [OF this(1,2)]]] show ?case
    by simp
qed simp

lemma example_alone:
  "map_option (\<lambda>s. (wpos (workers s ! 0), op_type (wop (workers s ! 0)), length (workers s)))
    (alone 0 1 example_main) = Some (Put_Assert, PUT, 2)"
  "map_option (\<lambda>s. (wpos (workers s ! 0), op_type (wop (workers s ! 0)), length (workers s)))
    (alone 0 16 example_main) = Some (Op_Done 0, GET, 2)"
  by code_simp+

lemma example_first_steps:
  "\<exists>s. par_run example_main 1 0 s \<and> wpos (workers s ! 0) = Put_Assert \<and> length (workers s) = 2"
  "\<exists>s. par_run example_main 16 0 s \<and> wpos (workers s ! 0) = Op_Done 0 \<and> op_type (wop (workers s ! 0)) = GET
    \<and> length (workers s) = 2"
  using example_alone alone_par_run [OF runs_with.start, where s0 = example_main and t = 0]
  by (fastforce)+

section \<open>Properties\<close>

text \<open>
  C1: The program with several threads against the program with one. On a file of records with
  ascending ids and keys that are not 0, fewer \<open>PUT\<close>s than the table has slots and 768 bytes behind
  it in its last page, up to \<open>THREADS\<close> threads that are interleaved step by step in any way, with
  any spurious wake-ups, write, all together, the lines the single thread writes,
  each as often, and leave a table with the same contents, id, length and address of the text for
  every key, which the final check of the program accepts.
\<close>

theorem threads_equal_one_thread:
  assumes "recs_ok recs" "hash_main (Some (file_of recs)) mmap junk p sz num = Returns s0"
    and "mmap (length (file_of recs)) = Some (b, pad)" "24 * THREADS \<le> pad"
    and "length (filter is_put recs) < unat sz"
    and "par_run s0 k w s" "\<forall>t < length (workers s). par_step t s = None"
  shows "\<exists>lines h. process (input s0) oper (htable s0) = Returns (lines, h)
    \<and> mset (concat (List.map wlog (workers s))) = mset lines
    \<and> hmap (htable s) = hmap h
    \<and> dump_hash_table (htable s) = Returns ()"
proof -
  note final = threads_final [OF assms]
  let ?inp = "\<lparr>base = b, mem = file_of recs @ replicate pad 0, curr = 0, input_size = length (file_of recs)\<rparr>"
  obtain n where n: "s0 = par_main n junk b (file_of recs) pad (ucast sz) p"
    "unat (ucast sz :: u32) = unat sz"
    using hash_main_starts [OF assms(2,3)] by metis
  have s0: "input s0 = ?inp" "htable s0 = init_hashtable (ucast sz) p"
    by (simp_all add: n(1) par_main_def par_start_def)
  have "24 \<le> pad" "0 < unat (ucast sz :: u32)"
    using assms(4,5) n(2) by (simp_all add: THREADS_def)
  moreover from this(2) have "0 < (ucast sz :: u32)"
    by (auto simp: word_gt_0)
  ultimately have pad: "24 \<le> pad" and new: "hash_ok (htable s0)" "hmap (htable s0) = Map.empty"
    "empties (htable s0) = unat sz"
    using init_hashtable_ok [of "ucast sz" p] n(2) by (simp_all add: s0)
  have "\<forall>r \<in> set recs. rec_key r \<noteq> 0"
    using assms(1) by (simp add: recs_ok_def)
  from process_records [of ?inp "[]" recs pad, OF _ pad _ _ new(1) _ this, of oper] assms(5) new(2,3)
  obtain h where h: "process ?inp oper (htable s0) = Returns (expected recs {}, h)"
    "hmap h = map_after b 0 recs Map.empty"
    by auto
  show ?thesis
    using h final s0(1) by auto
qed

theorem threads_equal_one_thread_witness:
  "\<exists>k s. par_run example_main k 0 s \<and>
    mset (concat (List.map wlog (workers s))) = {# (1, 0, 0), (2, 1, 0), (3, 2, - 1) #}"
proof -
  obtain k s where ks: "par_run example_main k 0 s" "\<forall>t < length (workers s). par_step t s = None"
    using example_ends by blast
  have out: "expected example_recs {} = [(1, 0, 0), (2, 1, 0), (3, 2, - 1)]"
    by (simp add: example_recs_def PUT_def GET_def DEL_def)
  obtain lines h where l: "process (input example_main) (example_op 0 0) (htable example_main) = Returns (lines, h)"
    "mset (concat (List.map wlog (workers s))) = mset lines"
    using threads_equal_one_thread [OF example_recs_ok(1) example_starts refl _ example_recs_ok(3) ks,
        of "example_op 0 0"] by (auto simp: THREADS_def)
  have "\<forall>r \<in> set example_recs. rec_key r \<noteq> 0"
    using example_recs_ok(1) by (simp add: recs_ok_def)
  then have "lines = expected example_recs {}"
    using process_records [of "input example_main" "[]" example_recs 768 "htable example_main" "example_op 0 0"]
      init_hashtable_ok [of 4 0] example_recs_ok(2) l(1)
    by (auto simp: file_of_def example_main_def par_main_def par_start_def)
  then show ?thesis
    using ks(1) l(2) out by auto
qed

text \<open>
  C6: What the scan of \<open>being_processed\<close> is for. The file has records with ascending ids and keys
  that are not 0, fewer \<open>PUT\<close>s than the table has slots, and 768 bytes behind it in its last page.
  Then in every state that any schedule with any spurious wake-ups reaches, an operation that has
  got past the scan has behind it all operations on its key that come before it in the file: each
  has been through \<open>done_one\<close>, and its line, with the result it has with one thread, has been
  written by some thread or is the next thing that thread writes (a thread leaves the list before it
  writes the line). And no other thread is past the scan with an operation on the same key.
\<close>

theorem operations_in_order:
  assumes "recs_ok recs" "hash_main (Some (file_of recs)) mmap junk p sz num = Returns s0"
    and "mmap (length (file_of recs)) = Some (b, pad)" "24 * THREADS \<le> pad"
    and "length (filter is_put recs) < unat sz" "par_run s0 k w s"
    and "t < length (workers s)" "running (wpos (workers s ! t)) \<or> ended (wpos (workers s ! t))"
  shows "\<exists>j < length recs. op_is (recs ! j) (wop (workers s ! t))
    \<and> (\<forall>i < j. rec_key (recs ! i) = rec_key (recs ! j) \<longrightarrow>
         (\<exists>v \<in> set (workers s). line_at recs i \<in> set (wlog v)
            \<or> (\<exists>r. wpos v = Log_Line r \<and> line_at recs i = (op_id (wop v), op_type (wop v), r))))
    \<and> (\<forall>u < length (workers s). u \<noteq> t \<and> (running (wpos (workers s ! u)) \<or> ended (wpos (workers s ! u))) \<longrightarrow>
         op_key (wop (workers s ! u)) \<noteq> op_key (wop (workers s ! t)))"
proof -
  obtain m C ix where I: "par_inv recs pad s m C ix"
    using hash_main_run [OF assms(1-6)] by blast
  note inv = par_invD [OF I]
  have t: "t < length (workers s)" "active (wpos (workers s ! t))"
    using assms(7,8) running_active by blast+
  note A = assignedD(3) [OF inv(1) t]
  have "finite C"
    using assignedD(2) [OF inv(1)] finite_subset by blast
  then have "line_at recs i \<in># mset (concat (List.map lines_of (workers s)))" if "i \<in> C" for i
    using inv(5) that unfolding logged_def by auto
  then have written: "\<exists>v \<in> set (workers s). line_at recs i \<in> set (wlog v)
      \<or> (\<exists>r. wpos v = Log_Line r \<and> line_at recs i = (op_id (wop v), op_type (wop v), r))" if "i \<in> C" for i
    using that lines_of_mem by fastforce
  have "ix t < length recs"
    using A assignedD(1) [OF inv(1)] by simp
  moreover have "\<forall>i < ix t. rec_key (recs ! i) = rec_key (recs ! ix t) \<longrightarrow>
      (\<exists>v \<in> set (workers s). line_at recs i \<in> set (wlog v)
        \<or> (\<exists>r. wpos v = Log_Line r \<and> line_at recs i = (op_id (wop v), op_type (wop v), r)))"
    using in_orderD(1) [OF inv(3) t(1) assms(8)] written by blast
  moreover have "\<forall>u < length (workers s). u \<noteq> t \<and> (running (wpos (workers s ! u)) \<or> ended (wpos (workers s ! u))) \<longrightarrow>
      op_key (wop (workers s ! u)) \<noteq> op_key (wop (workers s ! t))"
    using keys_exclusive [OF inv(1,3) t(1) _ assms(8)] by metis
  ultimately show ?thesis
    using A by blast
qed

theorem operations_in_order_witness:
  "\<exists>s j. par_run example_main 1 0 s \<and> wpos (workers s ! 0) = Put_Assert
    \<and> j < 3 \<and> op_is (example_recs ! j) (wop (workers s ! 0))"
proof -
  obtain s where s: "par_run example_main 1 0 s" "wpos (workers s ! 0) = Put_Assert" "length (workers s) = 2"
    using example_first_steps(1) by blast
  have "length example_recs = 3"
    by (simp add: example_recs_def)
  then obtain j where "j < 3" "op_is (example_recs ! j) (wop (workers s ! 0))"
    using operations_in_order [OF example_recs_ok(1) example_starts refl _ example_recs_ok(3) s(1), of 0] s(2,3)
    by (auto simp: THREADS_def)
  then show ?thesis
    using s by blast
qed

text \<open>
  C7: A lookup finds what was written last. The file is shorter than \<open>2^64\<close> bytes and has records
  with ascending ids and keys that are not 0, fewer \<open>PUT\<close>s than the table has slots, and 768 bytes
  behind it in its last page. Then in every state that any schedule with any spurious wake-ups
  reaches, a thread that has done a \<open>GET\<close> with success has the length and the address of the text of
  the last \<open>PUT\<close> of its key before it in the file, with no \<open>DEL\<close> between them.
\<close>

theorem lookups_find_last_put:
  assumes "recs_ok recs" "hash_main (Some (file_of recs)) mmap junk p sz num = Returns s0"
    and "mmap (length (file_of recs)) = Some (b, pad)" "24 * THREADS \<le> pad"
    and "length (filter is_put recs) < unat sz" "length (file_of recs) < 2 ^ 64" "par_run s0 k w s"
    and "t < length (workers s)" "wpos (workers s ! t) = Op_Done 0"
    and "oper = wop (workers s ! t)" "op_type oper = GET"
  shows "\<exists>j < length recs. \<exists>i < j. op_is (recs ! j) oper
    \<and> rec_key (recs ! i) = op_key oper \<and> rec_type (recs ! i) = PUT
    \<and> (\<forall>l < j. i < l \<and> rec_key (recs ! l) = op_key oper \<longrightarrow> rec_type (recs ! l) = GET)
    \<and> take (unat (op_datalen oper)) (drop (unat (op_data oper - b)) (mem (input s))) = rec_data (recs ! i)"
proof -
  obtain m C ix where inv: "par_inv recs pad s m C ix"
    using hash_main_run [OF assms(1-5,7)] by blast
  note I = par_invD [OF inv]
  have act: "active (wpos (workers s ! t))"
    by (simp add: assms(9))
  have j: "ix t < length recs" "op_is (recs ! ix t) oper"
    using assignedD(3) [OF I(1) assms(8) act] assignedD(1) [OF I(1)] assms(10) by auto
  have b: "base (input s) = b"
    using hash_main_base [OF assms(2,3,7)] .
  have "found b recs (ix t) (Op_Done 0) oper"
    using valuedD(1) [OF I(12) assms(8) act] unfolding b assms(9,10) by blast
  then obtain i where i: "last_put recs (rec_key (recs ! ix t)) {..<ix t} i"
    "(op_datalen oper, op_data oper) = snd (val_at b recs i)"
    using assms(11) by auto
  then have "i < ix t" "rec_type (recs ! i) = PUT"
    by (simp_all add: last_put_def)
  then have len: "i < length recs"
    using j(1) by simp
  note place = text_at [OF len \<open>rec_type (recs ! i) = PUT\<close>]
  let ?p = "length (file_of (take i recs)) + 24"
  have "unat (op_datalen oper) = length (rec_data (recs ! i))"
    using i(2) place(3) by (simp add: val_at_def unat_of_nat)
  moreover have "op_data oper - b = of_nat ?p"
    using i(2) by (simp add: val_at_def)
  then have "unat (op_data oper - b) = ?p"
    using place(2) assms(6) by (simp only: unat_of_nat) simp
  moreover have "mem (input s) = file_of recs @ replicate pad 0"
    using I(6) by (simp add: input_at_def)
  ultimately have "take (unat (op_datalen oper)) (drop (unat (op_data oper - b)) (mem (input s))) = rec_data (recs ! i)"
    using place(1) by (simp only:)
  then show ?thesis
    using i(1) j \<open>i < ix t\<close> unfolding last_put_def op_is_def by auto
qed

theorem lookups_find_last_put_witness:
  "\<exists>s. par_run example_main 16 0 s \<and> op_type (wop (workers s ! 0)) = GET
    \<and> take (unat (op_datalen (wop (workers s ! 0)))) (drop (unat (op_data (wop (workers s ! 0)))) (mem (input s)))
      = rand_text id"
proof -
  obtain s where s: "par_run example_main 16 0 s" "wpos (workers s ! 0) = Op_Done 0"
    "op_type (wop (workers s ! 0)) = GET" "length (workers s) = 2"
    using example_first_steps(2) by blast
  have len: "length (file_of example_recs) < 2 ^ 64" "length example_recs = 3"
    by (simp_all add: file_of_def example_recs_def rand_len_def)
  have puts: "i = 0" if "i < 3" "rec_type (example_recs ! i) = PUT" for i
    using that by (auto simp: example_recs_def numeral_3_eq_3 less_Suc_eq)
  have "\<exists>j < length example_recs. \<exists>i < j. rec_type (example_recs ! i) = PUT
      \<and> take (unat (op_datalen (wop (workers s ! 0)))) (drop (unat (op_data (wop (workers s ! 0)) - 0)) (mem (input s)))
        = rec_data (example_recs ! i)"
    using lookups_find_last_put [OF example_recs_ok(1) example_starts refl _ example_recs_ok(3) len(1) s(1) _ s(2) refl s(3)]
      s(4) by (auto simp: THREADS_def)
  then obtain j i where "j < 3" "i < j" "rec_type (example_recs ! i) = PUT"
    "take (unat (op_datalen (wop (workers s ! 0)))) (drop (unat (op_data (wop (workers s ! 0)))) (mem (input s)))
      = rec_data (example_recs ! i)"
    unfolding len(2) diff_0_right by blast
  moreover from puts [OF less_trans [OF this(2,1)] this(3)] have "rec_data (example_recs ! i) = rand_text id"
    by (simp add: example_recs_def)
  ultimately show ?thesis
    using s(1,3) by auto
qed

text \<open>
  C8: The threads come to an end, however they are scheduled. The file has records with ascending ids
  and keys that are not 0, fewer \<open>PUT\<close>s than the table has slots, and 768 bytes behind it in its last
  page (without these the findings show failed asserts and reads outside the mapping). Then a run
  with \<open>w\<close> spurious wake-ups has at most as many steps as the bound plus \<open>w\<close>, whether entries are
  searched, locks are waited for or threads are woken in vain; a thread that is woken spuriously
  waits again after one step, in the same state; in every state on the way either all threads
  have reached the end of the file or one of them can go on; and no step fails an \<open>assert\<close> or
  leaves the buffers.
\<close>

theorem threads_terminate:
  assumes "recs_ok recs" "hash_main (Some (file_of recs)) mmap junk p sz num = Returns s0"
    and "mmap (length (file_of recs)) = Some (b, pad)" "24 * THREADS \<le> pad"
    and "length (filter is_put recs) < unat sz" "par_run s0 k w s"
  shows "k \<le> length recs * (length (workers s0) + 3 * unat sz + 10) + length (workers s0) + w
    \<and> (\<forall>t < length (workers s). wpos (workers s ! t) = Waiting \<longrightarrow>
         par_step t (set_pos t Woken s) = Some (Returns s))
    \<and> ((\<forall>t < length (workers s). wpos (workers s ! t) = Exited)
       \<or> (\<exists>t < length (workers s). par_step t s \<noteq> None))
    \<and> (\<forall>t < length (workers s). \<forall>r. par_step t s = Some r \<longrightarrow> (\<exists>s'. r = Returns s'))"
proof -
  obtain m C ix where I: "par_inv recs pad s m C ix" "24 * length (workers s) \<le> pad"
    "k + steps_left recs m s \<le> length recs * (length (workers s0) + 3 * unat sz + 10) + length (workers s0) + w"
    using hash_main_run [OF assms(1-6)] by blast
  have "(\<forall>t < length (workers s). wpos (workers s ! t) = Exited) \<or> (\<exists>t < length (workers s). par_step t s \<noteq> None)"
    using some_step [OF I(1)] by auto
  moreover have "\<exists>s'. r = Returns s'" if "t < length (workers s)" "par_step t s = Some r" for t r
    using par_step_inv [OF assms(1) I(1) that(1) I(2) that(2)] by blast
  ultimately show ?thesis
    using I(3) early_wakeup [OF assms(1) I(1)] by simp
qed

theorem threads_terminate_witness:
  "\<exists>k s. par_run example_main k 0 s \<and> k \<le> 74 \<and> (\<forall>t < 2. wpos (workers s ! t) = Exited)"
proof -
  obtain k s where ks: "par_run example_main k 0 s" "length (workers s) = 2"
    "\<forall>t < length (workers s). par_step t s = None"
    using example_ends by blast
  have "length example_recs * (2 + 3 * unat (4 :: u64) + 10) + 2 = 74" "length (workers example_main) = 2"
    by (simp_all add: example_recs_def example_main_def par_main_len)
  then show ?thesis
    using threads_terminate [OF example_recs_ok(1) example_starts refl _ example_recs_ok(3) ks(1)] ks
    by (auto simp: THREADS_def)
qed

end
