(* ===== verification/Input_Gen.thy ===== *)
theory Input_Gen
  imports Parallel_Program
begin

text \<open>
  \<open>main\<close> of \<open>inputgen.c\<close>: the file of records that the hash table programs are tested with, from
  the numbers \<open>rand()\<close> and \<open>/dev/urandom\<close> give; and what becomes of this file when the program with
  threads processes it.
\<close>

section \<open>The code\<close>

definition MANDATORY_PUTS :: nat where "MANDATORY_PUTS = 100"
definition PUT_FRESH_HIGH :: nat where "PUT_FRESH_HIGH = 20 * 100"
definition PUT_OVERWRITE_HIGH :: nat where "PUT_OVERWRITE_HIGH = PUT_FRESH_HIGH + 10 * 100"
definition GET_SUCCESS_HIGH :: nat where "GET_SUCCESS_HIGH = PUT_OVERWRITE_HIGH + 50 * 100"
definition GET_FAIL_HIGH :: nat where "GET_FAIL_HIGH = GET_SUCCESS_HIGH + 10 * 100"
definition DEL_SUCCESS_HIGH :: nat where "DEL_SUCCESS_HIGH = GET_FAIL_HIGH + 7 * 100"

text \<open>The lines of the text file: the numbers in decimal, as \<open>sprintf\<close> writes them.\<close>

fun decimal :: "nat \<Rightarrow> u8 list" where
  "decimal n = (if n < 10 then [of_nat (48 + n)] else decimal (n div 10) @ [of_nat (48 + n mod 10)])"

definition put_line :: "u64 \<Rightarrow> u64 \<Rightarrow> (nat \<Rightarrow> nat) \<Rightarrow> u8 list" where
  "put_line i key rs = decimal (unat i) @ [32] @ decimal (unat key) @ [32] @ decimal (unat PUT) @ [32]
     @ decimal (rand_len rs) @ [32] @ rand_text rs @ [10]"

definition get_del_line :: "u64 \<Rightarrow> u64 \<Rightarrow> u32 \<Rightarrow> u8 list" where
  "get_del_line i key ty = decimal (unat i) @ [32] @ decimal (unat key) @ [32] @ decimal (unat ty) @ [32] @ [10]"

text \<open>
  \<open>rands\<close> and \<open>urands\<close> count the calls of \<open>rand()\<close> and the reads of \<open>/dev/urandom\<close> so far; \<open>bin_file\<close>
  and \<open>txt_file\<close> are what has been written to the two files.
\<close>

record gen_state =
  next_id :: u64
  unique_keys :: "u64 list"
  unique_ctr :: u32
  rands :: nat
  urands :: nat
  bin_file :: "u8 list"
  txt_file :: "u8 list"

text \<open>\<open>urand n\<close> is the key the \<open>n\<close>th read gives, or \<^const>\<open>None\<close> when it fails.\<close>

definition read_random_u64 :: "(nat \<Rightarrow> u64 option) \<Rightarrow> gen_state \<Rightarrow> (u64 \<times> gen_state) run" where
  "read_random_u64 urand g =
     (case urand (urands g) of
        None \<Rightarrow> Faults
      | Some key \<Rightarrow> Returns (key, g\<lparr>urands := urands g + 1\<rparr>))"

definition write_put :: "(nat \<Rightarrow> nat) \<Rightarrow> u64 \<Rightarrow> gen_state \<Rightarrow> gen_state" where
  "write_put rnd key g =
     (let rs = (\<lambda>i. rnd (rands g + i)) in
      g\<lparr>bin_file := bin_file g @ create_put (next_id g) key rs,
        txt_file := txt_file g @ put_line (next_id g) key rs, rands := rands g + 1 + rand_len rs,
        next_id := next_id g + 1\<rparr>)"

definition write_get_del :: "u64 \<Rightarrow> u32 \<Rightarrow> gen_state \<Rightarrow> gen_state" where
  "write_get_del key ty g =
     g\<lparr>bin_file := bin_file g @ create_get_del (next_id g) key ty,
       txt_file := txt_file g @ get_del_line (next_id g) key ty, next_id := next_id g + 1\<rparr>"

text \<open>The assignment to \<open>unique_keys[unique_ctr]\<close>, which comes before the \<open>assert\<close> of the bound.\<close>

definition store_key :: "u64 \<Rightarrow> gen_state \<Rightarrow> gen_state run" where
  "store_key key g =
     (if unat (unique_ctr g) < length (unique_keys g)
      then Returns (g\<lparr>unique_keys := (unique_keys g)[unat (unique_ctr g) := key]\<rparr>) else Faults)"

text \<open>
  \<open>assert\<close>. For a record that is written, \<open>wr g\<close> says whether both \<open>write\<close>s of the record that
  comes after \<open>g\<close> take all bytes.
\<close>

definition check :: "bool \<Rightarrow> gen_state \<Rightarrow> gen_state run" where
  "check b g = (if b then Returns g else Faults)"

definition mandatory_put :: "(gen_state \<Rightarrow> bool) \<Rightarrow> (nat \<Rightarrow> nat) \<Rightarrow> (nat \<Rightarrow> u64 option) \<Rightarrow> u32 \<Rightarrow> gen_state \<Rightarrow> gen_state run" where
  "mandatory_put wr rnd urand max_unique g =
     run_bind (read_random_u64 urand g) (\<lambda>(key, g).
     run_bind (store_key key g) (\<lambda>g.
     run_bind (check (unique_ctr g < max_unique) g) (\<lambda>g.
     run_bind (check (wr g) (write_put rnd key g)) (\<lambda>g.
       Returns (g\<lparr>unique_ctr := unique_ctr g + 1\<rparr>)))))"

text \<open>The key at a random position of those stored so far.\<close>

definition random_key :: "(nat \<Rightarrow> nat) \<Rightarrow> gen_state \<Rightarrow> (u64 \<times> gen_state) run" where
  "random_key rnd g =
     (if unique_ctr g = 0 then Faults
      else
        (let keypos = of_nat (rnd (rands g)) mod unique_ctr g in
         if unat keypos < length (unique_keys g)
         then Returns (unique_keys g ! unat keypos, g\<lparr>rands := rands g + 1\<rparr>) else Faults))"

definition random_op :: "(gen_state \<Rightarrow> bool) \<Rightarrow> (nat \<Rightarrow> nat) \<Rightarrow> (nat \<Rightarrow> u64 option) \<Rightarrow> u32 \<Rightarrow> gen_state \<Rightarrow> gen_state run" where
  "random_op wr rnd urand max_unique g =
     (let prob = rnd (rands g) mod 10000; g = g\<lparr>rands := rands g + 1\<rparr> in
      if prob < PUT_FRESH_HIGH then
        run_bind (read_random_u64 urand g) (\<lambda>(key, g).
        run_bind (store_key key g) (\<lambda>g.
          let g = g\<lparr>unique_ctr := unique_ctr g + 1\<rparr> in
          run_bind (check (unique_ctr g < max_unique) g) (\<lambda>g. check (wr g) (write_put rnd key g))))
      else if prob < PUT_OVERWRITE_HIGH then
        run_bind (random_key rnd g) (\<lambda>(key, g). check (wr g) (write_put rnd key g))
      else if prob < GET_SUCCESS_HIGH then
        run_bind (random_key rnd g) (\<lambda>(key, g). check (wr g) (write_get_del key GET g))
      else if prob < GET_FAIL_HIGH then
        run_bind (read_random_u64 urand g) (\<lambda>(key, g). check (wr g) (write_get_del key GET g))
      else if prob < DEL_SUCCESS_HIGH then
        run_bind (random_key rnd g) (\<lambda>(key, g). check (wr g) (write_get_del key DEL g))
      else
        run_bind (read_random_u64 urand g) (\<lambda>(key, g). check (wr g) (write_get_del key DEL g)))"

primrec repeat :: "nat \<Rightarrow> (gen_state \<Rightarrow> gen_state run) \<Rightarrow> gen_state \<Rightarrow> gen_state run" where
  "repeat 0 f g = Returns g"
| "repeat (Suc n) f g = run_bind (f g) (repeat n f)"

text \<open>
  \<open>keys\<close> is what \<open>malloc\<close> finds in the memory for the keys, \<^const>\<open>None\<close> when it fails: the first
  store then goes through a null pointer. Without \<open>O_TRUNC\<close> the files keep what they had before,
  \<open>old\<close> and \<open>old_txt\<close>, behind what is written; \<^const>\<open>None\<close> when \<open>open\<close> fails. The second \<open>assert\<close>
  after it looks at the wrong descriptor, so the program goes on without a text file, until the
  \<open>assert\<close> of its first \<open>write\<close> fails.
\<close>

definition gen_start :: "(nat \<Rightarrow> u64) \<Rightarrow> u32 \<Rightarrow> gen_state" where
  "gen_start keys max_unique = \<lparr>next_id = 1, unique_keys = List.map keys [0..<unat max_unique],
     unique_ctr = 0, rands = 0, urands = 0, bin_file = [], txt_file = []\<rparr>"

definition over_old :: "u8 list \<Rightarrow> u8 list \<Rightarrow> u8 list" where
  "over_old old new = new @ drop (length new) old"

definition generate ::
  "(gen_state \<Rightarrow> bool) \<Rightarrow> (nat \<Rightarrow> nat) \<Rightarrow> (nat \<Rightarrow> u64 option) \<Rightarrow> (nat \<Rightarrow> u64) \<Rightarrow> u64 \<Rightarrow> u32 \<Rightarrow> gen_state run" where
  "generate wr rnd urand keys totalops max_unique =
     run_bind (repeat MANDATORY_PUTS (mandatory_put wr rnd urand max_unique) (gen_start keys max_unique)) (\<lambda>g.
     run_bind (repeat (unat (totalops - of_nat MANDATORY_PUTS)) (random_op wr rnd urand max_unique) g) (\<lambda>g.
       Returns g))"

definition inputgen ::
  "(gen_state \<Rightarrow> bool) \<Rightarrow> (nat \<Rightarrow> nat) \<Rightarrow> (nat \<Rightarrow> u64 option) \<Rightarrow> (nat \<Rightarrow> u64) option \<Rightarrow> u8 list option \<Rightarrow>
    u8 list option \<Rightarrow> u64 \<Rightarrow> u32 \<Rightarrow> (u8 list \<times> u8 list) run" where
  "inputgen wr rnd urand keys old old_txt totalops max_unique =
     (case (old, old_txt, keys) of
        (Some bin, Some txt', Some keys') \<Rightarrow>
          run_bind (generate wr rnd urand keys' totalops max_unique) (\<lambda>g.
            Returns (over_old bin (bin_file g), over_old txt' (txt_file g)))
      | _ \<Rightarrow> Faults)"

section \<open>What is written\<close>

fun line_of :: "input_rec \<Rightarrow> u8 list" where
  "line_of (Put i k rs) = put_line i k rs"
| "line_of (Get i k) = get_del_line i k GET"
| "line_of (Del i k) = get_del_line i k DEL"

definition gen_ok :: "(nat \<Rightarrow> u64 option) \<Rightarrow> u32 \<Rightarrow> input_rec list \<Rightarrow> gen_state \<Rightarrow> bool" where
  "gen_ok urand max_unique recs g \<longleftrightarrow>
     bin_file g = file_of recs \<and> txt_file g = concat (List.map line_of recs)
     \<and> (\<forall>j < length recs. rec_id (recs ! j) = of_nat (j + 1)) \<and> next_id g = of_nat (length recs + 1)
     \<and> length (unique_keys g) = unat max_unique \<and> unique_ctr g \<le> max_unique
     \<and> set (take (unat (unique_ctr g)) (unique_keys g)) \<union> rec_key ` set recs \<subseteq> {k. \<exists>n. urand n = Some k}
     \<and> rec_key ` {r \<in> set recs. is_put r} \<subseteq> set (take (unat (unique_ctr g)) (unique_keys g))"

lemma gen_okD:
  assumes "gen_ok urand max_unique recs g"
  shows "bin_file g = file_of recs" "txt_file g = concat (List.map line_of recs)"
    and "j < length recs \<Longrightarrow> rec_id (recs ! j) = of_nat (j + 1)" "next_id g = of_nat (length recs + 1)"
    and "length (unique_keys g) = unat max_unique" "unique_ctr g \<le> max_unique"
    and "k \<in> set (take (unat (unique_ctr g)) (unique_keys g)) \<Longrightarrow> \<exists>n. urand n = Some k"
    and "r \<in> set recs \<Longrightarrow> \<exists>n. urand n = Some (rec_key r)"
    and "r \<in> set recs \<Longrightarrow> is_put r \<Longrightarrow> rec_key r \<in> set (take (unat (unique_ctr g)) (unique_keys g))"
  using assms unfolding gen_ok_def by blast+

text \<open>A record more.\<close>

lemma gen_ok_snoc:
  assumes "gen_ok urand max_unique recs g" "rec_id r = next_id g" "urand n = Some (rec_key r)"
    and "is_put r \<Longrightarrow> rec_key r \<in> set (take (unat (unique_ctr g)) (unique_keys g))"
    and "bin_file g' = bin_file g @ encode r" "txt_file g' = txt_file g @ line_of r" "next_id g' = next_id g + 1"
    and "unique_keys g' = unique_keys g" "unique_ctr g' = unique_ctr g"
  shows "gen_ok urand max_unique (recs @ [r]) g'"
  unfolding gen_ok_def assms(5-9)
proof (intro conjI)
  note D = gen_okD [OF assms(1)]
  show "bin_file g @ encode r = file_of (recs @ [r])" "txt_file g @ line_of r = concat (List.map line_of (recs @ [r]))"
    using D(1,2) by (simp_all add: file_of_def)
  show "\<forall>j < length (recs @ [r]). rec_id ((recs @ [r]) ! j) = of_nat (j + 1)"
    using D(3,4) assms(2) by (auto simp: nth_append less_Suc_eq)
  show "next_id g + 1 = of_nat (length (recs @ [r]) + 1)"
    using D(4) by simp
  show "set (take (unat (unique_ctr g)) (unique_keys g)) \<union> rec_key ` set (recs @ [r]) \<subseteq> {k. \<exists>n. urand n = Some k}"
    using D(7,8) assms(3) by auto
  show "rec_key ` {r' \<in> set (recs @ [r]). is_put r'} \<subseteq> set (take (unat (unique_ctr g)) (unique_keys g))"
    using D(9) assms(4) by auto
qed (use gen_okD [OF assms(1)] in blast)+

lemma write_put_ok:
  assumes "gen_ok urand max_unique recs g" "urand n = Some key"
    and "key \<in> set (take (unat (unique_ctr g)) (unique_keys g))"
  shows "\<exists>r. is_put r \<and> gen_ok urand max_unique (recs @ [r]) (write_put rnd key g)"
proof -
  let ?r = "Put (next_id g) key (\<lambda>i. rnd (rands g + i))"
  have "gen_ok urand max_unique (recs @ [?r]) (write_put rnd key g)"
    using assms(2,3) by (intro gen_ok_snoc [OF assms(1)]) (simp_all add: write_put_def Let_def)
  then show ?thesis
    by (intro exI [of _ ?r]) (simp add: is_put_def)
qed

lemma write_get_del_ok:
  assumes "gen_ok urand max_unique recs g" "urand n = Some key" "ty = GET \<or> ty = DEL"
  shows "\<exists>r. gen_ok urand max_unique (recs @ [r]) (write_get_del key ty g)"
proof -
  let ?r = "if ty = GET then Get (next_id g) key else Del (next_id g) key"
  have "gen_ok urand max_unique (recs @ [?r]) (write_get_del key ty g)"
    using assms(2,3) by (intro gen_ok_snoc [OF assms(1)])
      (auto simp: write_get_del_def is_put_def GET_def DEL_def PUT_def)
  then show ?thesis
    by blast
qed

lemma gen_ok_random [simp]:
  "gen_ok urand max_unique recs (g\<lparr>urands := n\<rparr>) = gen_ok urand max_unique recs g"
  "gen_ok urand max_unique recs (g\<lparr>rands := n\<rparr>) = gen_ok urand max_unique recs g"
  by (simp_all add: gen_ok_def)

text \<open>A key more.\<close>

lemma add_key_ok:
  assumes "gen_ok urand max_unique recs g" "urand n = Some key" "unat (unique_ctr g) < length (unique_keys g)"
  defines "g' \<equiv> g\<lparr>unique_keys := (unique_keys g)[unat (unique_ctr g) := key], unique_ctr := unique_ctr g + 1\<rparr>"
  shows "gen_ok urand max_unique recs g'" "key \<in> set (take (unat (unique_ctr g')) (unique_keys g'))"
proof -
  note D = gen_okD [OF assms(1)]
  have less: "unique_ctr g < max_unique"
    using assms(3) D(5) by (simp add: word_less_nat_alt)
  have "unat (unique_ctr g) + 1 < 2 ^ 32 \<longrightarrow> unat (unique_ctr g + 1) = unat (unique_ctr g) + 1"
    using unat_plus_1 by blast
  moreover have "unat (unique_ctr g) < unat max_unique" "unat max_unique < 2 ^ 32"
    using less unsigned_less [of max_unique, where ?'a = nat] by (simp_all add: word_less_nat_alt)
  ultimately have suc: "unat (unique_ctr g + 1) = Suc (unat (unique_ctr g))" "unique_ctr g + 1 \<le> max_unique"
    by (simp_all add: word_le_nat_alt)
  have keys: "set (take (unat (unique_ctr g')) (unique_keys g')) = insert key (set (take (unat (unique_ctr g)) (unique_keys g)))"
    using assms(3) suc(1) by (simp add: g'_def take_Suc_conv_app_nth)
  show "gen_ok urand max_unique recs g'"
    unfolding gen_ok_def keys using D suc(2) assms(2) by (auto simp: g'_def)
  show "key \<in> set (take (unat (unique_ctr g')) (unique_keys g'))"
    unfolding keys by simp
qed

lemma random_key_ok:
  assumes "gen_ok urand max_unique recs g" "random_key rnd g = Returns (key, g')"
  shows "gen_ok urand max_unique recs g'" "\<exists>n. urand n = Some key"
    "key \<in> set (take (unat (unique_ctr g')) (unique_keys g'))"
proof -
  let ?i = "(of_nat (rnd (rands g)) :: u32) mod unique_ctr g"
  have g': "g' = g\<lparr>rands := rands g + 1\<rparr>" "key = unique_keys g ! unat ?i" "unat ?i < length (unique_keys g)"
    "unique_ctr g \<noteq> 0"
    using assms(2) by (auto simp: random_key_def Let_def split: if_splits)
  have "unat ?i < unat (unique_ctr g)"
    using g'(4) by (simp add: unat_mod word_neq_0_conv unat_gt_0)
  then show keys: "key \<in> set (take (unat (unique_ctr g')) (unique_keys g'))"
    using g'(1-3) by (auto simp: in_set_conv_nth intro!: exI [of _ "unat ?i"])
  show "gen_ok urand max_unique recs g'"
    using assms(1) g'(1) by simp
  then show "\<exists>n. urand n = Some key"
    using gen_okD(7) keys by blast
qed

lemma write_put_ctr: "(write_put rnd key g)\<lparr>unique_ctr := c\<rparr> = write_put rnd key (g\<lparr>unique_ctr := c\<rparr>)"
  by (simp add: write_put_def Let_def)

lemma fresh_put_ok:
  assumes "gen_ok urand max_unique recs g" "urand n = Some key" "unat (unique_ctr g) < length (unique_keys g)"
  shows "\<exists>r. is_put r \<and> gen_ok urand max_unique (recs @ [r]) (write_put rnd key
    (g\<lparr>unique_keys := (unique_keys g)[unat (unique_ctr g) := key], unique_ctr := unique_ctr g + 1\<rparr>))"
  using write_put_ok [where urand = urand, OF add_key_ok(1) [OF assms] assms(2) add_key_ok(2) [OF assms]] .

lemma mandatory_put_ok:
  assumes "gen_ok urand max_unique recs g" "mandatory_put wr rnd urand max_unique g = Returns g'"
  shows "\<exists>r. is_put r \<and> gen_ok urand max_unique (recs @ [r]) g'"
proof -
  obtain key where k: "urand (urands g) = Some key" "unat (unique_ctr g) < length (unique_keys g)"
    and g': "g' = write_put rnd key (g\<lparr>urands := urands g + 1, unique_keys := (unique_keys g)[unat (unique_ctr g) := key],
        unique_ctr := unique_ctr g + 1\<rparr>)"
    using assms(2) by (auto simp: mandatory_put_def read_random_u64_def store_key_def check_def write_put_def Let_def
        split: option.splits if_splits)
  show ?thesis
    unfolding g' using fresh_put_ok [of urand max_unique recs "g\<lparr>urands := urands g + 1\<rparr>" "urands g" key] assms(1) k
    by simp
qed

lemma random_op_ok:
  assumes "gen_ok urand max_unique recs g" "random_op wr rnd urand max_unique g = Returns g'"
  shows "\<exists>r. gen_ok urand max_unique (recs @ [r]) g'"
proof -
  let ?g = "g\<lparr>rands := rands g + 1\<rparr>"
  have ok: "gen_ok urand max_unique recs ?g"
    using assms(1) by simp
  note key = random_key_ok [OF ok]
  consider (fresh) key where "urand (urands g) = Some key" "unat (unique_ctr g) < length (unique_keys g)"
      "g' = write_put rnd key (?g\<lparr>urands := urands g + 1, unique_keys := (unique_keys g)[unat (unique_ctr g) := key],
        unique_ctr := unique_ctr g + 1\<rparr>)"
    | (put) key g1 where "random_key rnd ?g = Returns (key, g1)" "g' = write_put rnd key g1"
    | (old) key g1 ty where "random_key rnd ?g = Returns (key, g1)" "g' = write_get_del key ty g1" "ty = GET \<or> ty = DEL"
    | (new) key ty where "urand (urands g) = Some key" "g' = write_get_del key ty (?g\<lparr>urands := urands g + 1\<rparr>)" "ty = GET \<or> ty = DEL"
    using assms(2) unfolding random_op_def Let_def read_random_u64_def store_key_def check_def
    by (auto simp: run_bind_eq_Returns split: if_splits option.splits)
  then show ?thesis
  proof cases
    case fresh
    then show ?thesis
      using fresh_put_ok [of urand max_unique recs "?g\<lparr>urands := urands g + 1\<rparr>" "urands g" key rnd] assms(1)
      by auto
  next
    case put
    then show ?thesis
      using key [OF put(1)] write_put_ok by blast
  next
    case old
    then show ?thesis
      using key [OF old(1)] write_get_del_ok by blast
  next
    case new
    then show ?thesis
      using write_get_del_ok [of urand max_unique recs "?g\<lparr>urands := urands g + 1\<rparr>" "urands g" key ty] assms(1)
      by simp
  qed
qed

lemma repeat_ok:
  assumes "\<And>recs g g'. gen_ok urand max_unique recs g \<Longrightarrow> f g = Returns g' \<Longrightarrow>
    \<exists>r. P r \<and> gen_ok urand max_unique (recs @ [r]) g'"
  shows "gen_ok urand max_unique recs g \<Longrightarrow> repeat n f g = Returns g' \<Longrightarrow>
    \<exists>rs. length rs = n \<and> (\<forall>r \<in> set rs. P r) \<and> gen_ok urand max_unique (recs @ rs) g'"
proof (induction n arbitrary: recs g)
  case (Suc n)
  then obtain g1 where g1: "f g = Returns g1" "repeat n f g1 = Returns g'"
    by (cases "f g") simp_all
  obtain r where r: "P r" "gen_ok urand max_unique (recs @ [r]) g1"
    using assms [OF Suc.prems(1) g1(1)] by blast
  obtain rs where "length rs = n" "\<forall>r \<in> set rs. P r" "gen_ok urand max_unique ((recs @ [r]) @ rs) g'"
    using Suc.IH [OF r(2) g1(2)] by blast
  then show ?case
    using r(1) by (intro exI [of _ "r # rs"]) simp
qed simp

lemma gen_start_ok: "gen_ok urand max_unique [] (gen_start keys max_unique)"
  by (simp add: gen_ok_def gen_start_def file_of_def)

lemma inputgen_ok:
  assumes "inputgen wr rnd urand (Some keys) (Some old) (Some old_txt) totalops max_unique = Returns (b, t)"
  obtains recs g where "length recs = 100 + unat (totalops - 100)" "\<forall>r \<in> set (take 100 recs). is_put r"
    "gen_ok urand max_unique recs g" "b = over_old old (bin_file g)" "t = over_old old_txt (txt_file g)"
proof -
  obtain g1 g where g1: "repeat 100 (mandatory_put wr rnd urand max_unique) (gen_start keys max_unique) = Returns g1"
    and g: "repeat (unat (totalops - 100)) (random_op wr rnd urand max_unique) g1 = Returns g"
    and bt: "b = over_old old (bin_file g)" "t = over_old old_txt (txt_file g)"
    using assms by (auto simp: inputgen_def generate_def MANDATORY_PUTS_def run_bind_eq_Returns)
  obtain rs where rs: "length rs = 100" "\<forall>r \<in> set rs. is_put r" "gen_ok urand max_unique rs g1"
    using repeat_ok [where P = is_put, OF _ gen_start_ok g1, of urand] mandatory_put_ok by fastforce
  obtain rs' where "length rs' = unat (totalops - 100)" "gen_ok urand max_unique (rs @ rs') g"
    using repeat_ok [where P = "\<lambda>r. True", OF _ rs(3) g] random_op_ok by blast
  then show thesis
    using that [of "rs @ rs'" g] rs bt by simp
qed

section \<open>When it stops\<close>

lemma mandatory_put_ctr:
  "mandatory_put wr rnd urand max_unique g = Returns g' \<Longrightarrow> unique_ctr g' = unique_ctr g + 1 \<and> unique_ctr g < max_unique"
  by (auto simp: mandatory_put_def read_random_u64_def store_key_def check_def write_put_def Let_def
      run_bind_eq_Returns split: option.splits if_splits)

lemma mandatory_put_returns:
  assumes "urand (urands g) = Some key" "unique_ctr g < max_unique" "length (unique_keys g) = unat max_unique"
    and "\<And>g. wr g"
  shows "\<exists>g'. mandatory_put wr rnd urand max_unique g = Returns g' \<and> length (unique_keys g') = unat max_unique"
  using assms by (simp add: mandatory_put_def read_random_u64_def store_key_def check_def write_put_def Let_def
      word_less_nat_alt)

lemma mandatory_put_not_hangs: "mandatory_put wr rnd urand max_unique g \<noteq> Hangs"
  by (auto simp: mandatory_put_def read_random_u64_def store_key_def check_def Let_def split: option.splits)

lemma mandatory_puts_stop:
  "repeat n (mandatory_put wr rnd urand max_unique) g = Faults
    \<or> (\<exists>g'. repeat n (mandatory_put wr rnd urand max_unique) g = Returns g' \<and> unique_ctr g' = unique_ctr g + of_nat n)"
proof (induction n arbitrary: g)
  case (Suc n)
  show ?case
  proof (cases "mandatory_put wr rnd urand max_unique g")
    case (Returns g1)
    then show ?thesis
      using Suc [of g1] mandatory_put_ctr [OF Returns] by (auto simp: add.assoc)
  qed (use mandatory_put_not_hangs [of wr rnd urand max_unique g] in auto)
qed simp

lemma mandatory_puts_return:
  assumes "\<forall>i. urand i \<noteq> None" "\<And>g. wr g"
  shows "unat (unique_ctr g) + n \<le> unat max_unique \<Longrightarrow> length (unique_keys g) = unat max_unique \<Longrightarrow>
    \<exists>g'. repeat n (mandatory_put wr rnd urand max_unique) g = Returns g'"
proof (induction n arbitrary: g)
  case (Suc n)
  have less: "unique_ctr g < max_unique"
    using Suc.prems(1) by (simp add: word_less_nat_alt)
  obtain key where "urand (urands g) = Some key"
    using assms by blast
  from mandatory_put_returns [of urand g key max_unique wr rnd, OF this less Suc.prems(2) assms(2)] obtain g1 where
    g1: "mandatory_put wr rnd urand max_unique g = Returns g1" "length (unique_keys g1) = unat max_unique"
    by blast
  have "unat (unique_ctr g1) = unat (unique_ctr g) + 1"
    using mandatory_put_ctr [OF g1(1)] unat_plus_1 [of "unique_ctr g"] Suc.prems(1)
      unsigned_less [of max_unique, where ?'a = nat] by simp
  then show ?case
    using Suc.IH [of g1] Suc.prems g1 by simp
qed simp

section \<open>The programs together\<close>

lemma numbered_ids:
  "\<forall>j < length recs. rec_id (recs ! j) = of_nat (j + 1) \<Longrightarrow>
    List.map rec_id recs = List.map of_nat [1..<length recs + 1]"
  by (intro nth_equalityI) (auto simp: nth_upt simp del: upt_Suc)

lemma ascending_ids:
  assumes "\<forall>j < length recs. rec_id (recs ! j) = of_nat (j + 1)" "length recs < 2 ^ 32 - 1"
  shows "sorted_wrt (<) (List.map rec_id recs)" "\<forall>r \<in> set recs. (ucast (rec_id r) :: u32) \<noteq> - 1"
proof -
  have unat: "unat (of_nat (j + 1) :: u64) = j + 1" if "j < length recs" for j
    using assms(2) that by (simp add: unsigned_of_nat take_bit_nat_eq_self del: of_nat_add of_nat_Suc)
  show "sorted_wrt (<) (List.map rec_id recs)"
    unfolding sorted_wrt_iff_nth_less
  proof (intro allI impI)
    fix i j
    assume "i < j" "j < length (List.map rec_id recs)"
    then show "List.map rec_id recs ! i < List.map rec_id recs ! j"
      using assms(1) unat [of i] unat [of j] by (simp add: word_less_nat_alt del: of_nat_add of_nat_Suc)
  qed
  show "\<forall>r \<in> set recs. (ucast (rec_id r) :: u32) \<noteq> - 1"
  proof
    fix r
    assume "r \<in> set recs"
    then obtain j where j: "j < length recs" "r = recs ! j"
      by (auto simp: in_set_conv_nth)
    have "unat (ucast (rec_id r) :: u32) = j + 1"
      using assms unat [OF j(1)] j by (simp add: unsigned_ucast_eq take_bit_nat_eq_self del: of_nat_add of_nat_Suc)
    moreover have "unat (- 1 :: u32) = 2 ^ 32 - 1"
      by (simp add: unsigned_minus_1_eq_mask mask_eq_exp_minus_1)
    ultimately show "(ucast (rec_id r) :: u32) \<noteq> - 1"
      using j(1) assms(2) by (metis Suc_eq_plus1 less_antisym not_less_eq)
  qed
qed

lemma expected_ids: "List.map fst (expected recs S) = List.map rec_id recs"
  by (induction recs S rule: expected.induct) simp_all

lemma keys_after_put: "keys_after recs \<subseteq> rec_key ` {r \<in> set recs. is_put r}"
proof -
  have "fold key_effect recs S \<subseteq> rec_key ` {r \<in> set recs. is_put r} \<union> S" for S
  proof (induction recs arbitrary: S)
    case (Cons r recs)
    have "key_effect r S \<subseteq> (if is_put r then insert (rec_key r) S else S)"
      by (cases r) (auto simp: is_put_def)
    then show ?case
      using Cons [of "key_effect r S"] by (auto split: if_splits)
  qed simp
  then show ?thesis
    unfolding keys_after_def by blast
qed

lemma gen_ok_keys: "gen_ok urand max_unique recs g \<Longrightarrow> card (rec_key ` {r \<in> set recs. is_put r}) \<le> unat max_unique"
proof -
  assume ok: "gen_ok urand max_unique recs g"
  have "card (rec_key ` {r \<in> set recs. is_put r}) \<le> card (set (take (unat (unique_ctr g)) (unique_keys g)))"
    using gen_okD(9) [OF ok] by (intro card_mono) auto
  also have "\<dots> \<le> length (unique_keys g)"
    using card_length [of "take (unat (unique_ctr g)) (unique_keys g)"] by simp
  finally show ?thesis
    using gen_okD(5) [OF ok] by simp
qed

section \<open>Properties\<close>

lemma inputgen_records:
  assumes "inputgen wr rnd urand (Some keys) (Some old) (Some old_txt) totalops max_unique = Returns (file, text)" "100 \<le> totalops"
  obtains recs where "length recs = unat totalops" "file = over_old old (file_of recs)"
    "text = over_old old_txt (concat (List.map line_of recs))"
    "\<forall>j < length recs. rec_id (recs ! j) = of_nat (j + 1)" "\<forall>r \<in> set (take 100 recs). is_put r"
    "\<forall>r \<in> set recs. \<exists>n. urand n = Some (rec_key r)"
    "card (rec_key ` {r \<in> set recs. is_put r}) \<le> unat max_unique"
proof -
  obtain recs g where g: "length recs = 100 + unat (totalops - 100)" "\<forall>r \<in> set (take 100 recs). is_put r"
    "gen_ok urand max_unique recs g" "file = over_old old (bin_file g)" "text = over_old old_txt (txt_file g)"
    using inputgen_ok [OF assms(1)] by metis
  have "unat (totalops - 100) + 100 = unat totalops"
    using assms(2) by (simp add: unat_sub word_le_nat_alt)
  then show thesis
    using that [of recs] g gen_okD [OF g(3)] gen_ok_keys [OF g(3)] by simp
qed

text \<open>A small run of the generator.\<close>

lemma example_gen:
  "\<exists>file text. inputgen (\<lambda>g. True) (\<lambda>n. 0) (\<lambda>n. Some 5) (Some (\<lambda>n. 0)) (Some []) (Some []) 100 200 = Returns (file, text)"
proof -
  have "length (unique_keys (gen_start (\<lambda>n. 0) 200)) = unat (200 :: u32)" "unique_ctr (gen_start (\<lambda>n. 0) 200) = 0"
    by (simp_all add: gen_start_def)
  then obtain g where "repeat 100 (mandatory_put (\<lambda>g. True) (\<lambda>n. 0) (\<lambda>n. Some 5) 200) (gen_start (\<lambda>n. 0) 200) = Returns g"
    using mandatory_puts_return [of "\<lambda>n. Some 5" "\<lambda>g. True" "gen_start (\<lambda>n. 0) 200" 100 200 "\<lambda>n. 0"] by auto
  then show ?thesis
    by (simp add: inputgen_def generate_def MANDATORY_PUTS_def)
qed

text \<open>
  C38: What \<open>inputgen\<close> writes for at least 100 operations when it does not fail, whatever the random
  numbers are: one record for each of the
  \<open>totalops\<close> operations, numbered from 1, in both files; the first 100 are \<open>PUT\<close>s, all keys come
  from \<open>/dev/urandom\<close>, and no more than \<open>max_unique\<close> different keys are stored. What the files had
  behind that stays in them.
\<close>

theorem inputgen_writes:
  assumes "inputgen wr rnd urand (Some keys) (Some old) (Some old_txt) totalops max_unique = Returns (file, text)" "100 \<le> totalops"
  shows "\<exists>recs. file = file_of recs @ drop (length (file_of recs)) old
    \<and> text = over_old old_txt (concat (List.map line_of recs))
    \<and> List.map rec_id recs = List.map of_nat [1..<unat totalops + 1]
    \<and> (\<forall>r \<in> set (take 100 recs). is_put r)
    \<and> (\<forall>r \<in> set recs. \<exists>n. urand n = Some (rec_key r))
    \<and> card (rec_key ` {r \<in> set recs. is_put r}) \<le> unat max_unique"
proof -
  obtain recs where recs: "length recs = unat totalops" "file = over_old old (file_of recs)"
    "text = over_old old_txt (concat (List.map line_of recs))"
    "\<forall>j < length recs. rec_id (recs ! j) = of_nat (j + 1)" "\<forall>r \<in> set (take 100 recs). is_put r"
    "\<forall>r \<in> set recs. \<exists>n. urand n = Some (rec_key r)"
    "card (rec_key ` {r \<in> set recs. is_put r}) \<le> unat max_unique"
    using inputgen_records [OF assms] .
  have "List.map rec_id recs = List.map of_nat [1..<unat totalops + 1]"
    using numbered_ids [OF recs(4)] recs(1) by simp
  then show ?thesis
    using recs by (intro exI [of _ recs]) (simp add: over_old_def)
qed

theorem inputgen_writes_witness:
  "\<exists>file text recs. inputgen (\<lambda>g. True) (\<lambda>n. 0) (\<lambda>n. Some 5) (Some (\<lambda>n. 0)) (Some []) (Some []) 100 200 = Returns (file, text)
    \<and> file = file_of recs \<and> List.map rec_id recs = List.map of_nat [1..<101]"
proof -
  obtain f t where g: "inputgen (\<lambda>g. True) (\<lambda>n. 0) (\<lambda>n. Some 5) (Some (\<lambda>n. 0)) (Some []) (Some []) 100 200 = Returns (f, t)"
    using example_gen by blast
  have n: "unat (100 :: u64) + 1 = 101"
    by simp
  from inputgen_writes [OF g, unfolded n] obtain recs where
    "f = file_of recs @ drop (length (file_of recs)) []" "List.map rec_id recs = List.map of_nat [1..<101]"
    by blast
  then show ?thesis
    using g unfolding drop_Nil append_Nil2 by blast
qed

lemma generated_recs:
  assumes "inputgen wr rnd urand (Some keys) (Some []) (Some old_txt) totalops max_unique = Returns (f, t)"
    and "100 \<le> totalops" "\<forall>n. urand n \<noteq> Some 0" "totalops < sz" "sz \<le> 100000001"
  obtains recs where "recs_ok recs" "f = file_of recs" "length (filter is_put recs) < unat sz"
    "length recs = unat totalops" "List.map rec_id recs = List.map of_nat [1..<unat totalops + 1]"
    "card (rec_key ` {r \<in> set recs. is_put r}) \<le> unat max_unique"
proof -
  obtain recs where recs: "length recs = unat totalops" "f = over_old [] (file_of recs)"
    "\<forall>j < length recs. rec_id (recs ! j) = of_nat (j + 1)"
    "\<forall>r \<in> set recs. \<exists>n. urand n = Some (rec_key r)"
    "card (rec_key ` {r \<in> set recs. is_put r}) \<le> unat max_unique"
    by (rule inputgen_records [OF assms(1,2)]) (rule that)
  have "length recs < unat sz" "unat sz \<le> 100000001"
    using assms(4,5) recs(1) by (simp_all add: word_less_nat_alt word_le_nat_alt)
  then have bound: "length recs < 2 ^ 32 - 1" and puts: "length (filter is_put recs) < unat sz"
    using le_less_trans [OF length_filter_le [of is_put recs]] by simp_all
  have "recs_ok recs"
    using ascending_ids [OF recs(3) bound] assms(3) recs(4) unfolding recs_ok_def by metis
  then show thesis
    using that [of recs] recs(1,2,5) puts numbered_ids [OF recs(3)] by (simp add: over_old_def)
qed

text \<open>
  C5: The generator, the threads and the hash table together. A fresh input file of \<open>inputgen\<close>
  for at least 100 operations, whose keys are not 0 and which has 768 bytes behind it in its last
  page, is processed by up to \<open>THREADS\<close> threads under any schedule with any spurious wake-ups, with
  a table of more slots than operations: when no thread can go on, each of the operations has been
  logged once, the table is consistent, and no more than \<open>max_unique\<close> keys are in it.
\<close>

theorem generated_file_processed:
  assumes "inputgen wr rnd urand (Some keys) (Some []) (Some old_txt) totalops max_unique = Returns (file, text)"
    and "100 \<le> totalops" "\<forall>n. urand n \<noteq> Some 0"
    and "hash_main (Some file) mmap junk p sz num = Returns s0" "totalops < sz"
    and "mmap (length file) = Some (b, pad)" "24 * THREADS \<le> pad"
    and "par_run s0 k w s" "\<forall>t < length (workers s). par_step t s = None"
  shows "image_mset fst (mset (concat (List.map wlog (workers s)))) = mset (List.map of_nat [1..<unat totalops + 1])
    \<and> card (dom (hmap (htable s))) \<le> unat max_unique
    \<and> dump_hash_table (htable s) = Returns ()"
proof -
  have "sz \<le> 100000001"
    using assms(4,6) by (simp add: hash_main_def init_input_manager_def HASH_TABLE_MAX_def Let_def split: if_splits)
  then obtain recs where recs: "recs_ok recs" "file = file_of recs" "length (filter is_put recs) < unat sz"
    "List.map rec_id recs = List.map of_nat [1..<unat totalops + 1]"
    "card (rec_key ` {r \<in> set recs. is_put r}) \<le> unat max_unique"
    by (rule generated_recs [OF assms(1-3,5)]) (rule that)
  note final = threads_final [OF recs(1) assms(4,6) [unfolded recs(2)] assms(7) recs(3) assms(8,9)]
  have "image_mset fst (mset (concat (List.map wlog (workers s)))) = mset (List.map rec_id recs)"
    using expected_ids [of recs "{}"] unfolding final(1) by (simp flip: mset_map)
  moreover have "card (dom (hmap (htable s))) \<le> card (rec_key ` {r \<in> set recs. is_put r})"
    using keys_after_put [of recs] by (intro card_mono) (simp_all add: final(2) dom_map_after keys_after_def)
  ultimately show ?thesis
    using final(3) recs(4,5) by simp
qed

theorem generated_file_processed_witness:
  "\<exists>f t s0 k s. inputgen (\<lambda>g. True) (\<lambda>n. 0) (\<lambda>n. Some 5) (Some (\<lambda>n. 0)) (Some []) (Some []) 100 200 = Returns (f, t)
    \<and> hash_main (Some f) (\<lambda>n. Some (0, 768)) (\<lambda>t. example_op 0 0) 0 101 2 = Returns s0
    \<and> par_run s0 k 0 s \<and> image_mset fst (mset (concat (List.map wlog (workers s)))) = mset (List.map of_nat [1..<101])"
proof -
  obtain f t where g: "inputgen (\<lambda>g. True) (\<lambda>n. 0) (\<lambda>n. Some 5) (Some (\<lambda>n. 0)) (Some []) (Some []) 100 200 = Returns (f, t)"
    using example_gen by blast
  obtain s0 where s0: "hash_main (Some f) (\<lambda>n. Some (0, 768)) (\<lambda>t. example_op 0 0) 0 101 2 = Returns s0"
    by (simp add: hash_main_def init_input_manager_def HASH_TABLE_MAX_def THREADS_def Let_def)
  have n: "unat (100 :: u64) + 1 = 101" "(100 :: u64) < 101" "24 * THREADS \<le> 768"
    by (simp_all add: THREADS_def)
  obtain recs where recs: "recs_ok recs" "f = file_of recs" "length (filter is_put recs) < unat (101 :: u64)"
    by (rule generated_recs [OF g _ _ n(2)]) simp_all
  obtain k s where ks: "par_run s0 k 0 s" "\<forall>t < length (workers s). par_step t s = None"
    using hash_main_ends [OF recs(1) s0 [unfolded recs(2)] refl n(3) recs(3)] by blast
  have "image_mset fst (mset (concat (List.map wlog (workers s)))) = mset (List.map of_nat [1..<101])"
    using generated_file_processed [OF g _ _ s0 n(2) refl n(3) ks] unfolding n(1) by simp
  then show ?thesis
    using g s0 ks(1) by blast
qed

text \<open>
  \<open>inputgen\<close> fails, by an assertion or by a store behind \<open>unique_keys\<close>, when there is no room
  for the keys of the 100 mandatory \<open>PUT\<close>s.
\<close>

theorem inputgen_needs_keys:
  assumes "max_unique < 100"
  shows "inputgen wr rnd urand keys old old_txt totalops max_unique = Faults"
proof -
  let ?g = "\<lambda>keys. gen_start keys max_unique"
  have "repeat 100 (mandatory_put wr rnd urand max_unique) (?g keys) \<noteq> Returns g" for g keys
  proof
    assume g: "repeat 100 (mandatory_put wr rnd urand max_unique) (?g keys) = Returns g"
    then obtain rs where "gen_ok urand max_unique rs g"
      using repeat_ok [where P = is_put, OF _ gen_start_ok g, of urand] mandatory_put_ok by fastforce
    then have "unique_ctr g \<le> max_unique"
      by (rule gen_okD)
    moreover have "unique_ctr g = 100"
      using mandatory_puts_stop [of 100 wr rnd urand max_unique "?g keys"] g by (simp add: gen_start_def)
    ultimately show False
      using assms by simp
  qed
  then have "repeat 100 (mandatory_put wr rnd urand max_unique) (?g keys) = Faults" for keys
    using mandatory_puts_stop [of 100 wr rnd urand max_unique "?g keys"] by blast
  then show ?thesis
    by (simp add: inputgen_def generate_def MANDATORY_PUTS_def split: option.split)
qed

theorem inputgen_needs_keys_witness:
  "inputgen (\<lambda>g. True) (\<lambda>n. 0) (\<lambda>n. Some 5) (Some (\<lambda>n. 0)) (Some []) (Some []) 300 33 = Faults"
  using inputgen_needs_keys [of 33] by simp

end
