(* ===== verification/RwLock.thy ===== *)
theory RwLock
  imports Prelude
begin

text \<open>
  The reader-writer lock of \<open>src/Assignment4/rwlock.c\<close> over the \<open>atomic_add\<close> of
  \<open>Assignment4_Problem_Statement/part-2/common.h\<close>. The threads interleave at the granularity of
  the atomic additions; a thread is in the phase given by the next addition it performs.
\<close>

section \<open>The code\<close>

text \<open>The result is computed from the sign and the zero flag the addition sets.\<close>

definition atomic_add :: "i64 \<Rightarrow> i64 \<Rightarrow> i32 \<times> i64" where
  "atomic_add value val =
     (let v = value + val in (if sint v < 0 then - 1 else if v = 0 then 0 else 1, v))"

definition WRITER :: i64 where
  "WRITER = 0x1000000000000"

definition init_rwlock :: i64 where
  "init_rwlock = WRITER"

text \<open>
  \<open>Write_Try\<close>, \<open>Read_Try\<close>: at the test of the loop of \<open>write_lock\<close> and \<open>read_lock\<close>.
  \<open>Write_Back\<close>, \<open>Read_Back\<close>: in its body. \<open>Writing\<close>, \<open>Reading\<close>: behind the loop, until
  \<open>write_unlock\<close> or \<open>read_unlock\<close>.
\<close>

datatype phase = Outside | Write_Try | Write_Back | Writing | Read_Try | Read_Back | Reading

definition write_lock_test :: "i64 \<Rightarrow> phase \<times> i64" where
  "write_lock_test value =
     (let (r, v) = atomic_add value (- WRITER) in (if r \<noteq> 0 then Write_Back else Writing, v))"

definition write_lock_body :: "i64 \<Rightarrow> phase \<times> i64" where
  "write_lock_body value = (Write_Try, snd (atomic_add value WRITER))"

definition write_unlock :: "i64 \<Rightarrow> phase \<times> i64" where
  "write_unlock value = (Outside, snd (atomic_add value WRITER))"

definition read_lock_test :: "i64 \<Rightarrow> phase \<times> i64" where
  "read_lock_test value =
     (let (r, v) = atomic_add value (- 1) in (if r = - 1 then Read_Back else Reading, v))"

definition read_lock_body :: "i64 \<Rightarrow> phase \<times> i64" where
  "read_lock_body value = (Read_Try, snd (atomic_add value 1))"

definition read_unlock :: "i64 \<Rightarrow> phase \<times> i64" where
  "read_unlock value = (Outside, snd (atomic_add value 1))"

text \<open>The next addition of a thread; outside of the lock there is none.\<close>

fun lock_action :: "phase \<Rightarrow> i64 \<Rightarrow> phase \<times> i64" where
  "lock_action Outside value = (Outside, value)"
| "lock_action Write_Try value = write_lock_test value"
| "lock_action Write_Back value = write_lock_body value"
| "lock_action Writing value = write_unlock value"
| "lock_action Read_Try value = read_lock_test value"
| "lock_action Read_Back value = read_lock_body value"
| "lock_action Reading value = read_unlock value"

section \<open>Interleavings\<close>

type_synonym lock_state = "phase list \<times> i64"

inductive lock_step :: "lock_state \<Rightarrow> lock_state \<Rightarrow> bool" where
  call_write: "i < length ts \<Longrightarrow> ts ! i = Outside \<Longrightarrow> lock_step (ts, v) (ts[i := Write_Try], v)"
| call_read: "i < length ts \<Longrightarrow> ts ! i = Outside \<Longrightarrow> lock_step (ts, v) (ts[i := Read_Try], v)"
| add: "i < length ts \<Longrightarrow> lock_action (ts ! i) v = (p, v') \<Longrightarrow> lock_step (ts, v) (ts[i := p], v')"

inductive_cases lock_stepE: "lock_step (ts, v) s'"

definition lock_start :: "nat \<Rightarrow> lock_state" where
  "lock_start n = (replicate n Outside, init_rwlock)"

definition lock_reachable :: "nat \<Rightarrow> lock_state \<Rightarrow> bool" where
  "lock_reachable n s \<longleftrightarrow> lock_step\<^sup>*\<^sup>* (lock_start n) s"

section \<open>The invariant\<close>

text \<open>
  What a thread has subtracted from the value, in units of readers; a writer counts \<open>2 ^ 48\<close>.
\<close>

fun weight :: "phase \<Rightarrow> int" where
  "weight Write_Back = 2 ^ 48"
| "weight Writing = 2 ^ 48"
| "weight Read_Back = 1"
| "weight Reading = 1"
| "weight _ = 0"

definition exclusive :: "phase list \<Rightarrow> bool" where
  "exclusive ts \<longleftrightarrow> count_list ts Writing \<le> 1 \<and> (Writing \<in> set ts \<longrightarrow> Reading \<notin> set ts)"

definition lock_inv :: "nat \<Rightarrow> lock_state \<Rightarrow> bool" where
  "lock_inv n s \<longleftrightarrow>
     (case s of (ts, v) \<Rightarrow> length ts = n \<and> n \<le> 2 ^ 14
        \<and> sint v = 2 ^ 48 - (\<Sum>t\<leftarrow>ts. weight t) \<and> exclusive ts)"

lemma weight_bounds: "0 \<le> weight p" "weight p \<le> 2 ^ 48"
  by (cases p; simp)+

lemma sum_weight_bounds:
  "0 \<le> (\<Sum>t\<leftarrow>ts. weight t)" "(\<Sum>t\<leftarrow>ts. weight t) \<le> 2 ^ 48 * int (length ts)"
  by (induction ts) (use weight_bounds in \<open>auto simp: algebra_simps intro: add_mono\<close>)

lemma sum_weight_update:
  "i < length ts \<Longrightarrow>
    (\<Sum>t\<leftarrow>ts[i := p]. weight t) = (\<Sum>t\<leftarrow>ts. weight t) - weight (ts ! i) + weight p"
  using sum_list_map_update [of i ts weight p] by simp

lemma sum_weight_ge: "p \<in> set ts \<Longrightarrow> weight p \<le> (\<Sum>t\<leftarrow>ts. weight t)"
proof (induction ts)
  case (Cons t ts)
  then show ?case
    using sum_weight_bounds(1) [of ts] weight_bounds(1) [of t] by auto
qed simp

text \<open>No overflow: the sum of two numbers below \<open>2 ^ 62\<close>.\<close>

lemma sint_add_small:
  fixes a b :: i64
  assumes "- (2 ^ 63) \<le> sint a + sint b" "sint a + sint b < 2 ^ 63"
  shows "sint (a + b) = sint a + sint b"
  using assms by (simp add: sint_word_ariths signed_take_bit_int_eq_self)

lemma sint_consts [simp]:
  "sint WRITER = 2 ^ 48" "sint (- WRITER) = - (2 ^ 48)"
  by (simp_all add: WRITER_def)


lemma exclusive_leave:
  assumes "exclusive ts" "i < length ts" "p \<noteq> Writing" "p \<noteq> Reading"
  shows "exclusive (ts[i := p])"
proof -
  have "set (ts[i := p]) \<subseteq> insert p (set ts)"
    by (rule set_update_subset_insert)
  with assms count_list_update [OF assms(2), of p Writing] show ?thesis
    unfolding exclusive_def by auto
qed

lemma exclusive_write:
  assumes "i < length ts" "Writing \<notin> set ts" "Reading \<notin> set ts"
  shows "exclusive (ts[i := Writing])"
proof -
  have "set (ts[i := Writing]) \<subseteq> insert Writing (set ts)"
    by (rule set_update_subset_insert)
  moreover have "count_list ts Writing = 0"
    using assms(2) by (simp add: count_list_0_iff)
  ultimately show ?thesis
    using assms count_list_update [OF assms(1), of Writing Writing] unfolding exclusive_def by auto
qed

lemma exclusive_read:
  assumes "i < length ts" "Writing \<notin> set ts"
  shows "exclusive (ts[i := Reading])"
proof -
  have "set (ts[i := Reading]) \<subseteq> insert Reading (set ts)"
    by (rule set_update_subset_insert)
  with assms(2) have "Writing \<notin> set (ts[i := Reading])"
    by auto
  then show ?thesis
    by (simp add: exclusive_def count_list_0_iff)
qed

lemma lock_inv_bounds:
  assumes "lock_inv n (ts, v)"
  shows "2 ^ 48 - 2 ^ 62 \<le> sint v" "sint v \<le> 2 ^ 48"
proof -
  have "int (length ts) \<le> 2 ^ 14"
    using assms by (simp add: lock_inv_def)
  then have "(\<Sum>t\<leftarrow>ts. weight t) \<le> 2 ^ 62"
    using sum_weight_bounds(2) [of ts] by simp
  then show "2 ^ 48 - 2 ^ 62 \<le> sint v" "sint v \<le> 2 ^ 48"
    using assms sum_weight_bounds(1) [of ts] by (simp_all add: lock_inv_def)
qed

lemma lock_add:
  assumes "lock_inv n (ts, v)" "- (2 ^ 48) \<le> sint d" "sint d \<le> 2 ^ 48"
  shows "sint (v + d) = sint v + sint d"
  using lock_inv_bounds [OF assms(1)] assms(2,3) by (intro sint_add_small) simp_all

text \<open>When a thread that tries gets the lock.\<close>

lemma write_lock_test_result:
  assumes "lock_inv n (ts, v)"
  shows "write_lock_test v =
    (if \<forall>t \<in> set ts. weight t = 0 then Writing else Write_Back, v - WRITER)"
proof -
  have s: "sint (v + - WRITER) = - (\<Sum>t\<leftarrow>ts. weight t)"
    using lock_add [OF assms, of "- WRITER"] assms by (simp add: lock_inv_def)
  have z: "(\<Sum>t\<leftarrow>ts. weight t) = 0 \<longleftrightarrow> (\<forall>t \<in> set ts. weight t = 0)"
    using weight_bounds(1) by (subst sum_list_nonneg_eq_0_iff) auto
  have "v + - WRITER = 0 \<longleftrightarrow> (\<forall>t \<in> set ts. weight t = 0)"
    unfolding signed_eq_0_iff [of "v + - WRITER", where ?'a = int, symmetric] s z [symmetric] by simp
  then show ?thesis
    using s z sum_weight_bounds(1) [of ts]
    by (auto simp: write_lock_test_def atomic_add_def Let_def)
qed

lemma read_lock_test_result:
  assumes "lock_inv n (ts, v)"
  shows "read_lock_test v =
    (if Write_Back \<in> set ts \<or> Writing \<in> set ts then Read_Back else Reading, v - 1)"
proof -
  have s: "sint (v + - 1) = 2 ^ 48 - (\<Sum>t\<leftarrow>ts. weight t) - 1"
    using lock_add [OF assms, of "- 1"] assms by (simp add: lock_inv_def)
  have "(\<Sum>t\<leftarrow>ts. weight t) \<ge> 2 ^ 48 \<longleftrightarrow> Write_Back \<in> set ts \<or> Writing \<in> set ts"
  proof (cases "Write_Back \<in> set ts \<or> Writing \<in> set ts")
    case True
    then show ?thesis
      using sum_weight_ge [of Write_Back ts] sum_weight_ge [of Writing ts] by auto
  next
    case False
    then have "weight t \<le> 1" if "t \<in> set ts" for t
      using that by (cases t) auto
    then have "(\<Sum>t\<leftarrow>ts. weight t) \<le> (\<Sum>t\<leftarrow>ts. 1)"
      by (intro sum_list_mono)
    moreover have "int (length ts) \<le> 2 ^ 14"
      using assms by (simp add: lock_inv_def)
    ultimately show ?thesis
      using False by (simp add: sum_list_triv)
  qed
  then have "sint (v + - 1) < 0 \<longleftrightarrow> Write_Back \<in> set ts \<or> Writing \<in> set ts"
    unfolding s by auto
  then show ?thesis
    by (simp add: read_lock_test_def atomic_add_def Let_def)
qed

lemma lock_inv_update:
  assumes "lock_inv n (ts, v)" "i < length ts" "exclusive (ts[i := p])"
    and "sint v' = sint v + weight (ts ! i) - weight p"
  shows "lock_inv n (ts[i := p], v')"
  using assms by (simp add: lock_inv_def sum_weight_update)

lemma lock_action_inv:
  assumes inv: "lock_inv n (ts, v)" and i: "i < length ts" and act: "lock_action (ts ! i) v = (p, v')"
  shows "lock_inv n (ts[i := p], v')"
proof -
  have ex: "exclusive ts"
    using inv by (simp add: lock_inv_def)
  note add = lock_add [OF inv, of WRITER] lock_add [OF inv, of "- WRITER"]
    lock_add [OF inv, of 1] lock_add [OF inv, of "- 1"]
  show ?thesis
  proof (cases "ts ! i")
    case Outside
    with inv act show ?thesis
      by (metis lock_action.simps(1) list_update_id prod.inject)
  next
    case Write_Try
    then have p: "p = (if \<forall>t \<in> set ts. weight t = 0 then Writing else Write_Back)" "v' = v - WRITER"
      using act write_lock_test_result [OF inv] by auto
    have "exclusive (ts[i := p])"
    proof (cases "\<forall>t \<in> set ts. weight t = 0")
      case True
      then have "Writing \<notin> set ts" "Reading \<notin> set ts"
        by fastforce+
      with True p show ?thesis
        using exclusive_write [OF i] by simp
    next
      case False
      then have "p = Write_Back"
        using p by simp
      then show ?thesis
        using exclusive_leave [OF ex i] by simp
    qed
    then show ?thesis
      using add Write_Try p by (intro lock_inv_update [OF inv i]) auto
  next
    case Read_Try
    then have p: "p = (if Write_Back \<in> set ts \<or> Writing \<in> set ts then Read_Back else Reading)"
      "v' = v - 1"
      using act read_lock_test_result [OF inv] by auto
    have "exclusive (ts[i := p])"
      using p exclusive_leave [OF ex i] exclusive_read [OF i] by auto
    then show ?thesis
      using add Read_Try p by (intro lock_inv_update [OF inv i]) auto
  qed (use act add in \<open>auto simp: write_lock_body_def write_unlock_def read_lock_body_def
      read_unlock_def atomic_add_def Let_def intro!: lock_inv_update [OF inv i] exclusive_leave [OF ex i]\<close>)
qed

lemma lock_step_inv: "lock_step s s' \<Longrightarrow> lock_inv n s \<Longrightarrow> lock_inv n s'"
proof (induction rule: lock_step.induct)
  case (call_write i ts v)
  then show ?case
    by (intro lock_inv_update [of n ts v] exclusive_leave) (simp_all add: lock_inv_def)
next
  case (call_read i ts v)
  then show ?case
    by (intro lock_inv_update [of n ts v] exclusive_leave) (simp_all add: lock_inv_def)
next
  case (add i ts v p v')
  then show ?case
    by (intro lock_action_inv)
qed

lemma lock_start_inv: "n \<le> 2 ^ 14 \<Longrightarrow> lock_inv n (lock_start n)"
  by (auto simp: lock_inv_def lock_start_def init_rwlock_def exclusive_def sum_list_replicate
      count_list_0_iff)

lemma lock_reachable_inv:
  assumes "n \<le> 2 ^ 14" "lock_reachable n s"
  shows "lock_inv n s"
  using assms(2) unfolding lock_reachable_def
  by (induction rule: rtranclp_induct) (auto intro: lock_step_inv lock_start_inv [OF assms(1)])

text \<open>All threads call \<open>write_lock\<close>.\<close>

lemma all_call_write:
  "lock_step\<^sup>*\<^sup>* (replicate n Outside, v) (replicate n Write_Try, v)"
proof -
  have "lock_step\<^sup>*\<^sup>* (replicate n Outside, v) (replicate k Write_Try @ replicate (n - k) Outside, v)"
    if "k \<le> n" for k
    using that
  proof (induction k)
    case (Suc k)
    let ?ts = "replicate k Write_Try @ replicate (n - k) Outside"
    have "n - k = Suc (n - Suc k)"
      using Suc.prems by simp
    then have "?ts[k := Write_Try] = replicate (Suc k) Write_Try @ replicate (n - Suc k) Outside"
      by (simp add: list_update_append replicate_append_same)
    moreover have "lock_step (?ts, v) (?ts[k := Write_Try], v)"
      using Suc.prems by (intro lock_step.call_write) (simp_all add: nth_append)
    ultimately show ?case
      using Suc by (auto intro: rtranclp.rtrancl_into_rtrancl)
  qed simp
  from this [of n] show ?thesis
    by simp
qed

text \<open>Thread 0 holds the write lock, thread 1 has failed to get the read lock.\<close>

lemma example_lock_reachable: "lock_reachable 2 ([Writing, Read_Back], - 1)"
proof -
  have "lock_step ([Outside, Outside], WRITER) ([Write_Try, Outside], WRITER)"
    using lock_step.call_write [of 0 "[Outside, Outside]" WRITER] by simp
  moreover have "lock_step ([Write_Try, Outside], WRITER) ([Writing, Outside], 0)"
    using lock_step.add [of 0 "[Write_Try, Outside]" WRITER Writing 0]
    by (simp add: write_lock_test_def atomic_add_def)
  moreover have "lock_step ([Writing, Outside], 0) ([Writing, Read_Try], 0)"
    using lock_step.call_read [of 1 "[Writing, Outside]" 0] by simp
  moreover have "lock_step ([Writing, Read_Try], 0) ([Writing, Read_Back], - 1)"
    using lock_step.add [of 1 "[Writing, Read_Try]" 0 Read_Back "- 1"]
    by (simp add: read_lock_test_def atomic_add_def)
  ultimately have "lock_step\<^sup>*\<^sup>* ([Outside, Outside], WRITER) ([Writing, Read_Back], - 1)"
    by (meson converse_rtranclp_into_rtranclp rtranclp.rtrancl_refl)
  then show ?thesis
    by (simp add: lock_reachable_def lock_start_def init_rwlock_def numeral_2_eq_2)
qed

section \<open>Properties\<close>

text \<open>
  C9: Mutual exclusion. Whatever up to \<open>2 ^ 14\<close> threads do with the lock, in any interleaving of
  their atomic additions, at most one is between \<open>write_lock\<close> and \<open>write_unlock\<close>, and while one
  is, none is between \<open>read_lock\<close> and \<open>read_unlock\<close>.
\<close>

theorem rwlock_excludes:
  assumes "n \<le> 2 ^ 14" "lock_reachable n (ts, v)"
  shows "count_list ts Writing \<le> 1 \<and> (Writing \<in> set ts \<longrightarrow> Reading \<notin> set ts)"
  using lock_reachable_inv [OF assms] by (simp add: lock_inv_def exclusive_def)

theorem rwlock_excludes_witness: "count_list [Writing, Read_Back] Writing \<le> 1"
  using rwlock_excludes [OF _ example_lock_reachable] by simp

text \<open>
  When the lock is granted. An attempt to write succeeds exactly when no thread holds the
  lock or is about to take back a failed attempt; an attempt to read succeeds exactly when no
  thread writes or is about to take back a failed attempt to write. Readers share the lock.
\<close>

theorem rwlock_grants:
  assumes "n \<le> 2 ^ 14" "lock_reachable n (ts, v)"
  shows "fst (write_lock_test v) =
      (if set ts \<inter> {Writing, Write_Back, Reading, Read_Back} = {} then Writing else Write_Back)
    \<and> fst (read_lock_test v) =
      (if set ts \<inter> {Writing, Write_Back} = {} then Reading else Read_Back)"
proof -
  have inv: "lock_inv n (ts, v)"
    by (rule lock_reachable_inv [OF assms])
  have "(\<forall>t \<in> set ts. weight t = 0) \<longleftrightarrow> set ts \<inter> {Writing, Write_Back, Reading, Read_Back} = {}"
    (is "?l \<longleftrightarrow> ?r")
  proof
    assume ?l
    then have "weight Writing = 0" if "Writing \<in> set ts" using that by blast
    moreover have "weight Write_Back = 0" if "Write_Back \<in> set ts" using that \<open>?l\<close> by blast
    moreover have "weight Reading = 0" if "Reading \<in> set ts" using that \<open>?l\<close> by blast
    moreover have "weight Read_Back = 0" if "Read_Back \<in> set ts" using that \<open>?l\<close> by blast
    ultimately show ?r
      by auto
  next
    assume r: ?r
    show ?l
    proof
      fix t
      assume "t \<in> set ts"
      with r show "weight t = 0"
        by (cases t) auto
    qed
  qed
  then show ?thesis
    using write_lock_test_result [OF inv] read_lock_test_result [OF inv] by auto
qed

theorem rwlock_grants_witness: "fst (write_lock_test (- 1)) = Write_Back"
  using rwlock_grants [OF _ example_lock_reachable] by simp

end
