(* ===== verification/RwLock_Client.thy ===== *)
theory RwLock_Client
  imports RwLock
begin

text \<open>
  The program \<open>Assignment4_Problem_Statement/part-2/main.c\<close> on top of the reader-writer lock:
  threads that increment \<open>wr_ctr\<close> under the write lock and \<open>rd_ctr\<close> under the read lock. An
  increment is a load and a store, between which other threads may run.
\<close>

section \<open>The code\<close>

definition ITERS :: nat where "ITERS = 1000000"

text \<open>
  The position of a thread in \<open>thfunc\<close>: at the tests and in the bodies of the loops of the lock
  functions, before the load and the store of an increment (with the value loaded), at the
  calls of the unlock functions, behind the loop.
\<close>

datatype position =
    At_Write_Lock | Write_Failed | Write_Load | Write_Store u64 | At_Write_Unlock
  | At_Read_Lock | Read_Failed | Read_Load | Read_Store u64 | At_Read_Unlock
  | Exited

record counters =
  lock_value :: i64
  wr_ctr :: u64
  rd_ctr :: u64

type_synonym thread = "position \<times> nat"

definition loop_head :: "nat \<Rightarrow> nat \<Rightarrow> thread" where
  "loop_head iters ctr = (if ctr < iters then At_Write_Lock else Exited, ctr)"

fun thfunc_step :: "nat \<Rightarrow> thread \<Rightarrow> counters \<Rightarrow> thread \<times> counters" where
  "thfunc_step iters (At_Write_Lock, ctr) g =
     (let (p, v) = write_lock_test (lock_value g) in
      ((if p = Writing then Write_Load else Write_Failed, ctr), g\<lparr>lock_value := v\<rparr>))"
| "thfunc_step iters (Write_Failed, ctr) g =
     ((At_Write_Lock, ctr), g\<lparr>lock_value := snd (write_lock_body (lock_value g))\<rparr>)"
| "thfunc_step iters (Write_Load, ctr) g = ((Write_Store (wr_ctr g), ctr), g)"
| "thfunc_step iters (Write_Store x, ctr) g = ((At_Write_Unlock, ctr), g\<lparr>wr_ctr := x + 5\<rparr>)"
| "thfunc_step iters (At_Write_Unlock, ctr) g =
     ((At_Read_Lock, ctr), g\<lparr>lock_value := snd (write_unlock (lock_value g))\<rparr>)"
| "thfunc_step iters (At_Read_Lock, ctr) g =
     (let (p, v) = read_lock_test (lock_value g) in
      ((if p = Reading then Read_Load else Read_Failed, ctr), g\<lparr>lock_value := v\<rparr>))"
| "thfunc_step iters (Read_Failed, ctr) g =
     ((At_Read_Lock, ctr), g\<lparr>lock_value := snd (read_lock_body (lock_value g))\<rparr>)"
| "thfunc_step iters (Read_Load, ctr) g = ((Read_Store (rd_ctr g), ctr), g)"
| "thfunc_step iters (Read_Store x, ctr) g = ((At_Read_Unlock, ctr), g\<lparr>rd_ctr := x + 5\<rparr>)"
| "thfunc_step iters (At_Read_Unlock, ctr) g =
     (loop_head iters (ctr + 1), g\<lparr>lock_value := snd (read_unlock (lock_value g))\<rparr>)"
| "thfunc_step iters (Exited, ctr) g = ((Exited, ctr), g)"

type_synonym prog_state = "thread list \<times> counters"

definition prog_start :: "nat \<Rightarrow> nat \<Rightarrow> prog_state" where
  "prog_start iters n =
     (replicate n (loop_head iters 0), \<lparr>lock_value = init_rwlock, wr_ctr = 0, rd_ctr = 0\<rparr>)"

definition thread_step :: "nat \<Rightarrow> nat \<Rightarrow> prog_state \<Rightarrow> prog_state" where
  "thread_step iters i s =
     (case s of (ts, g) \<Rightarrow> let (t, g') = thfunc_step iters (ts ! i) g in (ts[i := t], g'))"

definition MAX_THREADS :: nat where "MAX_THREADS = 64"

text \<open>
  \<open>main\<close> until its threads run: the exit status, or the start of the threads; \<open>num\<close> is the number
  in the argument. The result of \<open>malloc\<close> is used without a test.
\<close>

definition lock_main :: "nat \<Rightarrow> i32 \<Rightarrow> bool \<Rightarrow> (nat \<Rightarrow> bool) \<Rightarrow> (i32 + prog_state) run" where
  "lock_main argc num malloc_ok create =
     (if argc \<noteq> 2 then Returns (Inl (- 1))
      else if sint num \<le> 0 \<or> sint num > int MAX_THREADS then Returns (Inl (- 1))
      else if \<not> malloc_ok then Faults
      else if list_all create [0..<nat (sint num)] then Returns (Inr (prog_start ITERS (nat (sint num))))
      else Returns (Inl (- 1)))"

text \<open>The three numbers \<open>main\<close> prints in the end.\<close>

definition lock_report :: "i32 \<Rightarrow> counters \<Rightarrow> u64 \<times> u64 \<times> u64" where
  "lock_report num g = (rd_ctr g, wr_ctr g, 5 * of_nat ITERS * sx num)"

inductive prog_reachable :: "nat \<Rightarrow> nat \<Rightarrow> prog_state \<Rightarrow> bool" for iters n where
  start: "prog_reachable iters n (prog_start iters n)"
| step: "prog_reachable iters n s \<Longrightarrow> i < n \<Longrightarrow> prog_reachable iters n (thread_step iters i s)"

text \<open>A schedule names the thread of every step.\<close>

lemma schedule_reachable:
  "prog_reachable iters n s \<Longrightarrow> \<forall>i \<in> set is. i < n \<Longrightarrow>
    prog_reachable iters n (fold (thread_step iters) is s)"
proof (induction "is" arbitrary: s)
  case (Cons i "is")
  then have "prog_reachable iters n (thread_step iters i s)"
    by (intro prog_reachable.step) simp_all
  with Cons show ?case
    by simp
qed simp

section \<open>The program uses the lock as it is meant to be\<close>

fun phase_of :: "position \<Rightarrow> phase" where
  "phase_of At_Write_Lock = Write_Try"
| "phase_of Write_Failed = Write_Back"
| "phase_of Write_Load = Writing"
| "phase_of (Write_Store x) = Writing"
| "phase_of At_Write_Unlock = Writing"
| "phase_of At_Read_Lock = Read_Try"
| "phase_of Read_Failed = Read_Back"
| "phase_of Read_Load = Reading"
| "phase_of (Read_Store x) = Reading"
| "phase_of At_Read_Unlock = Reading"
| "phase_of Exited = Outside"

definition lock_view :: "prog_state \<Rightarrow> lock_state" where
  "lock_view s = (List.map (\<lambda>t. phase_of (fst t)) (fst s), lock_value (snd s))"

lemma write_lock_test_phase: "fst (write_lock_test v) \<in> {Writing, Write_Back}"
  by (simp add: write_lock_test_def atomic_add_def Let_def)

lemma read_lock_test_phase: "fst (read_lock_test v) \<in> {Reading, Read_Back}"
  by (simp add: read_lock_test_def atomic_add_def Let_def)

text \<open>What a step of a thread does to the lock: one action, possibly followed by a call.\<close>

lemma thfunc_step_lock:
  assumes "thfunc_step iters t g = (t', g')"
  shows "phase_of (fst t') = phase_of (fst t) \<and> lock_value g' = lock_value g
    \<or> lock_action (phase_of (fst t)) (lock_value g) = (phase_of (fst t'), lock_value g')
    \<or> lock_action (phase_of (fst t)) (lock_value g) = (Outside, lock_value g')
      \<and> phase_of (fst t') \<in> {Write_Try, Read_Try}"
proof (cases t)
  case (Pair p ctr)
  with assms show ?thesis
    using write_lock_test_phase [of "lock_value g"] read_lock_test_phase [of "lock_value g"]
    by (cases p) (auto simp: write_lock_body_def read_lock_body_def write_unlock_def
        read_unlock_def loop_head_def split: prod.splits if_splits)
qed

lemma thread_step_lock:
  assumes "i < length (fst s)"
  shows "lock_step\<^sup>*\<^sup>* (lock_view s) (lock_view (thread_step iters i s))"
proof -
  obtain ts g where s: "s = (ts, g)"
    by (cases s)
  obtain t' g' where t': "thfunc_step iters (ts ! i) g = (t', g')"
    by (cases "thfunc_step iters (ts ! i) g")
  let ?ps = "List.map (\<lambda>t. phase_of (fst t)) ts"
  have i: "i < length ?ps" "?ps ! i = phase_of (fst (ts ! i))"
    using assms s by simp_all
  have v: "lock_view (thread_step iters i s) = (?ps[i := phase_of (fst t')], lock_value g')"
    by (simp add: lock_view_def thread_step_def s t' map_update)
  from thfunc_step_lock [OF t'] consider
    (stay) "phase_of (fst t') = ?ps ! i" "lock_value g' = lock_value g"
    | (act) "lock_action (?ps ! i) (lock_value g) = (phase_of (fst t'), lock_value g')"
    | (call) "lock_action (?ps ! i) (lock_value g) = (Outside, lock_value g')"
      "phase_of (fst t') \<in> {Write_Try, Read_Try}"
    using i(2) by metis
  then show ?thesis
  proof cases
    case stay
    then have "?ps[i := phase_of (fst t')] = ?ps"
      by (metis list_update_id)
    with v stay s show ?thesis
      by (simp add: lock_view_def)
  next
    case act
    from lock_step.add [OF i(1) act] v s show ?thesis
      by (simp add: lock_view_def r_into_rtranclp)
  next
    case call
    let ?qs = "?ps[i := Outside]"
    have "lock_step (?ps, lock_value g) (?qs, lock_value g')"
      by (rule lock_step.add [OF i(1) call(1)])
    moreover have "lock_step (?qs, lock_value g') (?qs[i := phase_of (fst t')], lock_value g')"
      using call(2) i(1) lock_step.call_write [of i ?qs] lock_step.call_read [of i ?qs] by auto
    ultimately show ?thesis
      using v s by (simp add: lock_view_def)
  qed
qed


lemma length_threads: "prog_reachable iters n s \<Longrightarrow> length (fst s) = n"
  by (induction rule: prog_reachable.induct)
    (auto simp: prog_start_def thread_step_def split: prod.splits)

lemma prog_lock_reachable:
  "prog_reachable iters n s \<Longrightarrow> lock_step\<^sup>*\<^sup>* (lock_start n) (lock_view s)"
proof (induction rule: prog_reachable.induct)
  case start
  have "phase_of (fst (loop_head iters 0)) = (if 0 < iters then Write_Try else Outside)"
    by (simp add: loop_head_def)
  moreover have "lock_step\<^sup>*\<^sup>* (replicate n Outside, init_rwlock) (replicate n Write_Try, init_rwlock)"
    by (rule all_call_write)
  ultimately show ?case
    by (simp add: lock_view_def prog_start_def lock_start_def)
next
  case (step s i)
  then show ?case
    using thread_step_lock [of i s iters] length_threads [OF step.hyps(1)]
    by (simp add: rtranclp_trans)
qed

section \<open>The counter of the writers\<close>

text \<open>The increments of \<open>wr_ctr\<close> a thread has stored.\<close>

fun stored :: "thread \<Rightarrow> nat" where
  "stored (p, ctr) =
     (if p \<in> {At_Write_Lock, Write_Failed, Write_Load, Exited} \<union> range Write_Store then ctr
      else ctr + 1)"

lemma stored_simps [simp]:
  "stored (At_Write_Lock, c) = c" "stored (Write_Failed, c) = c" "stored (Write_Load, c) = c"
  "stored (Write_Store x, c) = c" "stored (Exited, c) = c" "stored (At_Write_Unlock, c) = c + 1"
  "stored (At_Read_Lock, c) = c + 1" "stored (Read_Failed, c) = c + 1"
  "stored (Read_Load, c) = c + 1" "stored (Read_Store x, c) = c + 1"
  "stored (At_Read_Unlock, c) = c + 1"
  by auto

declare stored.simps [simp del]

definition writers_inv :: "nat \<Rightarrow> prog_state \<Rightarrow> bool" where
  "writers_inv iters s \<longleftrightarrow>
     (case s of (ts, g) \<Rightarrow> wr_ctr g = of_nat (5 * (\<Sum>t\<leftarrow>ts. stored t))
        \<and> (\<forall>x ctr. (Write_Store x, ctr) \<in> set ts \<longrightarrow> x = wr_ctr g)
        \<and> (\<forall>ctr. (Exited, ctr) \<in> set ts \<longrightarrow> ctr = iters)
        \<and> (\<forall>p ctr. (p, ctr) \<in> set ts \<longrightarrow> p \<noteq> Exited \<longrightarrow> ctr < iters))"


definition thread_ok :: "nat \<Rightarrow> thread \<Rightarrow> bool" where
  "thread_ok iters t \<longleftrightarrow> (if fst t = Exited then snd t = iters else snd t < iters)"

lemma writers_inv_iff:
  "writers_inv iters (ts, g) \<longleftrightarrow>
     wr_ctr g = of_nat (5 * (\<Sum>t\<leftarrow>ts. stored t)) \<and> (\<forall>t \<in> set ts. thread_ok iters t)
     \<and> (\<forall>x ctr. (Write_Store x, ctr) \<in> set ts \<longrightarrow> x = wr_ctr g)"
  by (auto simp: writers_inv_def thread_ok_def split: if_splits)

lemma writers_inv_update:
  assumes "writers_inv iters (ts, g)" "i < length ts" "stored t' = stored (ts ! i)"
    and "wr_ctr g' = wr_ctr g" "thread_ok iters t'"
    and "\<forall>x. fst t' = Write_Store x \<longrightarrow> x = wr_ctr g"
  shows "writers_inv iters (ts[i := t'], g')"
proof -
  have "set (ts[i := t']) \<subseteq> insert t' (set ts)"
    by (rule set_update_subset_insert)
  moreover have "(\<Sum>t\<leftarrow>ts[i := t']. stored t) = (\<Sum>t\<leftarrow>ts. stored t)"
    using sum_list_map_update [OF assms(2), of stored t'] assms(3) by simp
  ultimately show ?thesis
    using assms(1,4-6) unfolding writers_inv_iff by fastforce
qed

lemma exclusive_two:
  assumes "exclusive ps" "i < length ps" "j < length ps" "i \<noteq> j" "ps ! i = Writing"
  shows "ps ! j \<noteq> Writing"
proof
  assume "ps ! j = Writing"
  then have "Writing \<in> set (ps[i := Outside])"
    using assms(3,4) by (metis in_set_conv_nth length_list_update nth_list_update_neq)
  then have "count_list (ps[i := Outside]) Writing \<noteq> 0"
    by (simp add: count_list_0_iff)
  with count_list_update [OF assms(2), of Outside Writing] assms(1,5) show False
    by (simp add: exclusive_def)
qed

lemma thread_step_writers:
  assumes inv: "writers_inv iters (ts, g)" and i: "i < length ts"
    and ex: "exclusive (List.map (\<lambda>t. phase_of (fst t)) ts)"
  shows "writers_inv iters (thread_step iters i (ts, g))"
proof -
  obtain p ctr where t: "ts ! i = (p, ctr)"
    by (cases "ts ! i")
  have ok: "thread_ok iters (p, ctr)"
    using inv i t unfolding writers_inv_iff by (metis nth_mem)
  show ?thesis
  proof (cases p)
    case (Write_Store x)
    have x: "x = wr_ctr g"
      using inv i t Write_Store unfolding writers_inv_iff by (metis nth_mem)
    have other: "(Write_Store y, c) \<notin> set (ts[i := (At_Write_Unlock, ctr)])" for y c
    proof
      assume "(Write_Store y, c) \<in> set (ts[i := (At_Write_Unlock, ctr)])"
      then obtain j where j: "j < length ts" "ts[i := (At_Write_Unlock, ctr)] ! j = (Write_Store y, c)"
        by (metis in_set_conv_nth length_list_update)
      with i have "j \<noteq> i" "ts ! j = (Write_Store y, c)"
        by (auto simp: nth_list_update split: if_splits)
      with exclusive_two [OF ex, of i j] i j(1) t Write_Store show False
        by simp
    qed
    have "(\<Sum>t\<leftarrow>ts[i := (At_Write_Unlock, ctr)]. stored t) = (\<Sum>t\<leftarrow>ts. stored t) + 1"
      using sum_list_map_update [OF i, of stored "(At_Write_Unlock, ctr)"] t Write_Store by simp
    moreover have "set (ts[i := (At_Write_Unlock, ctr)]) \<subseteq> insert (At_Write_Unlock, ctr) (set ts)"
      by (rule set_update_subset_insert)
    moreover have "thread_ok iters (At_Write_Unlock, ctr)"
      using ok Write_Store by (simp add: thread_ok_def)
    ultimately show ?thesis
      using inv x other t Write_Store
      by (auto simp: thread_step_def writers_inv_iff algebra_simps)
  qed (use ok t in \<open>auto simp: thread_step_def thread_ok_def loop_head_def Let_def
      split: prod.splits intro!: writers_inv_update [OF inv i]\<close>)
qed

lemma prog_reachable_writers:
  assumes "n \<le> 2 ^ 14"
  shows "prog_reachable iters n s \<Longrightarrow> writers_inv iters s"
proof (induction rule: prog_reachable.induct)
  case start
  have "(\<Sum>t\<leftarrow>replicate n (loop_head iters 0). stored t) = 0"
    by (simp add: loop_head_def sum_list_replicate)
  then show ?case
    by (auto simp: prog_start_def writers_inv_iff thread_ok_def loop_head_def sum_list_replicate)
next
  case (step s i)
  obtain ts g where s: "s = (ts, g)"
    by (cases s)
  have "lock_inv n (lock_view s)"
    using lock_reachable_inv [OF assms] prog_lock_reachable [OF step.hyps(1)]
    by (simp add: lock_reachable_def)
  then have "exclusive (List.map (\<lambda>t. phase_of (fst t)) ts)"
    by (simp add: lock_inv_def lock_view_def s)
  then show ?case
    using thread_step_writers [of iters ts g i] step s length_threads [OF step.hyps(1)] by simp
qed

lemma writers_inv_exited:
  assumes "writers_inv iters (ts, g)" "\<forall>t \<in> set ts. fst t = Exited"
  shows "wr_ctr g = of_nat (5 * iters * length ts)"
proof -
  have "(\<Sum>t\<leftarrow>ts. stored t) = (\<Sum>t\<leftarrow>ts. iters)"
  proof (rule arg_cong [where f = sum_list], rule map_cong [OF refl])
    fix t
    assume "t \<in> set ts"
    then have "thread_ok iters t" "fst t = Exited"
      using assms by (auto simp: writers_inv_iff)
    then show "stored t = iters"
      by (cases t) (simp add: thread_ok_def)
  qed
  then show ?thesis
    using assms(1) by (simp add: writers_inv_iff sum_list_triv algebra_simps)
qed


section \<open>The program can always finish\<close>

text \<open>The steps a thread has left if none of its attempts fails.\<close>

fun steps_left :: "nat \<Rightarrow> thread \<Rightarrow> nat" where
  "steps_left iters (p, ctr) = 12 * (iters - ctr) +
     (case p of Write_Failed \<Rightarrow> 11 | At_Write_Lock \<Rightarrow> 10 | Write_Load \<Rightarrow> 9 | Write_Store x \<Rightarrow> 8
      | At_Write_Unlock \<Rightarrow> 7 | Read_Failed \<Rightarrow> 6 | At_Read_Lock \<Rightarrow> 5 | Read_Load \<Rightarrow> 4
      | Read_Store x \<Rightarrow> 3 | At_Read_Unlock \<Rightarrow> 2 | Exited \<Rightarrow> 0)"

lemma thfunc_step_left:
  assumes "thread_ok iters t" "fst t \<noteq> Exited"
    and "fst t = At_Write_Lock \<Longrightarrow> fst (write_lock_test (lock_value g)) = Writing"
    and "fst t = At_Read_Lock \<Longrightarrow> fst (read_lock_test (lock_value g)) = Reading"
  shows "steps_left iters (fst (thfunc_step iters t g)) < steps_left iters t"
proof -
  obtain p ctr where t: "t = (p, ctr)"
    by (cases t)
  have "ctr < iters"
    using assms(1,2) t by (simp add: thread_ok_def)
  then show ?thesis
    using assms(3,4) t assms(2) by (cases p) (auto simp: loop_head_def split: prod.splits)
qed

text \<open>As long as a thread has not finished, one of them gets ahead.\<close>

lemma some_thread_advances:
  assumes "n \<le> 2 ^ 14" "prog_reachable iters n (ts, g)" "\<exists>t \<in> set ts. fst t \<noteq> Exited"
  shows "\<exists>i < n. steps_left iters (fst (thfunc_step iters (ts ! i) g)) < steps_left iters (ts ! i)"
proof -
  let ?ps = "List.map (\<lambda>t. phase_of (fst t)) ts"
  have len: "length ts = n"
    using length_threads [OF assms(2)] by simp
  have ok: "\<forall>t \<in> set ts. thread_ok iters t"
    using prog_reachable_writers [OF assms(1,2)] by (simp add: writers_inv_iff)
  have inv: "lock_inv n (?ps, lock_value g)"
    using lock_reachable_inv [OF assms(1)] prog_lock_reachable [OF assms(2)]
    by (simp add: lock_reachable_def lock_view_def)
  show ?thesis
  proof (cases "\<exists>t \<in> set ts. fst t \<notin> {At_Write_Lock, At_Read_Lock, Exited}")
    case True
    then obtain i where i: "i < n" "fst (ts ! i) \<notin> {At_Write_Lock, At_Read_Lock, Exited}"
      using len by (metis in_set_conv_nth)
    then have "steps_left iters (fst (thfunc_step iters (ts ! i) g)) < steps_left iters (ts ! i)"
      using ok len by (intro thfunc_step_left) auto
    with i(1) show ?thesis
      by blast
  next
    case False
    then have w: "weight p = 0" if "p \<in> set ?ps" for p
      using that by fastforce
    then have b: "Write_Back \<notin> set ?ps" "Writing \<notin> set ?ps"
      by fastforce+
    obtain i where i: "i < n" "fst (ts ! i) \<noteq> Exited"
      using assms(3) len by (metis in_set_conv_nth)
    have "fst (write_lock_test (lock_value g)) = Writing"
      using write_lock_test_result [OF inv] w by simp
    moreover have "fst (read_lock_test (lock_value g)) = Reading"
      using read_lock_test_result [OF inv] b by simp
    ultimately have "steps_left iters (fst (thfunc_step iters (ts ! i) g)) < steps_left iters (ts ! i)"
      using ok len i by (intro thfunc_step_left) auto
    with i(1) show ?thesis
      by blast
  qed
qed

lemma prog_can_finish:
  assumes "n \<le> 2 ^ 14"
  shows "prog_reachable iters n s \<Longrightarrow>
    \<exists>is. (\<forall>i \<in> set is. i < n) \<and> (\<forall>t \<in> set (fst (fold (thread_step iters) is s)). fst t = Exited)"
proof (induction "\<Sum>t\<leftarrow>fst s. steps_left iters t" arbitrary: s rule: less_induct)
  case less
  obtain ts g where s: "s = (ts, g)"
    by (cases s)
  show ?case
  proof (cases "\<forall>t \<in> set ts. fst t = Exited")
    case True
    then show ?thesis
      using s by (intro exI [of _ "[]"]) simp
  next
    case False
    then obtain i where i: "i < n"
      "steps_left iters (fst (thfunc_step iters (ts ! i) g)) < steps_left iters (ts ! i)"
      using some_thread_advances [OF assms, of iters ts g] less.prems s by blast
    have len: "length ts = n"
      using length_threads [OF less.prems] s by simp
    have "(\<Sum>t\<leftarrow>fst (thread_step iters i s). steps_left iters t) < (\<Sum>t\<leftarrow>fst s. steps_left iters t)"
      using sum_list_map_update [of i ts "steps_left iters" "fst (thfunc_step iters (ts ! i) g)"]
        i len s
      by (simp add: thread_step_def case_prod_beta Let_def)
    from less.hyps [OF this prog_reachable.step [OF less.prems i(1)]] obtain is1 where
      "\<forall>i \<in> set is1. i < n"
      "\<forall>t \<in> set (fst (fold (thread_step iters) is1 (thread_step iters i s))). fst t = Exited"
      by blast
    with i(1) show ?thesis
      by (intro exI [of _ "i # is1"]) simp
  qed
qed


section \<open>Properties\<close>

text \<open>
  C10: The write lock protects \<open>wr_ctr\<close>. When \<open>main\<close> has started its threads and all of them have
  finished, whatever the interleaving, the value it prints for \<open>wr_ctr\<close> is the one it prints as
  the value that should be there.
\<close>

theorem write_counter_exact:
  assumes "lock_main argc num malloc_ok create = Returns (Inr s0)"
    and "prog_reachable ITERS (length (fst s0)) (ts, g)" "\<forall>t \<in> set ts. fst t = Exited"
  shows "\<exists>r. lock_report num g = (r, of_nat (5 * ITERS * length (fst s0)), of_nat (5 * ITERS * length (fst s0)))"
proof -
  obtain n where n: "n = nat (sint num)" "0 < sint num" "n \<le> 64" "s0 = prog_start ITERS n"
    using assms(1) by (auto simp: lock_main_def MAX_THREADS_def split: if_splits)
  have len: "length (fst s0) = n"
    by (simp add: n(4) prog_start_def)
  have "writers_inv ITERS (ts, g)"
    by (rule prog_reachable_writers [OF _ assms(2) [unfolded len]]) (use n(3) in simp)
  from writers_inv_exited [OF this assms(3)] length_threads [OF assms(2)]
  have "wr_ctr g = of_nat (5 * ITERS * n)"
    by (simp add: len)
  moreover have "sx num = of_nat n"
    using n(1,2) unat_sx [of num] by (metis less_imp_le of_nat_unat ucast_id)
  ultimately show ?thesis
    by (simp add: lock_report_def len)
qed

lemma example_lock_main: "lock_main 2 2 True (\<lambda>i. True) = Returns (Inr (prog_start ITERS 2))"
  by (simp add: lock_main_def MAX_THREADS_def list_all_iff)

theorem write_counter_exact_witness:
  "\<exists>ts g r. prog_reachable ITERS 2 (ts, g) \<and> lock_report 2 g = (r, 10000000, 10000000)"
proof -
  from prog_can_finish [OF _ prog_reachable.start [of ITERS 2]] obtain ss where ss:
    "\<forall>i \<in> set ss. i < 2"
    "\<forall>t \<in> set (fst (fold (thread_step ITERS) ss (prog_start ITERS 2))). fst t = Exited"
    by auto
  obtain ts g where s: "fold (thread_step ITERS) ss (prog_start ITERS 2) = (ts, g)"
    by (cases "fold (thread_step ITERS) ss (prog_start ITERS 2)")
  then have r: "prog_reachable ITERS 2 (ts, g)"
    using schedule_reachable [OF prog_reachable.start ss(1)] by metis
  have len: "length (fst (prog_start ITERS 2)) = 2"
    by (simp add: prog_start_def)
  have "\<exists>r. lock_report 2 g = (r, 10000000, 10000000)"
    using write_counter_exact [OF example_lock_main, unfolded len, OF r] ss(2) s by (simp add: ITERS_def)
  with r show ?thesis
    by blast
qed

text \<open>
  C40: No deadlock and no lost lock: from every state the program can reach, some schedule leads
  all the threads to their end.
\<close>

theorem rwlock_program_can_finish:
  assumes "n \<le> 64" "prog_reachable iters n s"
  shows "\<exists>is. (\<forall>i \<in> set is. i < n)
    \<and> (\<forall>t \<in> set (fst (fold (thread_step iters) is s)). fst t = Exited)"
  by (rule prog_can_finish [OF _ assms(2)]) (use assms(1) in simp)

theorem rwlock_program_can_finish_witness:
  "\<exists>is. \<not> (\<exists>i. i \<in> set is \<and> \<not> i < 2)
    \<and> fst (fst (fold (thread_step 3) is (prog_start 3 2)) ! 0) = Exited"
proof -
  from rwlock_program_can_finish [OF _ prog_reachable.start [of 3 2]] obtain ss where ss:
    "\<forall>i \<in> set ss. i < 2" "\<forall>t \<in> set (fst (fold (thread_step 3) ss (prog_start 3 2))). fst t = Exited"
    by auto
  moreover have "length (fst (fold (thread_step 3) ss (prog_start 3 2))) = 2"
    using length_threads [OF schedule_reachable [OF prog_reachable.start ss(1)]] .
  ultimately show ?thesis
    by (intro exI [of _ ss]) auto
qed

text \<open>
  The read lock does not protect \<open>rd_ctr\<close>: two threads can both have done an increment of
  5 while the counter is 5.
\<close>

theorem read_counter_races:
  assumes "0 < iters"
  shows "\<exists>ts g. prog_reachable iters 2 (ts, g)
    \<and> ts = [(At_Read_Unlock, 0), (At_Read_Unlock, 0)] \<and> rd_ctr g = 5 \<and> wr_ctr g = 10"
proof -
  let ?is = "[0, 0, 0, 0, 1, 1, 1, 1, 0, 1, 0, 1, 0, 1]"
  have "prog_reachable iters 2 (fold (thread_step iters) ?is (prog_start iters 2))"
    by (rule schedule_reachable [OF prog_reachable.start]) simp
  moreover have "fold (thread_step iters) ?is (prog_start iters 2)
      = ([(At_Read_Unlock, 0), (At_Read_Unlock, 0)],
         \<lparr>lock_value = WRITER - 2, wr_ctr = 10, rd_ctr = 5\<rparr>)"
    using assms by (simp add: prog_start_def thread_step_def loop_head_def init_rwlock_def
        numeral_2_eq_2 write_lock_test_def read_lock_test_def write_unlock_def atomic_add_def WRITER_def)
  ultimately show ?thesis
    by force
qed

theorem read_counter_races_witness: "\<exists>s. prog_reachable 1 2 s \<and> rd_ctr (snd s) = 5"
  using read_counter_races [of 1] by force

end
