(* ===== verification/Block_Hash.thy ===== *)
theory Block_Hash
  imports Bytes
begin

text \<open>
  The threads of \<open>src/Assignment4/thread_func.c\<close>, which hash the blocks of a file in parallel,
  with the hash function and \<open>main\<close> of \<open>Assignment4_Problem_Statement/part-1/main.c\<close>. The
  file is a list of bytes, pointers into it and into \<open>hashes\<close> are indices. What a thread does
  while it holds the mutex is one step.
\<close>

section \<open>The code\<close>

definition BLOCK_SIZE :: nat where "BLOCK_SIZE = 64"

text \<open>
  The loop of \<open>calculate_and_store_hash\<close>. The difference of the pointers is compared with a
  \<open>sizeof\<close> and so as an unsigned number.
\<close>

fun hash_loop :: "u8 list \<Rightarrow> nat \<Rightarrow> nat \<Rightarrow> nat \<Rightarrow> u64 \<Rightarrow> u64 run" where
  "hash_loop bs endptr 0 ptr hashval = Returns hashval"
| "hash_loop bs endptr (Suc count) ptr hashval =
     (if (word_of_int (int endptr - int ptr) :: u64) < 8 then Returns hashval
      else if ptr + 8 > length bs then Faults
      else hash_loop bs endptr count (ptr + 8) (hashval + load64 bs ptr))"

definition calculate_and_store_hash :: "u8 list \<Rightarrow> nat \<Rightarrow> nat \<Rightarrow> u64 run" where
  "calculate_and_store_hash bs ptr endptr = hash_loop bs endptr (BLOCK_SIZE div 8) ptr 0"

record hash_state =
  dataptr :: nat
  optr :: nat
  hashes :: "u64 list"

text \<open>A thread is at the head of its loop, before the calculation with \<open>cptr\<close> and \<open>chash\<close>, or
  behind the loop.\<close>

datatype hasher = Looping | Hashing nat nat | Ended

definition take_block :: "u8 list \<Rightarrow> hash_state \<Rightarrow> hasher \<times> hash_state" where
  "take_block bs s =
     (if dataptr s \<ge> length bs then (Ended, s)
      else (Hashing (dataptr s) (optr s), s\<lparr>dataptr := dataptr s + BLOCK_SIZE, optr := optr s + 1\<rparr>))"

fun hashit :: "u8 list \<Rightarrow> hasher \<Rightarrow> hash_state \<Rightarrow> (hasher \<times> hash_state) run" where
  "hashit bs Looping s = Returns (take_block bs s)"
| "hashit bs (Hashing cptr chash) s =
     run_bind (calculate_and_store_hash bs cptr (length bs)) (\<lambda>v.
       if chash < length (hashes s) then Returns (Looping, s\<lparr>hashes := (hashes s)[chash := v]\<rparr>)
       else Faults)"
| "hashit bs Ended s = Returns (Ended, s)"

definition hash_count :: "u8 list \<Rightarrow> nat" where
  "hash_count bs =
     (let size = length bs in
      if size mod BLOCK_SIZE \<noteq> 0 then size div BLOCK_SIZE + 1 else size div BLOCK_SIZE)"

text \<open>\<open>junk\<close> is what the memory from \<open>malloc\<close> holds.\<close>

definition hash_start :: "u8 list \<Rightarrow> nat \<Rightarrow> (nat \<Rightarrow> u64) \<Rightarrow> hasher list \<times> hash_state" where
  "hash_start bs n junk =
     (replicate n Looping, \<lparr>dataptr = 0, optr = 0, hashes = List.map junk [0..<hash_count bs]\<rparr>)"

definition HASH_THREADS :: nat where "HASH_THREADS = 32"

text \<open>
  \<open>main\<close> until its threads run: the exit status, or the start of the threads. \<open>num\<close> is the number
  in the second argument and \<open>file\<close> what \<open>open\<close> finds; \<open>stat_ok\<close>, \<open>mmap\<close>, \<open>malloc\<close> and \<open>create\<close> say
  whether the calls succeed, and what the memory holds.
\<close>

definition block_main ::
  "nat \<Rightarrow> i32 \<Rightarrow> u8 list option \<Rightarrow> bool \<Rightarrow> (nat \<Rightarrow> bool) \<Rightarrow> (nat \<Rightarrow> (nat \<Rightarrow> u64) option) \<Rightarrow> (nat \<Rightarrow> bool) \<Rightarrow>
    i32 + hasher list \<times> hash_state" where
  "block_main argc num file stat_ok mmap malloc create =
     (if argc \<noteq> 3 then Inl (- 1)
      else if sint num \<le> 0 \<or> sint num > int HASH_THREADS then Inl (- 1)
      else
        (case file of
           None \<Rightarrow> Inl (- 1)
         | Some bs \<Rightarrow>
             if \<not> stat_ok then Inl (- 1)
             else if \<not> mmap (length bs) then Inl (- 1)
             else
               (case malloc (8 * hash_count bs) of
                  None \<Rightarrow> Inl (- 1)
                | Some junk \<Rightarrow>
                    if list_all create [0..<nat (sint num)]
                    then Inr (hash_start bs (nat (sint num)) junk) else Inl (- 1))))"

text \<open>
  The lines \<open>main\<close> prints when it has joined the threads: the block and its hash. The counter is an
  \<open>int\<close>, which is large enough for files below \<open>2 ^ 36\<close> bytes.
\<close>

definition block_lines :: "u8 list \<Rightarrow> hash_state \<Rightarrow> (i32 \<times> u64) list" where
  "block_lines bs s = List.map (\<lambda>ctr. (of_nat ctr, hashes s ! ctr)) [0..<hash_count bs]"

text \<open>A step of a thread that has not ended, and the states after \<open>k\<close> steps.\<close>

inductive hash_next ::
  "u8 list \<Rightarrow> hasher list \<times> hash_state \<Rightarrow> hasher list \<times> hash_state \<Rightarrow> bool" for bs where
  hash_next: "i < length ts \<Longrightarrow> ts ! i \<noteq> Ended \<Longrightarrow> hashit bs (ts ! i) s = Returns (t', s') \<Longrightarrow>
    hash_next bs (ts, s) (ts[i := t'], s')"

inductive_cases hash_nextE: "hash_next bs (ts, s) st'"

abbreviation hash_run ::
  "u8 list \<Rightarrow> hasher list \<times> hash_state \<Rightarrow> nat \<Rightarrow> hasher list \<times> hash_state \<Rightarrow> bool" where
  "hash_run bs \<equiv> steps_from (hash_next bs)"

lemma hash_run_step:
  "hash_run bs s0 k (ts, s) \<Longrightarrow> i < length ts \<Longrightarrow> ts ! i \<noteq> Ended \<Longrightarrow>
    hashit bs (ts ! i) s = Returns (t', s') \<Longrightarrow> hash_run bs s0 (Suc k) (ts[i := t'], s')"
  by (intro steps_from.step [of _ _ _ "(ts, s)"] hash_next)

section \<open>The hash of a block\<close>

text \<open>The sum of the complete words of block \<open>b\<close>.\<close>

definition block_sum :: "u8 list \<Rightarrow> nat \<Rightarrow> u64" where
  "block_sum bs b =
     (\<Sum>j\<leftarrow>[0..<min 8 ((length bs - 64 * b) div 8)]. load64 bs (64 * b + 8 * j))"

lemma upt_0_Suc: "[0..<Suc m] = 0 # List.map Suc [0..<m]"
  by (simp only: map_Suc_upt upt_conv_Cons zero_less_Suc)

lemma hash_loop_sum:
  "ptr \<le> length bs \<Longrightarrow> length bs < 2 ^ 64 \<Longrightarrow>
    hash_loop bs (length bs) count ptr hv =
      Returns (hv + (\<Sum>j\<leftarrow>[0..<min count ((length bs - ptr) div 8)]. load64 bs (ptr + 8 * j)))"
proof (induction count arbitrary: ptr hv)
  case (Suc count)
  let ?d = "length bs - ptr"
  have w: "(word_of_int (int (length bs) - int ptr) :: u64) < 8 \<longleftrightarrow> ?d < 8"
  proof -
    have "(word_of_int (int (length bs) - int ptr) :: u64) = of_nat ?d"
      by (simp only: of_nat_diff [OF Suc.prems(1), symmetric] of_int_of_nat_eq)
    then show ?thesis
      using Suc.prems(2) by (simp add: word_less_nat_alt unat_of_nat)
  qed
  show ?case
  proof (cases "?d < 8")
    case False
    then have "min (Suc count) (?d div 8) = Suc (min count ((length bs - (ptr + 8)) div 8))"
      by (simp add: Suc_diff_Suc div_if [of ?d])
    then have "(\<Sum>j\<leftarrow>[0..<min (Suc count) (?d div 8)]. load64 bs (ptr + 8 * j))
        = load64 bs ptr + (\<Sum>j\<leftarrow>[0..<min count ((length bs - (ptr + 8)) div 8)]. load64 bs (ptr + 8 + 8 * j))"
      by (simp only: upt_0_Suc list.map map_map o_def sum_list.Cons mult_Suc_right mult_0_right
          add_0_right add.assoc)
    with False w Suc.prems Suc.IH [of "ptr + 8"] show ?thesis
      by (simp add: add.assoc)
  qed (use w in simp)
qed simp

lemma calculate_block:
  assumes "64 * b \<le> length bs" "length bs < 2 ^ 64"
  shows "calculate_and_store_hash bs (64 * b) (length bs) = Returns (block_sum bs b)"
  using hash_loop_sum [OF assms, of 8 0]
  by (simp add: calculate_and_store_hash_def BLOCK_SIZE_def block_sum_def)


lemma hash_count_iff: "b < hash_count bs \<longleftrightarrow> 64 * b < length bs"
proof -
  have "length bs = 64 * (length bs div 64) + length bs mod 64" "length bs mod 64 < 64"
    by simp_all
  then show ?thesis
    unfolding hash_count_def BLOCK_SIZE_def Let_def by (simp only: split: if_split) linarith
qed

section \<open>The invariant\<close>

text \<open>What a thread has done of the two steps per block, and its last step.\<close>

fun hasher_steps :: "hasher \<Rightarrow> int" where
  "hasher_steps Looping = 0"
| "hasher_steps (Hashing c h) = - 1"
| "hasher_steps Ended = 1"

definition hash_inv :: "u8 list \<Rightarrow> nat \<Rightarrow> nat \<Rightarrow> hasher list \<times> hash_state \<Rightarrow> bool" where
  "hash_inv bs n k st \<longleftrightarrow>
     (case st of (ts, s) \<Rightarrow>
        length ts = n \<and> dataptr s = 64 * optr s \<and> optr s \<le> hash_count bs
        \<and> length (hashes s) = hash_count bs
        \<and> (\<forall>i < n. \<forall>c h. ts ! i = Hashing c h \<longrightarrow> c = 64 * h \<and> h < optr s)
        \<and> (\<forall>i < n. \<forall>j < n. \<forall>c h d. ts ! i = Hashing c h \<longrightarrow> ts ! j = Hashing d h \<longrightarrow> i = j)
        \<and> (\<forall>b < optr s. hashes s ! b = block_sum bs b \<or> Hashing (64 * b) b \<in> set ts)
        \<and> (Ended \<in> set ts \<longrightarrow> length bs \<le> dataptr s)
        \<and> int k = 2 * int (optr s) + (\<Sum>t\<leftarrow>ts. hasher_steps t))"

lemma hash_start_inv: "hash_inv bs n 0 (hash_start bs n junk)"
  by (auto simp: hash_inv_def hash_start_def sum_list_replicate)

lemma set_update_mem: "x \<in> set xs \<Longrightarrow> i < length xs \<Longrightarrow> x \<noteq> xs ! i \<Longrightarrow> x \<in> set (xs[i := y])"
  by (metis in_set_conv_nth length_list_update nth_list_update_neq)

lemma hash_inv_take:
  assumes "hash_inv bs n k (ts, s)" "i < n" "ts ! i = Looping" "take_block bs s = (t', s')"
  shows "hash_inv bs n (Suc k) (ts[i := t'], s')"
proof -
  have len: "i < length ts"
    using assms(1,2) by (simp add: hash_inv_def)
  note sum = sum_list_map_update [OF len, of hasher_steps t']
  have mem: "x \<in> set (ts[i := t'])" if "x \<in> set ts" "x \<noteq> Looping" for x
    using set_update_mem [OF that(1) len] that(2) assms(3) by simp
  have sub: "set (ts[i := t']) \<subseteq> insert t' (set ts)"
    by (rule set_update_subset_insert)
  have new: "t' \<in> set (ts[i := t'])"
    using len by (simp add: set_update_memI)
  show ?thesis
  proof (cases "dataptr s \<ge> length bs")
    case True
    then have "t' = Ended" "s' = s"
      using assms(4) by (simp_all add: take_block_def)
    then show ?thesis
      using assms(1-3) sum True len mem
      by (auto simp: hash_inv_def nth_list_update)
  next
    case False
    then have t': "t' = Hashing (dataptr s) (optr s)"
      "s' = s\<lparr>dataptr := dataptr s + 64, optr := optr s + 1\<rparr>"
      using assms(4) by (simp_all add: take_block_def BLOCK_SIZE_def)
    have d: "dataptr s = 64 * optr s" "optr s < hash_count bs"
      using False assms(1) by (simp_all add: hash_inv_def hash_count_iff)
    then show ?thesis
      using assms(1-3) sum t' False len mem sub new
      by (auto simp: hash_inv_def nth_list_update less_Suc_eq)
  qed
qed


lemma hash_inv_store:
  assumes "hash_inv bs n k (ts, s)" "i < n" "ts ! i = Hashing c h" "length bs < 2 ^ 64"
  shows "hashit bs (ts ! i) s = Returns (Looping, s\<lparr>hashes := (hashes s)[h := block_sum bs h]\<rparr>)"
    and "hash_inv bs n (Suc k) (ts[i := Looping], s\<lparr>hashes := (hashes s)[h := block_sum bs h]\<rparr>)"
proof -
  have len: "i < length ts"
    using assms(1,2) by (simp add: hash_inv_def)
  note sum = sum_list_map_update [OF len, of hasher_steps Looping]
  have ch: "c = 64 * h" "h < optr s" "optr s \<le> hash_count bs" "length (hashes s) = hash_count bs"
    using assms(1-3) by (auto simp: hash_inv_def)
  then have "64 * h < length bs"
    using hash_count_iff [of h bs] by simp
  then show "hashit bs (ts ! i) s = Returns (Looping, s\<lparr>hashes := (hashes s)[h := block_sum bs h]\<rparr>)"
    using calculate_block [of h bs] assms(3,4) ch by simp
  have mem: "Hashing (64 * b) b \<in> set (ts[i := Looping])"
    if "Hashing (64 * b) b \<in> set ts" "b \<noteq> h" for b
    using set_update_mem [OF that(1) len] that(2) assms(3) by simp
  have "set (ts[i := Looping]) \<subseteq> insert Looping (set ts)"
    by (rule set_update_subset_insert)
  moreover have "(hashes s)[h := block_sum bs h] ! b = block_sum bs b \<or> Hashing (64 * b) b \<in> set (ts[i := Looping])"
    if "b < optr s" for b
    using that mem [of b] ch assms(1) by (cases "b = h") (auto simp: hash_inv_def)
  moreover have "ts[i := Looping] ! j = Hashing d e \<longleftrightarrow> j \<noteq> i \<and> ts ! j = Hashing d e"
    if "j < length ts" for j d e
    using that len by (simp add: nth_list_update)
  ultimately show "hash_inv bs n (Suc k) (ts[i := Looping], s\<lparr>hashes := (hashes s)[h := block_sum bs h]\<rparr>)"
    using assms(1,3) sum by (auto simp: hash_inv_def)
qed

lemma hash_step_inv:
  assumes "hash_inv bs n k (ts, s)" "i < n" "ts ! i \<noteq> Ended" "length bs < 2 ^ 64"
  shows "\<exists>t' s'. hashit bs (ts ! i) s = Returns (t', s') \<and> hash_inv bs n (Suc k) (ts[i := t'], s')"
proof (cases "ts ! i")
  case Looping
  obtain t' s' where "take_block bs s = (t', s')"
    by (cases "take_block bs s")
  with hash_inv_take [OF assms(1,2) Looping this] Looping show ?thesis
    by simp
next
  case (Hashing c h)
  from hash_inv_store [OF assms(1,2) this assms(4)] show ?thesis
    by blast
qed (use assms(3) in simp)

lemma hasher_steps_le: "(\<Sum>t\<leftarrow>ts. hasher_steps t) \<le> int (length ts)"
proof -
  have "(\<Sum>t\<leftarrow>ts. hasher_steps t) \<le> (\<Sum>t\<leftarrow>ts. 1)"
    by (rule sum_list_mono) (metis hasher_steps.elims order_refl zero_le_one neg_le_0_iff_le order_trans)
  then show ?thesis
    by (simp add: sum_list_triv)
qed

text \<open>The threads end: two steps per block and one per thread.\<close>

definition hash_left :: "u8 list \<Rightarrow> nat \<Rightarrow> hasher list \<times> hash_state \<Rightarrow> nat \<Rightarrow> bool" where
  "hash_left bs n st m \<longleftrightarrow>
     length bs < 2 ^ 64 \<and> (\<exists>k. hash_inv bs n k st \<and> k + m = 2 * hash_count bs + n)"

lemma hash_inv_bound: "hash_inv bs n k st \<Longrightarrow> k \<le> 2 * hash_count bs + n"
proof (cases st)
  case (Pair ts s)
  assume "hash_inv bs n k st"
  then have "int k \<le> 2 * int (hash_count bs) + int n"
    using hasher_steps_le [of ts] by (auto simp: hash_inv_def Pair)
  then show ?thesis
    by linarith
qed

interpretation hashers: bounded_system "hash_next bs" "hash_left bs n" for bs n
proof unfold_locales
  fix st st' m
  assume left: "hash_left bs n st m" and step: "hash_next bs st st'"
  obtain ts s where st: "st = (ts, s)"
    by (cases st)
  from left obtain k where k: "length bs < 2 ^ 64" "hash_inv bs n k (ts, s)" "k + m = 2 * hash_count bs + n"
    by (auto simp: hash_left_def st)
  from step [unfolded st] obtain i t' s' where i: "i < length ts" "ts ! i \<noteq> Ended"
    "hashit bs (ts ! i) s = Returns (t', s')" "st' = (ts[i := t'], s')"
    by (rule hash_nextE) (rule that)
  have "i < n"
    using i(1) k(2) by (simp add: hash_inv_def)
  from hash_step_inv [OF k(2) this i(2) k(1)] have inv: "hash_inv bs n (Suc k) st'"
    using i(3,4) by auto
  then have "m \<noteq> 0"
    using hash_inv_bound [OF inv] k(3) by simp
  then show "\<exists>m' < m. hash_left bs n st' m'"
    using inv k(1,3) by (intro exI [of _ "m - 1"]) (auto simp: hash_left_def)
qed

lemma block_main_starts:
  assumes "block_main argc num (Some bs) stat_ok mmap malloc create = Inr s0"
  obtains junk where "s0 = hash_start bs (nat (sint num)) junk" "0 < nat (sint num)"
    "malloc (8 * hash_count bs) = Some junk"
  using assms by (auto simp: block_main_def split: if_splits option.splits)

lemma block_main_run:
  assumes "block_main argc num (Some bs) stat_ok mmap malloc create = Inr s0" "length bs < 2 ^ 64"
    and "hash_run bs s0 k st"
  obtains k' where "k \<le> k'" "hash_inv bs (nat (sint num)) k' st" "0 < nat (sint num)"
proof -
  obtain junk where s0: "s0 = hash_start bs (nat (sint num)) junk" "0 < nat (sint num)"
    by (rule block_main_starts [OF assms(1)]) (rule that)
  have "hash_left bs (nat (sint num)) s0 (2 * hash_count bs + nat (sint num))"
    using hash_start_inv assms(2) unfolding s0(1) hash_left_def by (intro conjI exI [of _ 0]) simp_all
  from hashers.runs [OF assms(3) this] obtain m where
    "hash_left bs (nat (sint num)) st m" "k + m \<le> 2 * hash_count bs + nat (sint num)"
    by blast
  then obtain k' where "hash_inv bs (nat (sint num)) k' st" "k + m \<le> k' + m"
    by (auto simp: hash_left_def)
  then show thesis
    using that s0(2) by simp
qed

text \<open>A file of one block and two threads: the first hashes the block.\<close>

definition example_bytes :: "u8 list" where
  "example_bytes = [5, 1, 0, 0, 0, 0, 0, 0, 7]"

lemma example_hash:
  "calculate_and_store_hash example_bytes 0 9 = Returns 261" "block_sum example_bytes 0 = 261"
  "hash_count example_bytes = 1" "length example_bytes = 9"
  by code_simp+

definition example_start :: "hasher list \<times> hash_state" where
  "example_start = ([Looping, Looping], \<lparr>dataptr = 0, optr = 0, hashes = [0]\<rparr>)"

lemma example_main:
  "block_main 3 2 (Some example_bytes) True (\<lambda>n. 0 < n) (\<lambda>n. Some (\<lambda>i. 0)) (\<lambda>i. True) = Inr example_start"
  by (simp add: block_main_def hash_start_def example_start_def example_hash HASH_THREADS_def numeral_2_eq_2)

lemma example_hash_run:
  "\<exists>s. hash_run example_bytes example_start 4 ([Ended, Ended], s) \<and> hashes s = [261]"
proof -
  let ?s = "\<lambda>d h. \<lparr>dataptr = d, optr = d div 64, hashes = [h]\<rparr>"
  let ?run = "hash_run example_bytes example_start"
  have "?run 0 ([Looping, Looping], ?s 0 0)"
    using steps_from.start [of "hash_next example_bytes" example_start] by (simp add: example_start_def)
  from hash_run_step [OF this, of 0]
  have "?run 1 ([Hashing 0 0, Looping], ?s 64 0)"
    by (simp add: take_block_def example_hash BLOCK_SIZE_def)
  from hash_run_step [OF this, of 1]
  have "?run 2 ([Hashing 0 0, Ended], ?s 64 0)"
    by (simp add: take_block_def example_hash numeral_2_eq_2)
  from hash_run_step [OF this, of 0]
  have "?run 3 ([Looping, Ended], ?s 64 261)"
    by (simp add: example_hash numeral_2_eq_2 numeral_3_eq_3)
  from hash_run_step [OF this, of 0]
  have "?run 4 ([Ended, Ended], ?s 64 261)"
    by (simp add: take_block_def example_hash)
  then show ?thesis
    by force
qed

text \<open>\<open>main\<close> exits with \<open>-1\<close> unless every step of the set-up succeeds.\<close>

lemma block_main_exits:
  "block_main argc num f stat_ok mmap malloc create = Inl e \<Longrightarrow> e = - 1"
  by (auto simp: block_main_def split: if_splits option.splits)

section \<open>Properties\<close>

text \<open>
  C3: The program end to end, on a file of less than \<open>2^36\<close> bytes. Whatever the number of threads, their interleaving, and the initial
  content of the array: when \<open>main\<close> has started its threads and all of them have ended, it
  prints the hash of every block in the order of the file, which is what a single loop over the
  blocks would print.
\<close>

theorem block_hashes_correct:
  assumes "block_main argc num (Some bs) stat_ok mmap malloc create = Inr s0" "length bs < 2 ^ 36"
    and "hash_run bs s0 k (ts, s)" "\<forall>t \<in> set ts. t = Ended"
  shows "block_lines bs s = List.map (\<lambda>b. (of_nat b, block_sum bs b)) [0..<hash_count bs]"
proof -
  have "length bs < 2 ^ 64"
    using assms(2) by simp
  then obtain k' where inv: "hash_inv bs (nat (sint num)) k' (ts, s)" "0 < nat (sint num)"
    by (rule block_main_run [OF assms(1) _ assms(3)]) (rule that)
  then have "ts \<noteq> []"
    by (auto simp: hash_inv_def)
  then have "Ended \<in> set ts"
    using assms(4) by (cases ts) auto
  with inv have "length bs \<le> 64 * optr s" "optr s \<le> hash_count bs"
    by (simp_all add: hash_inv_def)
  then have o: "optr s = hash_count bs"
    using hash_count_iff [of "optr s" bs] by simp
  have "hashes s ! b = block_sum bs b" if "b < hash_count bs" for b
    using inv(1) assms(4) that unfolding o [symmetric] by (auto simp: hash_inv_def)
  then show ?thesis
    by (simp add: block_lines_def)
qed

theorem block_hashes_correct_witness:
  "\<exists>k ts s. hash_run example_bytes example_start k (ts, s) \<and> block_lines example_bytes s = [(0, 261)]"
proof -
  obtain s where s: "hash_run example_bytes example_start 4 ([Ended, Ended], s)"
    using example_hash_run by blast
  moreover have "length example_bytes < 2 ^ 36"
    by (simp add: example_hash)
  ultimately have "block_lines example_bytes s = [(0, 261)]"
    using block_hashes_correct [OF example_main, of 4 "[Ended, Ended]" s] by (simp add: example_hash)
  with s show ?thesis
    by blast
qed

text \<open>
  C39: No fault, no race, and termination. In every state the threads that \<open>main\<close> has started can
  reach, each thread that has not ended can take a step, no two threads work on the same block,
  and there are at most two steps per block and one per thread in all.
\<close>

theorem hashing_terminates:
  assumes "block_main argc num (Some bs) stat_ok mmap malloc create = Inr s0" "length bs < 2 ^ 64"
    and "hash_run bs s0 k (ts, s)"
  shows "k \<le> 2 * hash_count bs + length ts
    \<and> (\<forall>i < length ts. \<exists>t' s'. hashit bs (ts ! i) s = Returns (t', s'))
    \<and> (\<forall>i < length ts. \<forall>j < length ts. \<forall>c d h. ts ! i = Hashing c h \<and> ts ! j = Hashing d h \<longrightarrow> i = j)"
proof -
  obtain k' where k': "k \<le> k'" and inv: "hash_inv bs (nat (sint num)) k' (ts, s)"
    by (rule block_main_run [OF assms]) (rule that)
  then have n: "length ts = nat (sint num)"
    by (simp add: hash_inv_def)
  have "k \<le> 2 * hash_count bs + length ts"
    using hash_inv_bound [OF inv] k' n by simp
  moreover have "\<exists>t' s'. hashit bs (ts ! i) s = Returns (t', s')" if "i < length ts" for i
    using hash_step_inv [OF inv that [unfolded n] _ assms(2)] by (cases "ts ! i = Ended") auto
  ultimately show ?thesis
    using inv unfolding n hash_inv_def by simp
qed

theorem hashing_terminates_witness:
  "\<exists>t' s'. hashit example_bytes Looping (snd example_start) = Returns (t', s')"
  using hashing_terminates [OF example_main, of 0 "[Looping, Looping]" "snd example_start"]
    steps_from.start [of "hash_next example_bytes" example_start]
  by (auto simp: example_hash example_start_def)

end
