(* ===== verification/Cfork.thy ===== *)
theory Cfork
  imports Vm_Area
begin

text \<open>
  \<open>src/Assignment3/cfork.c\<close>: the copy-on-write fork, the fork that shares the address space, and
  the handler of copy-on-write faults. They work on the process contexts and page tables of
  \<open>Vm_Area\<close>, extended with the segments of a process and with the kernel's page reference
  counts and memory copies.
\<close>

section \<open>Data\<close>

record mm_segment =
  seg_start :: u64
  seg_end :: u64
  next_free :: u64
  seg_flags :: u32

datatype run_state = WAITING | READY | Other_State

text \<open>The further fields of \<open>struct exec_context\<close>; the segments are those of \<open>mms\<close>.\<close>

record proc_context = exec_context +
  seg_code :: mm_segment
  seg_rodata :: mm_segment
  seg_data :: mm_segment
  seg_stack :: mm_segment
  p_state :: run_state
  rbp :: u64
  entry_rsp :: u64

text \<open>
  The macros of \<open>page.h\<close> and the kernel routines that are not in the repository, besides those
  of \<open>mmu\<close>: writing the entry that \<open>get_user_pte\<close> found, \<open>install_ptable\<close>, the reference count
  of a frame (\<open>get_pfn_info\<close> with the functions on it), \<open>memcpy\<close> of a page, \<open>bzero\<close> of a page,
  \<open>os_pfn_alloc(OS_PT_REG)\<close> and \<open>copy_os_pts\<close>.
\<close>

record page_macros =
  FLAG_MASK :: u64
  MM_RD :: u32
  MM_WR :: u32

record 'k kernel = "'k mmu" +
  write_pte :: "u64 \<Rightarrow> u64 \<Rightarrow> u64 \<Rightarrow> 'k \<Rightarrow> 'k"
  install_ptable :: "u64 \<Rightarrow> mm_segment \<Rightarrow> u64 \<Rightarrow> u64 \<Rightarrow> 'k \<Rightarrow> u64 \<times> 'k"
  get_refcount :: "u64 \<Rightarrow> 'k \<Rightarrow> i32"
  inc_refcount :: "u64 \<Rightarrow> 'k \<Rightarrow> 'k"
  dec_refcount :: "u64 \<Rightarrow> 'k \<Rightarrow> 'k"
  copy_page :: "u64 \<Rightarrow> u64 \<Rightarrow> 'k \<Rightarrow> 'k"
  zero_page :: "u64 \<Rightarrow> 'k \<Rightarrow> 'k"
  os_pfn_alloc :: "'k \<Rightarrow> u64 \<times> 'k"
  copy_os_pts :: "u64 \<Rightarrow> u64 \<Rightarrow> 'k \<Rightarrow> 'k"

text \<open>The frame a page-table entry refers to: \<open>(*pte & FLAG_MASK) >> PAGE_SHIFT\<close>.\<close>

definition pte_frame :: "page_macros \<Rightarrow> u64 \<Rightarrow> u64" where
  "pte_frame mc e = drop_bit 12 (e AND FLAG_MASK mc)"

text \<open>\<open>*pte & (~0x2)\<close>\<close>

definition read_only :: "u64 \<Rightarrow> u64" where
  "read_only e = e AND NOT 2"

section \<open>Copy-on-write fork\<close>

text \<open>The bodies of the loops over the pages of a segment.\<close>

definition copy_entry ::
  "page_macros \<Rightarrow> 'k kernel \<Rightarrow> proc_context \<Rightarrow> u64 \<Rightarrow> mm_segment \<Rightarrow> u64 \<Rightarrow> 'k \<Rightarrow> 'k" where
  "copy_entry mc K parent os_addr seg vaddr k =
     (case get_user_pte K (pgd parent) vaddr k of
        None \<Rightarrow> k
      | Some e \<Rightarrow> snd (install_ptable K os_addr seg vaddr (pte_frame mc e) k))"

definition share_page ::
  "page_macros \<Rightarrow> 'k kernel \<Rightarrow> proc_context \<Rightarrow> u64 \<Rightarrow> u64 \<Rightarrow> 'k \<Rightarrow> 'k" where
  "share_page mc K parent os_addr vaddr k =
     (case get_user_pte K (pgd parent) vaddr k of
        None \<Rightarrow> k
      | Some e \<Rightarrow>
          (let e = read_only e;
               k = write_pte K (pgd parent) vaddr e k;
               (pfn, k) = map_physical_page K os_addr vaddr (MM_RD mc) (ucast (pte_frame mc e)) k;
               k = invlpg K vaddr k
           in inc_refcount K (ucast pfn) k))"

definition copy_stack_page ::
  "page_macros \<Rightarrow> 'k kernel \<Rightarrow> proc_context \<Rightarrow> u64 \<Rightarrow> mm_segment \<Rightarrow> u64 \<Rightarrow> 'k \<Rightarrow> 'k" where
  "copy_stack_page mc K parent os_addr seg vaddr k =
     (case get_user_pte K (pgd parent) vaddr k of
        None \<Rightarrow> k
      | Some e \<Rightarrow>
          (let (pfn, k) = install_ptable K os_addr seg vaddr 0 k
           in copy_page K (osmap K pfn) (e AND FLAG_MASK mc) k))"

text \<open>\<open>for (vaddr = end - PAGE_SIZE; vaddr >= next_free; vaddr -= PAGE_SIZE)\<close>\<close>

partial_function (option) down_loop :: "(u64 \<Rightarrow> 'k \<Rightarrow> 'k) \<Rightarrow> u64 \<Rightarrow> u64 \<Rightarrow> 'k \<Rightarrow> 'k option" where
  "down_loop body vaddr lo k =
     (if vaddr \<ge> lo then down_loop body (vaddr - 4096) lo (body vaddr k) else Some k)"

declare down_loop.simps [code]

fun share_areas ::
  "page_macros \<Rightarrow> 'k kernel \<Rightarrow> proc_context \<Rightarrow> u64 \<Rightarrow> vm_area list \<Rightarrow> 'k \<Rightarrow> 'k option" where
  "share_areas mc K parent os_addr [] k = Some k"
| "share_areas mc K parent os_addr (v # vs) k =
     Option.bind (page_loop (share_page mc K parent os_addr) (vm_start v) (vm_end v) k)
       (share_areas mc K parent os_addr vs)"

definition segment_loop :: "(mm_segment \<Rightarrow> u64 \<Rightarrow> 'k \<Rightarrow> 'k) \<Rightarrow> mm_segment \<Rightarrow> 'k \<Rightarrow> 'k option" where
  "segment_loop body seg k = page_loop (body seg) (seg_start seg) (next_free seg) k"

definition cfork_copy_mm ::
  "page_macros \<Rightarrow> 'k kernel \<Rightarrow> proc_context \<Rightarrow> proc_context \<Rightarrow> 'k \<Rightarrow> (proc_context \<times> 'k) run" where
  "cfork_copy_mm mc K child parent k =
     (let (pt, k) = os_pfn_alloc K k;
          child = child\<lparr>pgd := pt\<rparr>;
          os_addr = osmap K pt;
          k = zero_page K os_addr k;
          copy = copy_entry mc K parent os_addr;
          share = (\<lambda>seg. share_page mc K parent os_addr);
          stack = seg_stack parent in
      run_bind (run_of_option (segment_loop copy (seg_code parent) k)) (\<lambda>k.
      run_bind (run_of_option (segment_loop copy (seg_rodata parent) k)) (\<lambda>k.
      run_bind (run_of_option (segment_loop share (seg_data parent) k)) (\<lambda>k.
      run_bind (run_of_option (down_loop (copy_stack_page mc K parent os_addr stack)
                  (seg_end stack - 4096) (next_free stack) k)) (\<lambda>k.
      run_bind (run_of_option (share_areas mc K parent os_addr (vm_areas parent) k)) (\<lambda>k.
        Returns (child, copy_os_pts K (pgd parent) pt k)))))))"

section \<open>Fork with a shared address space\<close>

text \<open>The loop that computes the address of the first page below the stack in use.\<close>

partial_function (option) stack_bottom :: "u64 \<Rightarrow> u64 \<Rightarrow> u64 option" where
  "stack_bottom lo vaddr = (if vaddr \<ge> lo then stack_bottom lo (vaddr - 4096) else Some vaddr)"

declare stack_bottom.simps [code]

text \<open>
  The loop body copies a page of the parent's stack \<open>fsize\<close> bytes below; it dereferences the
  pointer to the entry there without a test.
\<close>

definition vfork_page ::
  "page_macros \<Rightarrow> 'k kernel \<Rightarrow> proc_context \<Rightarrow> u64 \<Rightarrow> u64 \<Rightarrow> u64 \<Rightarrow> 'k \<Rightarrow> 'k run" where
  "vfork_page mc K parent os_addr fsize vaddr k =
     (case get_user_pte K (pgd parent) vaddr k of
        None \<Rightarrow> Returns k
      | Some e \<Rightarrow>
          (case get_user_pte K (pgd parent) (vaddr - fsize) k of
             None \<Rightarrow> Faults
           | Some old \<Rightarrow>
               (let (pfn, k) =
                    (if old \<noteq> 0 then (pte_frame mc old, k)
                     else install_ptable K os_addr (seg_stack parent) (vaddr - fsize) 0 k)
                in Returns (copy_page K (osmap K pfn) (e AND FLAG_MASK mc) k))))"

partial_function (option) vfork_loop ::
  "page_macros \<Rightarrow> 'k kernel \<Rightarrow> proc_context \<Rightarrow> u64 \<Rightarrow> u64 \<Rightarrow> u64 \<Rightarrow> 'k \<Rightarrow> 'k run option" where
  "vfork_loop mc K parent os_addr fsize vaddr k =
     (if vaddr \<ge> next_free (seg_stack parent) then
        (case vfork_page mc K parent os_addr fsize vaddr k of
           Returns k' \<Rightarrow> vfork_loop mc K parent os_addr fsize (vaddr - 4096) k'
         | r \<Rightarrow> Some r)
      else Some (Returns k))"

declare vfork_loop.simps [code]

definition vfork_copy_mm ::
  "page_macros \<Rightarrow> 'k kernel \<Rightarrow> proc_context \<Rightarrow> proc_context \<Rightarrow> 'k \<Rightarrow> (proc_context \<times> proc_context \<times> 'k) run" where
  "vfork_copy_mm mc K child parent k =
     (let child = child\<lparr>pgd := pgd parent\<rparr>;
          os_addr = osmap K (pgd child);
          parent = parent\<lparr>p_state := WAITING\<rparr>;
          seg = seg_stack parent;
          end1 = seg_end seg - 4096 in
      run_bind (run_of_option (stack_bottom (next_free seg) end1)) (\<lambda>vaddr.
        let fsize = end1 - vaddr in
        run_bind (run_of_option (vfork_loop mc K parent os_addr fsize end1 k)) (\<lambda>r.
          run_bind r (\<lambda>k.
            Returns (child\<lparr>rbp := rbp child - fsize, entry_rsp := entry_rsp child - fsize,
              seg_stack := (seg_stack child)\<lparr>next_free := next_free seg - fsize\<rparr>\<rparr>, parent, k)))))"

text \<open>\<open>parent\<close> is what \<open>get_ctx_by_pid(ctx->ppid)\<close> finds.\<close>

definition vfork_exit_handle :: "proc_context \<Rightarrow> proc_context option \<Rightarrow> proc_context option" where
  "vfork_exit_handle ctx parent =
     (case parent of
        None \<Rightarrow> None
      | Some p \<Rightarrow>
          Some (if pgd p = pgd ctx then
              p\<lparr>p_state := READY, vm_areas := vm_areas ctx,
                seg_data := (seg_data p)\<lparr>next_free := next_free (seg_data ctx)\<rparr>\<rparr>
            else p))"

section \<open>Copy-on-write faults\<close>

text \<open>The part both kinds of pages share: \<open>-1\<close> without a page-table entry.\<close>

definition cow_page ::
  "page_macros \<Rightarrow> 'k kernel \<Rightarrow> proc_context \<Rightarrow> u64 \<Rightarrow> 'k \<Rightarrow> 'k option" where
  "cow_page mc K cur cr2 k =
     (case get_user_pte K (pgd cur) cr2 k of
        None \<Rightarrow> None
      | Some e \<Rightarrow>
          (let pfn = pte_frame mc e in
           if sint (get_refcount K pfn k) > 1 then
             (let k = dec_refcount K pfn k;
                  k = copy_page K pfn (e AND FLAG_MASK mc) k
              in Some (snd (map_physical_page K (osmap K (pgd cur)) cr2 (MM_WR mc) 0 k)))
           else
             (let k = copy_page K pfn (e AND FLAG_MASK mc) k
              in Some (snd (map_physical_page K (osmap K (pgd cur)) cr2 (MM_WR mc) (ucast pfn) k)))))"

definition handle_cow_fault ::
  "mm_config \<Rightarrow> page_macros \<Rightarrow> 'k kernel \<Rightarrow> proc_context \<Rightarrow> u64 \<Rightarrow> 'k \<Rightarrow> i32 \<times> 'k" where
  "handle_cow_fault cfg mc K cur cr2 k =
     (let cr2 = (if cr2 mod 4096 \<noteq> 0 then cr2 - cr2 mod 4096 else cr2);
          handled = (\<lambda>k. case cow_page mc K cur cr2 k of
             None \<Rightarrow> (- 1, k) | Some k \<Rightarrow> (1, invlpg K cr2 k));
          refused = (- 1, invlpg K cr2 k) in
      if cr2 \<ge> MMAP_AREA_START cfg \<and> cr2 < MMAP_AREA_END cfg then
        (case find_vm (vm_areas cur) cr2 of
           Some v \<Rightarrow> if access_flags v AND PROT_WRITE cfg = 0 then refused else handled k
         | None \<Rightarrow> handled k)
      else if cr2 \<ge> seg_start (seg_data cur) \<and> cr2 < seg_end (seg_data cur) then
        (if seg_flags (seg_data cur) AND MM_WR mc \<noteq> 0 then handled k else refused)
      else (1, invlpg K cr2 k))"

end
