(* ===== verification/Cfork_Effect.thy ===== *)
theory Cfork_Effect
  imports Cfork
begin

text \<open>
  What \<open>cfork_copy_mm\<close> does to the two page tables and to the reference counts: the pages of the
  data segment and of the areas become read-only in both processes and refer to the same frames,
  the other pages of the parent stay as they are, and every reference count rises by the number
  of pages shared.
\<close>

section \<open>What the kernel routines do\<close>

text \<open>The page of an address.\<close>

definition page_of :: "u64 \<Rightarrow> u64" where
  "page_of v = drop_bit 12 v"

text \<open>
  The documented behaviour of the routines, for the tables of a parent \<open>p\<close> and of its child
  \<open>c\<close>; \<open>mk\<close> makes the entry for a frame with access flags. A table has one entry per page;
  writing an entry needs one that is there; mapping a page makes its entry, with the frame asked
  for unless that is 0.
\<close>

definition tables_ok :: "'k kernel \<Rightarrow> (u32 \<Rightarrow> u32 \<Rightarrow> u64) \<Rightarrow> u64 \<Rightarrow> u64 \<Rightarrow> bool" where
  "tables_ok K mk p c \<longleftrightarrow>
     (\<forall>q v v' k. page_of v = page_of v' \<longrightarrow> get_user_pte K q v k = get_user_pte K q v' k)
     \<and> (\<forall>q \<in> {p, c}. \<forall>v e v' k. get_user_pte K q v' (write_pte K p v e k) =
          (if q = p \<and> page_of v' = page_of v \<and> get_user_pte K p v k \<noteq> None then Some e
           else get_user_pte K q v' k))
     \<and> (\<forall>v fl f k. f \<noteq> 0 \<longrightarrow> fst (map_physical_page K (osmap K c) v fl f k) = f)
     \<and> (\<forall>q \<in> {p, c}. \<forall>v fl f v' k.
          get_user_pte K q v' (snd (map_physical_page K (osmap K c) v fl f k)) =
          (if q = c \<and> page_of v' = page_of v
           then Some (mk (fst (map_physical_page K (osmap K c) v fl f k)) fl)
           else get_user_pte K q v' k))
     \<and> (\<forall>q v a k. get_user_pte K q v (invlpg K a k) = get_user_pte K q v k)
     \<and> (\<forall>q v f k. get_user_pte K q v (inc_refcount K f k) = get_user_pte K q v k)"

text \<open>Reference counts change by counting only.\<close>

definition counts_ok :: "'k kernel \<Rightarrow> u64 \<Rightarrow> u64 \<Rightarrow> bool" where
  "counts_ok K p c \<longleftrightarrow>
     (\<forall>f v e k. get_refcount K f (write_pte K p v e k) = get_refcount K f k)
     \<and> (\<forall>f v fl g k. g \<noteq> 0 \<longrightarrow>
          get_refcount K f (snd (map_physical_page K (osmap K c) v fl g k)) = get_refcount K f k)
     \<and> (\<forall>f a k. get_refcount K f (invlpg K a k) = get_refcount K f k)
     \<and> (\<forall>f g k. get_refcount K f (inc_refcount K g k)
          = (if f = g then get_refcount K f k + 1 else get_refcount K f k))"

text \<open>
  A step that gives the child pages of its own: the parent's table, the child's entries of other
  pages, and the counts of the frames of the parent do not change.
\<close>

definition in_table :: "page_macros \<Rightarrow> 'k kernel \<Rightarrow> u64 \<Rightarrow> u64 \<Rightarrow> 'k \<Rightarrow> bool" where
  "in_table mc K p f k \<longleftrightarrow> (\<exists>v e. get_user_pte K p v k = Some e \<and> pte_frame mc e = f)"

definition own_pages ::
  "page_macros \<Rightarrow> 'k kernel \<Rightarrow> u64 \<Rightarrow> u64 \<Rightarrow> u64 list \<Rightarrow> 'k \<Rightarrow> 'k \<Rightarrow> bool" where
  "own_pages mc K p c vs k k' \<longleftrightarrow>
     (\<forall>v. get_user_pte K p v k' = get_user_pte K p v k)
     \<and> (\<forall>v. page_of v \<notin> page_of ` set vs \<longrightarrow> get_user_pte K c v k' = get_user_pte K c v k)
     \<and> (\<forall>f. in_table mc K p f k \<longrightarrow> get_refcount K f k' = get_refcount K f k)"

text \<open>
  \<open>install_ptable\<close> is such a step, also when the frame it hands out is filled by a copy; the
  frame of a new table is empty after \<open>bzero\<close>; the kernel's part of a table has no user pages.
\<close>

definition installs_ok :: "page_macros \<Rightarrow> 'k kernel \<Rightarrow> u64 \<Rightarrow> u64 \<Rightarrow> bool" where
  "installs_ok mc K p c \<longleftrightarrow>
     (\<forall>seg v f k. own_pages mc K p c [v] k (snd (install_ptable K (osmap K c) seg v f k)))
     \<and> (\<forall>seg v src k. own_pages mc K p c [v] k
          (case install_ptable K (osmap K c) seg v 0 k of
             (f, k') \<Rightarrow> copy_page K (osmap K f) src k'))
     \<and> (\<forall>k. own_pages mc K p c [] k (copy_os_pts K p c k))
     \<and> (\<forall>k. (\<forall>v. get_user_pte K p v (zero_page K (osmap K c) (snd (os_pfn_alloc K k))) = get_user_pte K p v k)
          \<and> (\<forall>v. get_user_pte K c v (zero_page K (osmap K c) (snd (os_pfn_alloc K k))) = None)
          \<and> (\<forall>f. in_table mc K p f k \<longrightarrow>
               get_refcount K f (zero_page K (osmap K c) (snd (os_pfn_alloc K k))) = get_refcount K f k))"

text \<open>The frames of a table have numbers of 32 bits other than 0.\<close>

definition frames_ok :: "page_macros \<Rightarrow> 'k kernel \<Rightarrow> u64 \<Rightarrow> 'k \<Rightarrow> bool" where
  "frames_ok mc K p k \<longleftrightarrow>
     (\<forall>v e. get_user_pte K p v k = Some e \<longrightarrow> 0 < pte_frame mc e \<and> pte_frame mc e < 2 ^ 32)"

lemma bit_two: "bit (2 :: u64) n \<longleftrightarrow> n = 1"
  using bit_exp_iff [where ?'a = u64, of 1 n] by auto

lemma pte_frame_low_bits:
  assumes "\<forall>n \<ge> 12. \<not> bit w n"
  shows "pte_frame mc (e AND NOT w) = pte_frame mc e"
  unfolding pte_frame_def
proof (rule bit_word_eqI)
  fix n
  assume "n < LENGTH(64)"
  have "\<not> bit w (12 + n)"
    using assms by simp
  then show "bit (drop_bit 12 ((e AND NOT w) AND FLAG_MASK mc)) n \<longleftrightarrow> bit (drop_bit 12 (e AND FLAG_MASK mc)) n"
    using bit_imp_le_length [of e "12 + n"] by (auto simp: bit_simps)
qed

lemma pte_frame_read_only [simp]: "pte_frame mc (read_only e) = pte_frame mc e"
  unfolding read_only_def by (rule pte_frame_low_bits) (auto simp only: bit_two)

lemma read_only_idem [simp]: "read_only (read_only e) = read_only e"
  by (simp add: read_only_def and.assoc)

lemma map_option_read_only [simp]:
  "map_option (pte_frame mc) (map_option read_only x) = map_option (pte_frame mc) x"
  "map_option read_only (map_option read_only x) = map_option read_only x"
  by (cases x; simp)+

lemma ucast_frame:
  assumes "0 < f" "f < 2 ^ 32"
  shows "(ucast (ucast (f :: u64) :: u32) :: u64) = f" "(ucast f :: u32) \<noteq> 0"
proof -
  have "unat f < 2 ^ 32"
    using assms(2) by (simp add: word_less_nat_alt)
  then have u: "unat (ucast f :: u32) = unat f"
    by (simp add: unsigned_ucast_eq take_bit_nat_eq_self)
  then show "(ucast (ucast f :: u32) :: u64) = f"
    using \<open>unat f < 2 ^ 32\<close>
    by (simp add: word_unat_eq_iff unsigned_ucast_eq unsigned_take_bit_eq take_bit_nat_eq_self)
  show "(ucast f :: u32) \<noteq> 0"
    using u assms(1) by (metis unat_gt_0 unsigned_0 less_irrefl)
qed

text \<open>How many of the pages \<open>ps\<close> the table \<open>p\<close> maps to the frame \<open>f\<close>.\<close>

definition mappings :: "page_macros \<Rightarrow> 'k kernel \<Rightarrow> u64 \<Rightarrow> u64 list \<Rightarrow> u64 \<Rightarrow> 'k \<Rightarrow> nat" where
  "mappings mc K p ps f k =
     length (filter (\<lambda>v. map_option (pte_frame mc) (get_user_pte K p v k) = Some f) ps)"

section \<open>Sharing pages\<close>

text \<open>
  The effect on every entry and every count of a part of the fork that shares the pages \<open>ps\<close>
  and gives the child pages \<open>qs\<close> of its own.
\<close>

definition forked ::
  "page_macros \<Rightarrow> 'k kernel \<Rightarrow> (u32 \<Rightarrow> u32 \<Rightarrow> u64) \<Rightarrow> u64 \<Rightarrow> u64 \<Rightarrow> u64 list \<Rightarrow> u64 list
     \<Rightarrow> 'k \<Rightarrow> 'k \<Rightarrow> bool" where
  "forked mc K mk p c ps qs k k' \<longleftrightarrow>
     (\<forall>v. get_user_pte K p v k' =
        (if page_of v \<in> page_of ` set ps then map_option read_only (get_user_pte K p v k)
         else get_user_pte K p v k))
     \<and> (\<forall>v. page_of v \<notin> page_of ` set qs \<longrightarrow>
        get_user_pte K c v k' =
          (case get_user_pte K p v k of
             Some e \<Rightarrow> if page_of v \<in> page_of ` set ps then Some (mk (ucast (pte_frame mc e)) (MM_RD mc))
                       else get_user_pte K c v k
           | None \<Rightarrow> get_user_pte K c v k))
     \<and> (\<forall>f. in_table mc K p f k \<longrightarrow> get_refcount K f k' = get_refcount K f k
          + of_nat (mappings mc K p ps f k))"

lemma forked_own_pages: "own_pages mc K p c qs k k' \<Longrightarrow> forked mc K mk p c [] qs k k'"
  by (auto simp: forked_def own_pages_def mappings_def split: option.split)

lemma forked_refl: "forked mc K mk p c [] [] k k"
  by (auto simp: forked_def mappings_def split: option.split)

lemma forkedD:
  assumes "forked mc K mk p c ps qs k k'"
  shows "get_user_pte K p v k' =
      (if page_of v \<in> page_of ` set ps then map_option read_only (get_user_pte K p v k)
       else get_user_pte K p v k)"
    and "page_of v \<notin> page_of ` set qs \<Longrightarrow> get_user_pte K c v k' =
      (case get_user_pte K p v k of
         Some e \<Rightarrow> if page_of v \<in> page_of ` set ps then Some (mk (ucast (pte_frame mc e)) (MM_RD mc))
                   else get_user_pte K c v k
       | None \<Rightarrow> get_user_pte K c v k)"
    and "in_table mc K p f k \<Longrightarrow> get_refcount K f k' = get_refcount K f k
      + of_nat (mappings mc K p ps f k)"
  using assms unfolding forked_def by blast+

lemma forked_keeps_frames:
  assumes "forked mc K mk p c ps qs k k'"
  shows "map_option (pte_frame mc) (get_user_pte K p v k') = map_option (pte_frame mc) (get_user_pte K p v k)"
    and "in_table mc K p f k' \<longleftrightarrow> in_table mc K p f k"
    and "frames_ok mc K p k' \<longleftrightarrow> frames_ok mc K p k"
proof -
  show eq: "map_option (pte_frame mc) (get_user_pte K p v k') = map_option (pte_frame mc) (get_user_pte K p v k)" for v
    by (simp add: forkedD(1) [OF assms])
  have in_table: "in_table mc K p f j \<longleftrightarrow> (\<exists>v. map_option (pte_frame mc) (get_user_pte K p v j) = Some f)" for f j
    by (auto simp: in_table_def)
  show "in_table mc K p f k' \<longleftrightarrow> in_table mc K p f k" for f
    by (simp only: in_table eq)
  have frames: "frames_ok mc K p j \<longleftrightarrow>
      (\<forall>v f. map_option (pte_frame mc) (get_user_pte K p v j) = Some f \<longrightarrow> 0 < f \<and> f < 2 ^ 32)" for j
    by (auto simp: frames_ok_def)
  show "frames_ok mc K p k' \<longleftrightarrow> frames_ok mc K p k"
    by (simp only: frames eq)
qed

lemma tables_okD:
  assumes "tables_ok K mk p c"
  shows "page_of v = page_of v' \<Longrightarrow> get_user_pte K q v k = get_user_pte K q v' k"
    and "q \<in> {p, c} \<Longrightarrow> get_user_pte K q v' (write_pte K p v e k) =
          (if q = p \<and> page_of v' = page_of v \<and> get_user_pte K p v k \<noteq> None then Some e
           else get_user_pte K q v' k)"
    and "f \<noteq> 0 \<Longrightarrow> fst (map_physical_page K (osmap K c) v fl f k) = f"
    and "q \<in> {p, c} \<Longrightarrow> get_user_pte K q v' (snd (map_physical_page K (osmap K c) v fl f k)) =
          (if q = c \<and> page_of v' = page_of v
           then Some (mk (fst (map_physical_page K (osmap K c) v fl f k)) fl)
           else get_user_pte K q v' k)"
    and "get_user_pte K q v (invlpg K a k) = get_user_pte K q v k"
    and "get_user_pte K q v (inc_refcount K g k) = get_user_pte K q v k"
proof -
  note laws = assms [unfolded tables_ok_def]
  show "page_of v = page_of v' \<Longrightarrow> get_user_pte K q v k = get_user_pte K q v' k"
    using conjunct1 [OF laws] by blast
  note rest = conjunct2 [OF laws]
  show "q \<in> {p, c} \<Longrightarrow> get_user_pte K q v' (write_pte K p v e k) =
          (if q = p \<and> page_of v' = page_of v \<and> get_user_pte K p v k \<noteq> None then Some e
           else get_user_pte K q v' k)"
    using bspec [OF conjunct1 [OF rest], of q] by blast
  note rest = conjunct2 [OF rest]
  show "f \<noteq> 0 \<Longrightarrow> fst (map_physical_page K (osmap K c) v fl f k) = f"
    using conjunct1 [OF rest] by blast
  note rest = conjunct2 [OF rest]
  show "q \<in> {p, c} \<Longrightarrow> get_user_pte K q v' (snd (map_physical_page K (osmap K c) v fl f k)) =
          (if q = c \<and> page_of v' = page_of v
           then Some (mk (fst (map_physical_page K (osmap K c) v fl f k)) fl)
           else get_user_pte K q v' k)"
    using bspec [OF conjunct1 [OF rest], of q] by blast
  note rest = conjunct2 [OF rest]
  show "get_user_pte K q v (invlpg K a k) = get_user_pte K q v k"
    using conjunct1 [OF rest] by blast
  show "get_user_pte K q v (inc_refcount K g k) = get_user_pte K q v k"
    using conjunct2 [OF rest] by blast
qed


lemma counts_okD:
  assumes "counts_ok K p c"
  shows "get_refcount K f (write_pte K p v e k) = get_refcount K f k"
    and "h \<noteq> 0 \<Longrightarrow> get_refcount K f (snd (map_physical_page K (osmap K c) v fl h k)) = get_refcount K f k"
    and "get_refcount K f (invlpg K a k) = get_refcount K f k"
    and "get_refcount K f (inc_refcount K g k)
          = (if f = g then get_refcount K f k + 1 else get_refcount K f k)"
  using assms unfolding counts_ok_def by blast+

lemma forked_share_page:
  assumes ok: "tables_ok K mk p c" "counts_ok K p c" and "pgd parent = p" "c \<noteq> p" "frames_ok mc K p k"
  shows "forked mc K mk p c [a] [] k (share_page mc K parent (osmap K c) a k)"
proof (cases "get_user_pte K p a k")
  case None
  have "get_user_pte K p v k = None" if "page_of v = page_of a" for v
    using tables_okD(1) [OF ok(1) that, of p k] None by simp
  then show ?thesis
    using None assms(3) by (auto simp: forked_def share_page_def mappings_def split: option.split)
next
  case (Some e)
  let ?f = "ucast (pte_frame mc e) :: u32"
  have f: "?f \<noteq> 0" "(ucast ?f :: u64) = pte_frame mc e"
    using assms(5) Some ucast_frame [of "pte_frame mc e"] by (auto simp: frames_ok_def)
  have same: "get_user_pte K p v k = Some e" if "page_of v = page_of a" for v
    using tables_okD(1) [OF ok(1) that, of p k] Some by simp
  have fst: "fst (map_physical_page K (osmap K c) a (MM_RD mc) ?f j) = ?f" for j
    by (rule tables_okD(3) [OF ok(1) f(1)])
  let ?k1 = "write_pte K p a (read_only e) k"
  let ?k2 = "snd (map_physical_page K (osmap K c) a (MM_RD mc) ?f ?k1)"
  have k': "share_page mc K parent (osmap K c) a k = inc_refcount K (pte_frame mc e) (invlpg K a ?k2)"
    using Some assms(3) fst f(2) by (simp add: share_page_def Let_def case_prod_beta)
  have ptes: "get_user_pte K q v (share_page mc K parent (osmap K c) a k) =
      (if q = c \<and> page_of v = page_of a then Some (mk ?f (MM_RD mc))
       else if q = p \<and> page_of v = page_of a then Some (read_only e) else get_user_pte K q v k)"
    if "q \<in> {p, c}" for q v
    unfolding k' tables_okD(5,6) [OF ok(1)] tables_okD(4) [OF ok(1) that] fst
      tables_okD(2) [OF ok(1) that] by (simp add: Some)
  have "get_refcount K g (share_page mc K parent (osmap K c) a k) =
      (if g = pte_frame mc e then get_refcount K g k + 1 else get_refcount K g k)" for g
    unfolding k' counts_okD(3,4) [OF ok(2)] counts_okD(2) [OF ok(2) f(1)] counts_okD(1) [OF ok(2)] ..
  then show ?thesis
    using Some same assms(4) ptes [of p] ptes [of c]
    by (auto simp: forked_def mappings_def split: option.split)
qed

lemma forked_trans:
  assumes 1: "forked mc K mk p c ps qs k k1" and 2: "forked mc K mk p c ps' qs' k1 k2"
  shows "forked mc K mk p c (ps @ ps') (qs @ qs') k k2"
  unfolding forked_def
proof (intro conjI allI impI)
  note frames = forked_keeps_frames [OF 1]
  show "get_user_pte K p v k2 =
      (if page_of v \<in> page_of ` set (ps @ ps') then map_option read_only (get_user_pte K p v k)
       else get_user_pte K p v k)" for v
    by (simp add: forkedD(1) [OF 2] forkedD(1) [OF 1] image_Un)
  show "get_user_pte K c v k2 =
      (case get_user_pte K p v k of
         Some e \<Rightarrow> if page_of v \<in> page_of ` set (ps @ ps') then Some (mk (ucast (pte_frame mc e)) (MM_RD mc))
                   else get_user_pte K c v k
       | None \<Rightarrow> get_user_pte K c v k)"
    if out: "page_of v \<notin> page_of ` set (qs @ qs')" for v
  proof -
    have out: "page_of v \<notin> page_of ` set qs" "page_of v \<notin> page_of ` set qs'"
      using out by auto
    have img: "page_of v \<in> page_of ` set (ps @ ps')
        \<longleftrightarrow> page_of v \<in> page_of ` set ps \<or> page_of v \<in> page_of ` set ps'"
      by (simp add: image_Un)
    show ?thesis
      unfolding forkedD(2) [OF 2 out(2)] forkedD(2) [OF 1 out(1)] forkedD(1) [OF 1] img
      by (cases "get_user_pte K p v k") simp_all
  qed
  have m: "mappings mc K p (ps @ ps') f k = mappings mc K p ps f k + mappings mc K p ps' f k1" for f
    by (simp add: mappings_def frames(1))
  show "get_refcount K f k2 = get_refcount K f k + of_nat (mappings mc K p (ps @ ps') f k)"
    if "in_table mc K p f k" for f
    using forkedD(3) [OF 2, of f] forkedD(3) [OF 1 that] that
    by (simp add: frames(2) m)
qed

lemma forked_fold:
  assumes "\<And>a k. frames_ok mc K p k \<Longrightarrow> forked mc K mk p c (f a) (g a) k (body a k)"
    and "frames_ok mc K p k"
  shows "forked mc K mk p c (concat (map f vs)) (concat (map g vs)) k (fold body vs k)"
  using assms(2)
proof (induction vs arbitrary: k)
  case Nil
  then show ?case
    by (simp add: forked_refl)
next
  case (Cons a vs)
  note step = assms(1) [OF Cons.prems, of a]
  have "frames_ok mc K p (body a k)"
    using forked_keeps_frames(3) [OF step] Cons.prems by simp
  from forked_trans [OF step Cons.IH [OF this]] show ?case
    by simp
qed

lemma concat_single: "concat (map (\<lambda>a. [a]) vs) = vs" "concat (map (\<lambda>a. []) vs) = []"
  by (induction vs) simp_all

lemma forked_share_pages:
  assumes "tables_ok K mk p c" "counts_ok K p c" "pgd parent = p" "c \<noteq> p" "frames_ok mc K p k"
  shows "forked mc K mk p c vs [] k (fold (share_page mc K parent (osmap K c)) vs k)"
  using forked_fold [of mc K p mk c "\<lambda>a. [a]" "\<lambda>a. []", OF forked_share_page [OF assms(1-4)] assms(5), of vs]
  by (simp only: concat_single)

lemma forked_own_fold:
  assumes "\<And>a k. own_pages mc K p c [a] k (body a k)" "frames_ok mc K p k"
  shows "forked mc K mk p c [] vs k (fold body vs k)"
  using forked_fold [of mc K p mk c "\<lambda>a. []" "\<lambda>a. [a]", OF forked_own_pages [OF assms(1)] assms(2), of vs]
  by (simp only: concat_single)

section \<open>The loops\<close>

lemma own_pages_refl: "own_pages mc K p c vs k k"
  by (simp add: own_pages_def)

lemma installs_okD:
  assumes "installs_ok mc K p c"
  shows "own_pages mc K p c [v] k (snd (install_ptable K (osmap K c) seg v f k))"
    and "own_pages mc K p c [v] k
          (case install_ptable K (osmap K c) seg v 0 k of (f, k') \<Rightarrow> copy_page K (osmap K f) src k')"
    and "own_pages mc K p c [] k (copy_os_pts K p c k)"
    and "get_user_pte K p v (zero_page K (osmap K c) (snd (os_pfn_alloc K k))) = get_user_pte K p v k"
    and "get_user_pte K c v (zero_page K (osmap K c) (snd (os_pfn_alloc K k))) = None"
    and "in_table mc K p g k \<Longrightarrow>
      get_refcount K g (zero_page K (osmap K c) (snd (os_pfn_alloc K k))) = get_refcount K g k"
  using assms unfolding installs_ok_def by blast+

lemma own_copy_entry:
  assumes "installs_ok mc K p c"
  shows "own_pages mc K p c [v] k (copy_entry mc K parent (osmap K c) seg v k)"
  by (cases "get_user_pte K (pgd parent) v k")
    (simp_all add: copy_entry_def own_pages_refl installs_okD(1) [OF assms])

lemma own_copy_stack_page:
  assumes "installs_ok mc K p c"
  shows "own_pages mc K p c [v] k (copy_stack_page mc K parent (osmap K c) seg v k)"
  using installs_okD(2) [OF assms, where v = v and seg = seg]
  by (cases "get_user_pte K (pgd parent) v k")
    (simp_all add: copy_stack_page_def Let_def own_pages_refl)

text \<open>The pages of the loop that goes down.\<close>

definition down_pages :: "u64 \<Rightarrow> u64 \<Rightarrow> u64 list" where
  "down_pages v lo =
     (if v < lo then [] else map (\<lambda>i. v - 4096 * of_nat i) [0..<Suc ((unat v - unat lo) div 4096)])"

lemma down_pages_step:
  assumes "lo \<le> v" "4096 \<le> lo"
  shows "down_pages v lo = v # down_pages (v - 4096) lo"
proof -
  have u: "unat lo \<le> unat v" "4096 \<le> unat lo"
    using assms by (simp_all add: word_le_nat_alt)
  then have n: "unat (v - 4096) = unat v - 4096"
    by (subst unat_sub) (simp_all add: word_le_nat_alt)
  show ?thesis
  proof (cases "v - 4096 < lo")
    case True
    then have "(unat v - unat lo) div 4096 = 0"
      using u n by (simp add: word_less_nat_alt)
    then show ?thesis
      using True assms(1) by (simp add: down_pages_def)
  next
    case False
    then have "unat lo \<le> unat v - 4096"
      using n by (simp add: word_less_nat_alt)
    then have "unat v - unat lo = unat v - 4096 - unat lo + 1 * 4096"
      using u by simp
    then have "(unat v - unat lo) div 4096 = Suc ((unat v - 4096 - unat lo) div 4096)"
      by (simp only: div_mult_self1 [of "4096 :: nat"])
    then show ?thesis
      using False assms(1) unfolding down_pages_def n
      by (simp only: not_less if_False if_not_P map_upt_Suc) (simp add: distrib_left diff_diff_add)
  qed
qed

lemma down_loop_pages:
  assumes "4096 \<le> lo"
  shows "down_loop body v lo k = Some (fold body (down_pages v lo) k)"
proof (induction "unat v" arbitrary: v k rule: less_induct)
  case less
  show ?case
  proof (cases "lo \<le> v")
    case True
    then have "unat (v - 4096) < unat v"
      using assms by (subst unat_sub) (auto simp add: word_le_nat_alt)
    from less [OF this] show ?thesis
      using True down_pages_step [OF True assms] by (subst down_loop.simps) simp
  next
    case False
    then show ?thesis
      by (subst down_loop.simps, subst if_not_P) (simp_all add: down_pages_def not_le)
  qed
qed

section \<open>The fork\<close>

definition segment_pages :: "mm_segment \<Rightarrow> u64 list" where
  "segment_pages seg = pages (seg_start seg) (next_free seg)"

definition area_pages :: "vm_area list \<Rightarrow> u64 list" where
  "area_pages vms = concat (map (\<lambda>v. pages (vm_start v) (vm_end v)) vms)"

text \<open>The pages the fork shares, and those of which the child gets its own entry.\<close>

definition cow_pages :: "proc_context \<Rightarrow> u64 list" where
  "cow_pages ctx = segment_pages (seg_data ctx) @ area_pages (vm_areas ctx)"

definition private_pages :: "proc_context \<Rightarrow> u64 list" where
  "private_pages ctx =
     segment_pages (seg_code ctx) @ segment_pages (seg_rodata ctx)
       @ down_pages (seg_end (seg_stack ctx) - 4096) (next_free (seg_stack ctx))"

text \<open>The segments and areas of a process lie in the lower half of the address space.\<close>

definition user_layout :: "proc_context \<Rightarrow> bool" where
  "user_layout ctx \<longleftrightarrow>
     next_free (seg_code ctx) \<le> 2 ^ 63 \<and> next_free (seg_rodata ctx) \<le> 2 ^ 63
     \<and> next_free (seg_data ctx) \<le> 2 ^ 63 \<and> 4096 \<le> next_free (seg_stack ctx)
     \<and> (\<forall>v \<in> set (vm_areas ctx). vm_end v \<le> 2 ^ 63)"

lemma share_areas_pages:
  assumes "\<forall>v \<in> set vs. vm_end v \<le> 2 ^ 63"
  shows "share_areas mc K parent addr vs k = Some (fold (share_page mc K parent addr) (area_pages vs) k)"
  using assms
  by (induction vs arbitrary: k) (simp_all add: area_pages_def page_loop_pages)

lemma segment_loop_pages:
  assumes "next_free seg \<le> 2 ^ 63"
  shows "segment_loop body seg k = Some (fold (body seg) (segment_pages seg) k)"
  by (simp add: segment_loop_def segment_pages_def page_loop_pages [OF assms])

text \<open>The whole function as a composition of folds.\<close>

definition forked_memory ::
  "page_macros \<Rightarrow> 'k kernel \<Rightarrow> proc_context \<Rightarrow> u64 \<Rightarrow> 'k \<Rightarrow> 'k" where
  "forked_memory mc K parent c k =
     (let copy = copy_entry mc K parent (osmap K c);
          share = share_page mc K parent (osmap K c);
          stack = seg_stack parent;
          k = fold (copy (seg_code parent)) (segment_pages (seg_code parent)) k;
          k = fold (copy (seg_rodata parent)) (segment_pages (seg_rodata parent)) k;
          k = fold share (segment_pages (seg_data parent)) k;
          k = fold (copy_stack_page mc K parent (osmap K c) stack)
                (down_pages (seg_end stack - 4096) (next_free stack)) k;
          k = fold share (area_pages (vm_areas parent)) k
      in copy_os_pts K (pgd parent) c k)"

lemma cfork_copy_mm_returns:
  assumes "user_layout parent" "fst (os_pfn_alloc K k) = c"
  shows "cfork_copy_mm mc K child parent k =
     Returns (child\<lparr>pgd := c\<rparr>, forked_memory mc K parent c (zero_page K (osmap K c) (snd (os_pfn_alloc K k))))"
  using assms
  by (simp add: cfork_copy_mm_def forked_memory_def Let_def case_prod_beta user_layout_def
      segment_loop_pages down_loop_pages share_areas_pages)

lemma forked_forked_memory:
  assumes ok: "tables_ok K mk p c" "counts_ok K p c" "installs_ok mc K p c"
    and p: "pgd parent = p" "c \<noteq> p" and frames: "frames_ok mc K p k"
  shows "forked mc K mk p c (cow_pages parent) (private_pages parent) k (forked_memory mc K parent c k)"
proof -
  let ?copy = "\<lambda>seg k. fold (copy_entry mc K parent (osmap K c) seg) (segment_pages seg) k"
  let ?share = "\<lambda>vs k. fold (share_page mc K parent (osmap K c)) vs k"
  let ?stack = "down_pages (seg_end (seg_stack parent) - 4096) (next_free (seg_stack parent))"
  have own: "forked mc K mk p c [] vs j (fold (copy_entry mc K parent (osmap K c) seg) vs j)"
    "forked mc K mk p c [] vs j (fold (copy_stack_page mc K parent (osmap K c) seg) vs j)"
    if "frames_ok mc K p j" for seg vs j
    by (rule forked_own_fold [OF own_copy_entry [OF ok(3)] that]
        forked_own_fold [OF own_copy_stack_page [OF ok(3)] that])+
  note share = forked_share_pages [OF ok(1,2) p]
  let ?k1 = "?copy (seg_code parent) k"
  let ?k2 = "?copy (seg_rodata parent) ?k1"
  let ?k3 = "?share (segment_pages (seg_data parent)) ?k2"
  let ?k4 = "fold (copy_stack_page mc K parent (osmap K c) (seg_stack parent)) ?stack ?k3"
  let ?k5 = "?share (area_pages (vm_areas parent)) ?k4"
  note s1 = own(1) [OF frames, where seg = "seg_code parent" and vs = "segment_pages (seg_code parent)"]
  have f1: "frames_ok mc K p ?k1"
    using forked_keeps_frames(3) [OF s1] frames by simp
  note s2 = own(1) [OF f1, where seg = "seg_rodata parent" and vs = "segment_pages (seg_rodata parent)"]
  have f2: "frames_ok mc K p ?k2"
    using forked_keeps_frames(3) [OF s2] f1 by simp
  note s3 = share [OF f2, where vs = "segment_pages (seg_data parent)"]
  have f3: "frames_ok mc K p ?k3"
    using forked_keeps_frames(3) [OF s3] f2 by simp
  note s4 = own(2) [OF f3, where seg = "seg_stack parent" and vs = ?stack]
  have f4: "frames_ok mc K p ?k4"
    using forked_keeps_frames(3) [OF s4] f3 by simp
  note s5 = share [OF f4, where vs = "area_pages (vm_areas parent)"]
  note s6 = forked_own_pages [OF installs_okD(3) [OF ok(3)], where mk = mk and k = ?k5]
  from forked_trans [OF forked_trans [OF forked_trans [OF forked_trans [OF forked_trans [OF s1 s2] s3] s4] s5] s6]
  show ?thesis
    by (simp add: forked_memory_def Let_def cow_pages_def private_pages_def p(1))
qed

lemma cfork_effect:
  assumes "tables_ok K mk p c" "counts_ok K p c" "installs_ok mc K p c"
    and "pgd parent = p" "fst (os_pfn_alloc K k) = c" "c \<noteq> p"
    and "frames_ok mc K p k" "user_layout parent"
  obtains k' where "cfork_copy_mm mc K child parent k = Returns (child\<lparr>pgd := c\<rparr>, k')"
    and "\<And>v. get_user_pte K p v k' =
        (if page_of v \<in> page_of ` set (cow_pages parent) then map_option read_only (get_user_pte K p v k)
         else get_user_pte K p v k)"
    and "\<And>v. page_of v \<notin> page_of ` set (private_pages parent) \<Longrightarrow>
        get_user_pte K c v k' =
          (if page_of v \<in> page_of ` set (cow_pages parent)
           then map_option (\<lambda>e. mk (ucast (pte_frame mc e)) (MM_RD mc)) (get_user_pte K p v k)
           else None)"
    and "\<And>f. in_table mc K p f k \<Longrightarrow> get_refcount K f k' = get_refcount K f k
        + of_nat (mappings mc K p (cow_pages parent) f k)"
    and "\<And>f. in_table mc K p f k' \<longleftrightarrow> in_table mc K p f k"
proof -
  let ?z = "zero_page K (osmap K c) (snd (os_pfn_alloc K k))"
  let ?k' = "forked_memory mc K parent c ?z"
  note zero = installs_okD(4-6) [OF assms(3), of _ k]
  have in_table: "in_table mc K p f ?z \<longleftrightarrow> in_table mc K p f k" for f
    by (simp add: in_table_def zero)
  have "frames_ok mc K p ?z"
    using assms(7) by (simp add: frames_ok_def zero)
  note F = forked_forked_memory [OF assms(1-4,6) this]
  note D = forkedD [OF F, unfolded zero in_table]
  show thesis
  proof (rule that [of ?k'])
    show "cfork_copy_mm mc K child parent k = Returns (child\<lparr>pgd := c\<rparr>, ?k')"
      by (rule cfork_copy_mm_returns [OF assms(8,5)])
    show "get_user_pte K c v ?k' =
        (if page_of v \<in> page_of ` set (cow_pages parent)
         then map_option (\<lambda>e. mk (ucast (pte_frame mc e)) (MM_RD mc)) (get_user_pte K p v k) else None)"
      if "page_of v \<notin> page_of ` set (private_pages parent)" for v
      unfolding D(2) [OF that] by (simp split: option.split)
    show "get_user_pte K p v ?k' =
        (if page_of v \<in> page_of ` set (cow_pages parent) then map_option read_only (get_user_pte K p v k)
         else get_user_pte K p v k)" for v
      by (rule D(1))
    show "get_refcount K f ?k' = get_refcount K f k
        + of_nat (mappings mc K p (cow_pages parent) f k)" if "in_table mc K p f k" for f
      using D(3) [OF that] zero(3) [OF that] by (simp add: mappings_def zero)
    show "in_table mc K p f ?k' \<longleftrightarrow> in_table mc K p f k" for f
      using forked_keeps_frames(2) [OF F] in_table by simp
  qed
qed

text \<open>
  C17: Copy-on-write fork. \<open>cfork_copy_mm\<close> terminates and returns the child on a table of its own.
  Every page of the data segment and of the areas that the parent has mapped is now read-only in
  the parent and mapped read-only to the same frame in the child; the parent's other pages stay
  as they were, the child has no pages besides the shared ones and those of code, constants and
  stack, and the reference count of each frame rises by the number of pages that share it.\<close>

theorem cfork_shares:
  assumes "tables_ok K mk p c" "counts_ok K p c" "installs_ok mc K p c"
    and "pgd parent = p" "fst (os_pfn_alloc K k) = c" "c \<noteq> p"
    and "frames_ok mc K p k" "user_layout parent"
  shows "\<exists>k'. cfork_copy_mm mc K child parent k = Returns (child\<lparr>pgd := c\<rparr>, k')
    \<and> (\<forall>v. get_user_pte K p v k' =
        (if page_of v \<in> page_of ` set (cow_pages parent) then map_option read_only (get_user_pte K p v k)
         else get_user_pte K p v k))
    \<and> (\<forall>v. page_of v \<in> page_of ` set (private_pages parent)
        \<or> get_user_pte K c v k' =
          (if page_of v \<in> page_of ` set (cow_pages parent)
           then map_option (\<lambda>e. mk (ucast (pte_frame mc e)) (MM_RD mc)) (get_user_pte K p v k)
           else None))
    \<and> (\<forall>f. in_table mc K p f k \<longrightarrow> get_refcount K f k' = get_refcount K f k
        + of_nat (mappings mc K p (cow_pages parent) f k))"
  by (rule cfork_effect [OF assms, of child]) blast

section \<open>A small kernel\<close>

text \<open>
  A machine on which the hypotheses above hold: the parent's table 1 maps one page, number 5;
  table 2 is the child's; memory is an array of bytes.
\<close>

record small_memory =
  parent_entry :: u64
  child_entries :: "u64 \<Rightarrow> u64 option"
  counts :: "u64 \<Rightarrow> i32"
  bytes :: "u64 \<Rightarrow> u8"

definition small_macros :: page_macros where
  "small_macros = \<lparr>FLAG_MASK = NOT (mask 12), MM_RD = 5, MM_WR = 7\<rparr>"

definition small_entry :: "u32 \<Rightarrow> u32 \<Rightarrow> u64" where
  "small_entry f fl = push_bit 12 (ucast f) OR (ucast fl AND mask 12)"

text \<open>A frame the parent does not use.\<close>

definition small_fresh :: "small_memory \<Rightarrow> u32" where
  "small_fresh k = (if pte_frame small_macros (parent_entry k) = 7 then 8 else 7)"

definition small_install :: "u64 \<Rightarrow> u64 \<Rightarrow> u32 \<Rightarrow> u32 \<Rightarrow> small_memory \<Rightarrow> small_memory" where
  "small_install base v fl g k =
     (if base = 8192 then k\<lparr>child_entries := (child_entries k)(page_of v \<mapsto> small_entry g fl)\<rparr> else k)"

definition small_blank :: "u32 \<Rightarrow> small_memory \<Rightarrow> small_memory" where
  "small_blank g k = k\<lparr>bytes := (\<lambda>a. if page_of a = ucast g then 0 else bytes k a)\<rparr>"

definition small_map :: "u64 \<Rightarrow> u64 \<Rightarrow> u32 \<Rightarrow> u32 \<Rightarrow> small_memory \<Rightarrow> u32 \<times> small_memory" where
  "small_map base v fl f k =
     (if f \<noteq> 0 then (f, small_install base v fl f k)
      else (small_fresh k, small_install base v fl (small_fresh k) (small_blank (small_fresh k) k)))"

definition small_kernel :: "small_memory kernel" where
  "small_kernel =
     \<lparr>osmap = push_bit 12,
      map_physical_page = small_map,
      do_unmap_user = (\<lambda>p v k. k),
      get_user_pte = (\<lambda>p v k. if p = 1 then (if page_of v = 5 then Some (parent_entry k) else None)
         else if p = 2 then child_entries k (page_of v) else None),
      invlpg = (\<lambda>v k. k),
      write_pte = (\<lambda>p v e k. if p = 1 \<and> page_of v = 5 then k\<lparr>parent_entry := e\<rparr> else k),
      install_ptable = (\<lambda>base seg v f k.
         case small_map base v (seg_flags seg) (ucast f) k of (g, k) \<Rightarrow> (ucast g, k)),
      get_refcount = (\<lambda>f k. counts k f),
      inc_refcount = (\<lambda>f k. k\<lparr>counts := (counts k)(f := counts k f + 1)\<rparr>),
      dec_refcount = (\<lambda>f k. k\<lparr>counts := (counts k)(f := counts k f - 1)\<rparr>),
      copy_page = (\<lambda>d s k. k\<lparr>bytes := (\<lambda>a. if a - d < 4096 then bytes k (s + (a - d)) else bytes k a)\<rparr>),
      zero_page = (\<lambda>base k. if base = 8192 then k\<lparr>child_entries := (\<lambda>v. None)\<rparr> else k),
      os_pfn_alloc = (\<lambda>k. (2, k)),
      copy_os_pts = (\<lambda>p c k. k)\<rparr>"

lemma push_bit_table [simp]: "push_bit 12 (2 :: u64) = 8192"
  by (simp add: push_bit_eq_mult)

lemma small_fresh_nonzero [simp]: "small_fresh k \<noteq> 0"
  by (simp add: small_fresh_def)

lemma small_install_simps [simp]:
  "parent_entry (small_install base v fl g k) = parent_entry k"
  "counts (small_install base v fl g k) = counts k"
  "bytes (small_install base v fl g k) = bytes k"
  "parent_entry (small_blank g k) = parent_entry k"
  "child_entries (small_blank g k) = child_entries k"
  "counts (small_blank g k) = counts k"
  "child_entries (small_install 8192 v fl g k) = (child_entries k)(page_of v \<mapsto> small_entry g fl)"
  by (simp_all add: small_install_def small_blank_def)

lemma small_tables_ok: "tables_ok small_kernel small_entry 1 2"
  by (simp add: tables_ok_def small_kernel_def small_map_def)

lemma small_counts_ok: "counts_ok small_kernel 1 2"
  by (simp add: counts_ok_def small_kernel_def small_map_def)

lemma small_installs_ok: "installs_ok small_macros small_kernel 1 2"
  by (auto simp: installs_ok_def own_pages_def small_kernel_def small_map_def split: prod.split)

lemma small_frame: "pte_frame small_macros (small_entry g fl) = ucast g"
proof -
  have "bit (pte_frame small_macros (small_entry g fl)) n \<longleftrightarrow> bit (ucast g :: u64) n" if "n < 64" for n
    using bit_imp_le_length [of g n] that unfolding pte_frame_def small_macros_def small_entry_def page_macros.simps
    by (auto simp: bit_simps)
  then show ?thesis
    by (intro bit_word_eqI) simp
qed

lemma small_rights [simp]: "MM_RD small_macros = 5" "MM_WR small_macros = 7"
  by (simp_all add: small_macros_def)

text \<open>A process with one page of data, mapped to frame 3.\<close>

definition small_parent :: proc_context where
  "small_parent = \<lparr>pgd = 1, vm_areas = [],
     seg_code = \<lparr>seg_start = 4096, seg_end = 4096, next_free = 4096, seg_flags = 5\<rparr>,
     seg_rodata = \<lparr>seg_start = 8192, seg_end = 8192, next_free = 8192, seg_flags = 1\<rparr>,
     seg_data = \<lparr>seg_start = 20480, seg_end = 24576, next_free = 24576, seg_flags = 7\<rparr>,
     seg_stack = \<lparr>seg_start = 40960, seg_end = 45056, next_free = 45056, seg_flags = 7\<rparr>,
     p_state = READY, rbp = 0, entry_rsp = 0\<rparr>"

definition small_start :: small_memory where
  "small_start = \<lparr>parent_entry = small_entry 3 7, child_entries = (\<lambda>v. None),
     counts = (\<lambda>f. 1), bytes = (\<lambda>a. if a = 12288 then 65 else 0)\<rparr>"

lemma small_pages:
  "cow_pages small_parent = [20480]" "private_pages small_parent = []"
  by (simp_all add: cow_pages_def private_pages_def segment_pages_def area_pages_def small_parent_def
      pages_def down_pages_def)

lemma small_frames_ok: "frames_ok small_macros small_kernel 1 small_start"
  by (simp add: frames_ok_def small_kernel_def small_start_def small_frame word_less_nat_alt)

lemma small_layout: "user_layout small_parent"
  by (simp add: user_layout_def small_parent_def)

theorem cfork_shares_witness:
  "\<exists>k'. cfork_copy_mm small_macros small_kernel small_parent small_parent small_start
      = Returns (small_parent\<lparr>pgd := 2\<rparr>, k')
    \<and> get_user_pte small_kernel 1 20480 k' = Some (read_only (small_entry 3 7))
    \<and> get_user_pte small_kernel 2 20480 k' = Some (small_entry 3 5)"
proof -
  have s: "get_user_pte small_kernel 1 20480 small_start = Some (small_entry 3 7)"
    by (simp add: small_kernel_def small_start_def page_of_def drop_bit_eq_div)
  have "fst (os_pfn_alloc small_kernel small_start) = 2" "pgd small_parent = 1"
    by (simp_all add: small_kernel_def small_parent_def)
  from cfork_shares [OF small_tables_ok small_counts_ok small_installs_ok this(2,1) _ small_frames_ok small_layout,
      of small_parent]
  obtain k' where "cfork_copy_mm small_macros small_kernel small_parent small_parent small_start
      = Returns (small_parent\<lparr>pgd := 2\<rparr>, k')"
    and "\<forall>v. get_user_pte small_kernel 1 v k' =
        (if page_of v \<in> page_of ` set (cow_pages small_parent)
         then map_option read_only (get_user_pte small_kernel 1 v small_start)
         else get_user_pte small_kernel 1 v small_start)"
    and "\<forall>v. page_of v \<in> page_of ` set (private_pages small_parent)
        \<or> get_user_pte small_kernel 2 v k' =
          (if page_of v \<in> page_of ` set (cow_pages small_parent)
           then map_option (\<lambda>e. small_entry (ucast (pte_frame small_macros e)) (MM_RD small_macros))
             (get_user_pte small_kernel 1 v small_start)
           else None)"
    by auto
  then show ?thesis
    by (intro exI [of _ k']) (simp add: small_pages s small_frame)
qed

end
