(* ===== verification/Cow_Fault.thy ===== *)
theory Cow_Fault
  imports Cfork_Effect
begin

text \<open>
  What \<open>handle_cow_fault\<close> returns and does to the page tables, the first write after a fork, and
  the stacks and the exit of a process made by \<open>vfork_copy_mm\<close>.
\<close>

section \<open>Copy-on-write faults\<close>

definition page_addr :: "u64 \<Rightarrow> u64" where
  "page_addr a = a - a mod 4096"

text \<open>A write at \<open>a\<close> is refused by the access flags of its area or of the data segment.\<close>

definition write_refused :: "mm_config \<Rightarrow> page_macros \<Rightarrow> proc_context \<Rightarrow> u64 \<Rightarrow> bool" where
  "write_refused cfg mc ctx a =
     (if MMAP_AREA_START cfg \<le> a \<and> a < MMAP_AREA_END cfg
      then (case perm_at (vm_areas ctx) a of Some fl \<Rightarrow> fl AND PROT_WRITE cfg = 0 | None \<Rightarrow> False)
      else seg_start (seg_data ctx) \<le> a \<and> a < seg_end (seg_data ctx) \<and> seg_flags (seg_data ctx) AND MM_WR mc = 0)"

definition cow_range :: "mm_config \<Rightarrow> proc_context \<Rightarrow> u64 \<Rightarrow> bool" where
  "cow_range cfg ctx a \<longleftrightarrow>
     MMAP_AREA_START cfg \<le> a \<and> a < MMAP_AREA_END cfg
     \<or> seg_start (seg_data ctx) \<le> a \<and> a < seg_end (seg_data ctx)"

lemma cow_pgd [simp]:
  "write_refused cfg mc (ctx\<lparr>pgd := c\<rparr>) a = write_refused cfg mc ctx a"
  "cow_range cfg (ctx\<lparr>pgd := c\<rparr>) a = cow_range cfg ctx a"
  by (simp_all add: write_refused_def cow_range_def)

lemma page_addr_if: "(if a mod 4096 \<noteq> 0 then a - a mod 4096 else a) = page_addr a"
  by (simp add: page_addr_def)

lemma handle_cow_fault_cases:
  "handle_cow_fault cfg mc K ctx a k =
     (if write_refused cfg mc ctx (page_addr a) then (- 1, invlpg K (page_addr a) k)
      else if \<not> cow_range cfg ctx (page_addr a) then (1, invlpg K (page_addr a) k)
      else (case cow_page mc K ctx (page_addr a) k of
              None \<Rightarrow> (- 1, k) | Some k' \<Rightarrow> (1, invlpg K (page_addr a) k')))"
  unfolding handle_cow_fault_def page_addr_if Let_def
  by (auto simp: write_refused_def cow_range_def perm_at_def split: option.split)


text \<open>
  The further laws a fault needs, with \<open>p\<close> the table of the other process: a count goes down by
  one, and a frame that is handed out is none of the frames in the table \<open>p\<close>, whose counts stay.
\<close>

definition fault_ok :: "page_macros \<Rightarrow> 'k kernel \<Rightarrow> u64 \<Rightarrow> u64 \<Rightarrow> bool" where
  "fault_ok mc K p c \<longleftrightarrow>
     (\<forall>q \<in> {p, c}. \<forall>v f k. get_user_pte K q v (dec_refcount K f k) = get_user_pte K q v k)
     \<and> (\<forall>f g k. get_refcount K g (dec_refcount K f k)
          = (if g = f then get_refcount K g k - 1 else get_refcount K g k))
     \<and> (\<forall>v fl k. \<not> in_table mc K p (ucast (fst (map_physical_page K (osmap K c) v fl 0 k))) k)
     \<and> (\<forall>v fl k g. in_table mc K p g k \<longrightarrow>
          get_refcount K g (snd (map_physical_page K (osmap K c) v fl 0 k)) = get_refcount K g k)"

lemma fault_okD:
  assumes "fault_ok mc K p c"
  shows "q \<in> {p, c} \<Longrightarrow> get_user_pte K q v (dec_refcount K f k) = get_user_pte K q v k"
    and "get_refcount K g (dec_refcount K f k)
          = (if g = f then get_refcount K g k - 1 else get_refcount K g k)"
    and "\<not> in_table mc K p (ucast (fst (map_physical_page K (osmap K c) v fl 0 k))) k"
    and "in_table mc K p g k \<Longrightarrow>
          get_refcount K g (snd (map_physical_page K (osmap K c) v fl 0 k)) = get_refcount K g k"
  using assms unfolding fault_ok_def by blast+

text \<open>
  The copy to the address that is the number of a frame is a stray one. This says of one such copy
  that it hits neither the two page tables nor a reference count; no law of the kernel gives it.
\<close>

definition copy_spares :: "'k kernel \<Rightarrow> u64 \<Rightarrow> u64 \<Rightarrow> u64 \<Rightarrow> u64 \<Rightarrow> 'k \<Rightarrow> bool" where
  "copy_spares K p c dst src k \<longleftrightarrow>
     (\<forall>q \<in> {p, c}. \<forall>v. get_user_pte K q v (copy_page K dst src k) = get_user_pte K q v k)
     \<and> (\<forall>g. get_refcount K g (copy_page K dst src k) = get_refcount K g k)"

lemma copy_sparesD:
  assumes "copy_spares K p c dst src k"
  shows "q \<in> {p, c} \<Longrightarrow> get_user_pte K q v (copy_page K dst src k) = get_user_pte K q v k"
    and "get_refcount K g (copy_page K dst src k) = get_refcount K g k"
  using assms unfolding copy_spares_def by blast+

text \<open>A write to a shared page by the process of table \<open>c\<close>, while \<open>p\<close> refers to the frame too.\<close>

lemma cow_page_shared:
  assumes ok: "tables_ok K mk p c" "counts_ok K p c" "fault_ok mc K p c"
    and ctx: "pgd ctx = c" and pc: "c \<noteq> p"
    and e: "get_user_pte K c a k = Some e"
    and count: "sint (get_refcount K (pte_frame mc e) k) > 1"
    and stray: "copy_spares K p c (pte_frame mc e) (e AND FLAG_MASK mc) (dec_refcount K (pte_frame mc e) k)"
  obtains g k' where "cow_page mc K ctx a k = Some k'"
    and "\<And>v. get_user_pte K c v k' =
      (if page_of v = page_of a then Some (mk g (MM_WR mc)) else get_user_pte K c v k)"
    and "\<And>v. get_user_pte K p v k' = get_user_pte K p v k"
    and "\<not> in_table mc K p (ucast g) k"
    and "\<And>h. in_table mc K p h k \<Longrightarrow> get_refcount K h k' =
      (if h = pte_frame mc e then get_refcount K h k - 1 else get_refcount K h k)"
proof -
  let ?f = "pte_frame mc e"
  let ?j = "copy_page K ?f (e AND FLAG_MASK mc) (dec_refcount K ?f k)"
  let ?m = "map_physical_page K (osmap K c) a (MM_WR mc) 0 ?j"
  have j: "get_user_pte K q v ?j = get_user_pte K q v k" if "q \<in> {p, c}" for q v
    by (simp only: copy_sparesD(1) [OF stray that] fault_okD(1) [OF ok(3) that])
  have in_table: "in_table mc K p h ?j \<longleftrightarrow> in_table mc K p h k" for h
    by (simp add: in_table_def j)
  show thesis
  proof (rule that [of "snd ?m" "fst ?m"])
    show "cow_page mc K ctx a k = Some (snd ?m)"
      using ctx e count by (simp add: cow_page_def Let_def)
    show "get_user_pte K c v (snd ?m) =
        (if page_of v = page_of a then Some (mk (fst ?m) (MM_WR mc)) else get_user_pte K c v k)" for v
      using tables_okD(4) [OF ok(1), of c] j [of c] by simp
    show "get_user_pte K p v (snd ?m) = get_user_pte K p v k" for v
      using tables_okD(4) [OF ok(1), of p] j [of p] pc by simp
    show "\<not> in_table mc K p (ucast (fst ?m)) k"
      using fault_okD(3) [OF ok(3), of a "MM_WR mc" ?j] in_table by simp
    fix h
    assume "in_table mc K p h k"
    then have "get_refcount K h (snd ?m) = get_refcount K h ?j"
      by (intro fault_okD(4) [OF ok(3)]) (simp add: in_table)
    then show "get_refcount K h (snd ?m) =
        (if h = ?f then get_refcount K h k - 1 else get_refcount K h k)"
      by (simp only: copy_sparesD(2) [OF stray] fault_okD(2) [OF ok(3)])
  qed
qed


lemma page_of_page_addr [simp]: "page_of (page_addr a) = page_of a"
proof -
  have "page_addr a = push_bit 12 (drop_bit 12 a)"
    using bits_ident [of 12 a] by (simp add: page_addr_def take_bit_eq_mod algebra_simps)
  then show ?thesis
    unfolding page_of_def by (simp only:) (rule bit_word_eqI, auto simp: bit_simps dest: bit_imp_le_length)
qed

lemma mappings_pos:
  assumes "tables_ok K mk p c" "get_user_pte K p a k = Some e" "page_of a \<in> page_of ` set ps"
  shows "0 < mappings mc K p ps (pte_frame mc e) k"
proof -
  obtain v where v: "v \<in> set ps" "page_of v = page_of a"
    using assms(3) by auto
  have "get_user_pte K p v k = Some e"
    using tables_okD(1) [OF assms(1) v(2), of p k] assms(2) by simp
  then show ?thesis
    using v(1) by (auto simp: mappings_def filter_empty_conv)
qed

lemma sint_add_of_nat:
  assumes "0 \<le> sint (n :: i32)" "sint n + int m < 2 ^ 31"
  shows "sint (n + of_nat m) = sint n + int m"
proof -
  have "signed_take_bit 31 (int m) = int m"
    using assms by (intro signed_take_bit_int_eq_self) simp_all
  then have "sint (of_nat m :: i32) = int m"
    by (simp add: signed_of_nat)
  then show ?thesis
    using assms by (simp add: sint_word_add signed_take_bit_int_eq_self)
qed


text \<open>
  C16: The first write after a fork separates the processes. For a page that may be written and that
  the fork shared, \<open>cfork_copy_mm\<close> and then \<open>handle_cow_fault\<close> in the child end with the child's
  page mapped for writing to a frame the parent does not use, with the parent's table as the fork
  left it, and with one reference less to the frame. This is so when the copy the handler makes
  to the address that is the number of the frame (line 185, a bug) happens to overwrite neither of the
  page tables nor the counts; otherwise it corrupts them.\<close>

theorem write_after_fork:
  assumes ok: "tables_ok K mk p c" "counts_ok K p c" "installs_ok mc K p c" "fault_ok mc K p c"
    and mk: "\<forall>g fl. pte_frame mc (mk g fl) = ucast g"
    and fork: "pgd parent = p" "fst (os_pfn_alloc K k) = c" "c \<noteq> p" "frames_ok mc K p k" "user_layout parent"
    and e: "get_user_pte K p a k = Some e" "pte_frame mc e = f"
    and a: "page_of a \<in> page_of ` set (cow_pages parent)" "page_of a \<notin> page_of ` set (private_pages parent)"
    and count: "1 \<le> sint (get_refcount K f k)"
      "sint (get_refcount K f k) + int (mappings mc K p (cow_pages parent) f k) < 2 ^ 31"
    and allowed: "cow_range cfg child (page_addr a)" "\<not> write_refused cfg mc child (page_addr a)"
  shows "\<exists>k1. cfork_copy_mm mc K child parent k = Returns (child\<lparr>pgd := c\<rparr>, k1)
    \<and> (copy_spares K p c f (mk (ucast f) (MM_RD mc) AND FLAG_MASK mc) (dec_refcount K f k1) \<longrightarrow>
       (\<exists>k2 g. handle_cow_fault cfg mc K (child\<lparr>pgd := c\<rparr>) a k1 = (1, k2)
         \<and> get_user_pte K c a k2 = Some (mk g (MM_WR mc))
         \<and> \<not> in_table mc K p (ucast g) k2
         \<and> (\<forall>v. get_user_pte K p v k2 = get_user_pte K p v k1)
         \<and> get_refcount K f k2 = get_refcount K f k1 - 1))"
proof -
  let ?a = "page_addr a"
  have same: "get_user_pte K q ?a j = get_user_pte K q a j" for q j
    by (rule tables_okD(1) [OF ok(1)]) simp
  have f: "in_table mc K p f k"
    using e by (auto simp: in_table_def)
  obtain k1 where k1: "cfork_copy_mm mc K child parent k = Returns (child\<lparr>pgd := c\<rparr>, k1)"
    and c: "\<And>v. page_of v \<notin> page_of ` set (private_pages parent) \<Longrightarrow>
        get_user_pte K c v k1 =
          (if page_of v \<in> page_of ` set (cow_pages parent)
           then map_option (\<lambda>e. mk (ucast (pte_frame mc e)) (MM_RD mc)) (get_user_pte K p v k)
           else None)"
    and counts: "\<And>f. in_table mc K p f k \<Longrightarrow> get_refcount K f k1 = get_refcount K f k
        + of_nat (mappings mc K p (cow_pages parent) f k)"
    and in_table: "\<And>f. in_table mc K p f k1 \<longleftrightarrow> in_table mc K p f k"
    by (rule cfork_effect [OF ok(1-3) fork, of child]) (rule that)
  let ?e = "mk (ucast f) (MM_RD mc)"
  have "f < 2 ^ 32" "0 < f"
    using fork(4) e by (auto simp: frames_ok_def)
  then have frame: "pte_frame mc ?e = f"
    using mk ucast_frame by simp
  have entry: "get_user_pte K c ?a k1 = Some ?e"
    using same c [OF a(2)] a(1) e by simp
  have "sint (get_refcount K f k1) = sint (get_refcount K f k) + int (mappings mc K p (cow_pages parent) f k)"
    unfolding counts [OF f] using count by (intro sint_add_of_nat) simp_all
  then have shared: "sint (get_refcount K (pte_frame mc ?e) k1) > 1"
    using count(1) mappings_pos [OF ok(1) e(1) a(1), of mc] e(2) frame by simp
  have f1: "in_table mc K p f k1"
    using f in_table by simp
  have pgd: "pgd (child\<lparr>pgd := c\<rparr>) = c"
    by simp
  have invlpg: "get_user_pte K q v (invlpg K ?a j) = get_user_pte K q v j"
    "get_refcount K h (invlpg K ?a j) = get_refcount K h j" for q v h j
    by (rule tables_okD(5) [OF ok(1)] counts_okD(3) [OF ok(2)])+
  have "\<exists>k2 g. handle_cow_fault cfg mc K (child\<lparr>pgd := c\<rparr>) a k1 = (1, k2)
      \<and> get_user_pte K c a k2 = Some (mk g (MM_WR mc)) \<and> \<not> in_table mc K p (ucast g) k2
      \<and> (\<forall>v. get_user_pte K p v k2 = get_user_pte K p v k1) \<and> get_refcount K f k2 = get_refcount K f k1 - 1"
    if stray: "copy_spares K p c f (?e AND FLAG_MASK mc) (dec_refcount K f k1)"
  proof -
    obtain g k' where page: "cow_page mc K (child\<lparr>pgd := c\<rparr>) ?a k1 = Some k'"
      and k': "\<And>v. get_user_pte K c v k' =
          (if page_of v = page_of ?a then Some (mk g (MM_WR mc)) else get_user_pte K c v k1)"
        "\<And>v. get_user_pte K p v k' = get_user_pte K p v k1" "\<not> in_table mc K p (ucast g) k1"
        "\<And>h. in_table mc K p h k1 \<Longrightarrow> get_refcount K h k' =
          (if h = f then get_refcount K h k1 - 1 else get_refcount K h k1)"
      by (rule cow_page_shared [OF ok(1,2,4) pgd fork(3) entry shared, unfolded frame, OF stray])
        (rule that)
    have "handle_cow_fault cfg mc K (child\<lparr>pgd := c\<rparr>) a k1 = (1, invlpg K ?a k')"
      using allowed page unfolding handle_cow_fault_cases by simp
    moreover have "in_table mc K p h (invlpg K ?a k') \<longleftrightarrow> in_table mc K p h k1" for h
      by (simp add: in_table_def invlpg k'(2))
    ultimately show ?thesis
      by (intro exI [of _ "invlpg K ?a k'"] exI [of _ g]) (simp add: invlpg k' f1)
  qed
  then show ?thesis
    using k1 by blast
qed

lemma small_in_table: "in_table small_macros small_kernel 1 f k \<longleftrightarrow> pte_frame small_macros (parent_entry k) = f"
proof -
  have "page_of 20480 = 5"
    by (simp add: page_of_def drop_bit_eq_div)
  then show ?thesis
    by (auto simp: in_table_def small_kernel_def intro: exI [of _ 20480])
qed

lemma small_fault_ok: "fault_ok small_macros small_kernel 1 2"
  unfolding fault_ok_def small_in_table
  by (auto simp: small_kernel_def small_map_def small_fresh_def)

text \<open>In the example no table and no count lies where the stray copy goes.\<close>

lemma small_copy_spares: "copy_spares small_kernel 1 2 dst src k"
  by (simp add: copy_spares_def small_kernel_def)

definition small_config :: mm_config where
  "small_config = \<lparr>MMAP_AREA_START = 1048576, MMAP_AREA_END = 2097152, PROT_READ = 1, PROT_WRITE = 2,
     MAP_FIXED = 1, MAP_POPULATE = 2\<rparr>"

lemma small_page_of: "page_of 20488 = 5" "page_of 20480 = 5" "page_addr 20488 = 20480"
  by (simp_all add: page_of_def page_addr_def drop_bit_eq_div)

lemma small_allowed:
  "cow_range small_config small_parent 20480" "\<not> write_refused small_config small_macros small_parent 20480"
  by (simp_all add: cow_range_def write_refused_def small_config_def small_parent_def)

theorem write_after_fork_witness:
  "\<exists>k1 k2 g. cfork_copy_mm small_macros small_kernel small_parent small_parent small_start
        = Returns (small_parent\<lparr>pgd := 2\<rparr>, k1)
    \<and> handle_cow_fault small_config small_macros small_kernel (small_parent\<lparr>pgd := 2\<rparr>) 20488 k1 = (1, k2)
    \<and> get_user_pte small_kernel 2 20488 k2 = Some (small_entry g 7)
    \<and> \<not> in_table small_macros small_kernel 1 (ucast g) k2
    \<and> (\<forall>v. get_user_pte small_kernel 1 v k2 = get_user_pte small_kernel 1 v k1)
    \<and> get_refcount small_kernel 3 k2 = get_refcount small_kernel 3 k1 - 1"
proof -
  have "get_user_pte small_kernel 1 20488 small_start = Some (small_entry 3 7)"
    by (simp add: small_kernel_def small_start_def small_page_of)
  moreover have "fst (os_pfn_alloc small_kernel small_start) = 2" "pgd small_parent = 1"
    "get_refcount small_kernel 3 small_start = 1"
    by (simp_all add: small_kernel_def small_parent_def small_start_def)
  moreover have "pte_frame small_macros (small_entry 3 7) = 3"
    using small_frame [of 3 7] by simp
  moreover have "mappings small_macros small_kernel 1 (cow_pages small_parent) 3 small_start \<le> 1"
    by (simp add: mappings_def small_pages)
  ultimately have "\<exists>k1. cfork_copy_mm small_macros small_kernel small_parent small_parent small_start
        = Returns (small_parent\<lparr>pgd := 2\<rparr>, k1)
    \<and> (copy_spares small_kernel 1 2 3 (small_entry (ucast (3 :: u64)) (MM_RD small_macros) AND FLAG_MASK small_macros)
          (dec_refcount small_kernel 3 k1) \<longrightarrow>
       (\<exists>k2 g. handle_cow_fault small_config small_macros small_kernel (small_parent\<lparr>pgd := 2\<rparr>) 20488 k1 = (1, k2)
         \<and> get_user_pte small_kernel 2 20488 k2 = Some (small_entry g (MM_WR small_macros))
         \<and> \<not> in_table small_macros small_kernel 1 (ucast g) k2
         \<and> (\<forall>v. get_user_pte small_kernel 1 v k2 = get_user_pte small_kernel 1 v k1)
         \<and> get_refcount small_kernel 3 k2 = get_refcount small_kernel 3 k1 - 1))"
    by (intro write_after_fork [where e = "small_entry 3 7", OF small_tables_ok small_counts_ok small_installs_ok small_fault_ok])
      (simp_all add: small_frame small_frames_ok small_layout small_pages small_page_of small_allowed)
  then show ?thesis
    by (auto simp: small_copy_spares small_macros_def)
qed


section \<open>What the child finds in its new page\<close>

text \<open>
  The documented behaviour of a memory of bytes: a frame that is handed out is blank, and the
  instruction \<open>invlpg\<close> does not change memory.
\<close>

definition blank_ok :: "'k kernel \<Rightarrow> u64 \<Rightarrow> (u64 \<Rightarrow> 'k \<Rightarrow> u8) \<Rightarrow> bool" where
  "blank_ok K c byte \<longleftrightarrow>
     (\<forall>v fl k i. i < 4096 \<longrightarrow>
        byte (osmap K (ucast (fst (map_physical_page K (osmap K c) v fl 0 k))) + i)
          (snd (map_physical_page K (osmap K c) v fl 0 k)) = 0)
     \<and> (\<forall>a v k. byte a (invlpg K v k) = byte a k)"

text \<open>
  The handler copies the page before it has the new frame, to the address that is the number of
  the old one. So the process goes on with a blank page, whatever the page held.
\<close>

text \<open>
  C18: The contents do not follow. The handler copies the page to the address that is the number of
  its frame, before it has the new frame; when the allocator hands out blank frames (what the
  comment in \<open>cfork_copy_mm\<close> says of \<open>install_ptable\<close>), every byte of the page is 0 after the
  first write to a shared page.\<close>

theorem cow_fault_blank:
  assumes "tables_ok K mk p c" "blank_ok K c byte" "pgd ctx = c"
    and "cow_range cfg ctx (page_addr a)" "\<not> write_refused cfg mc ctx (page_addr a)"
    and "get_user_pte K c (page_addr a) k = Some e" "1 < sint (get_refcount K (pte_frame mc e) k)"
  shows "\<exists>g k'. handle_cow_fault cfg mc K ctx a k = (1, k')
    \<and> get_user_pte K c a k' = Some (mk g (MM_WR mc))
    \<and> (\<forall>i. byte (osmap K (ucast g) + i mod 4096) k' = 0)"
proof -
  let ?f = "pte_frame mc e"
  let ?j = "copy_page K ?f (e AND FLAG_MASK mc) (dec_refcount K ?f k)"
  let ?m = "map_physical_page K (osmap K c) (page_addr a) (MM_WR mc) 0 ?j"
  have page: "cow_page mc K ctx (page_addr a) k = Some (snd ?m)"
    using assms(3,6,7) by (simp add: cow_page_def Let_def)
  have "i mod 4096 < 4096" for i :: u64
    by (rule word_mod_less_divisor) simp
  then have blank: "byte (osmap K (ucast (fst ?m)) + i mod 4096) (snd ?m) = 0" for i
    using assms(2) unfolding blank_ok_def by blast
  have "byte b (invlpg K v j) = byte b j" for b v j
    using assms(2) unfolding blank_ok_def by blast
  moreover have "get_user_pte K c a (invlpg K (page_addr a) (snd ?m)) = Some (mk (fst ?m) (MM_WR mc))"
    unfolding tables_okD(5) [OF assms(1)] by (simp add: tables_okD(4) [OF assms(1), of c])
  ultimately show ?thesis
    using assms(4,5) page blank
    by (intro exI [of _ "fst ?m"] exI [of _ "invlpg K (page_addr a) (snd ?m)"])
      (simp add: handle_cow_fault_cases)
qed

lemma page_of_frame_addr:
  assumes "i < 4096"
  shows "page_of (push_bit 12 (ucast (g :: u32)) + i) = ucast g"
proof -
  have "i AND mask 12 = i"
    using assms by (intro less_mask_eq) simp
  then have low: "bit i n \<Longrightarrow> n < 12" for n
    by (metis bit_and_iff bit_mask_iff)
  have "push_bit 12 (ucast g) + i = push_bit 12 (ucast g) OR i"
    by (rule disjunctive_add) (use low in \<open>fastforce simp: bit_simps not_le\<close>)
  moreover have "bit (page_of (push_bit 12 (ucast g) OR i)) n \<longleftrightarrow> bit (ucast g :: u64) n" if "n < 64" for n
    using bit_imp_le_length [of g n] that low [of "12 + n"] by (auto simp: page_of_def bit_simps)
  ultimately show ?thesis
    by (intro bit_word_eqI) simp
qed

lemma small_blank_ok: "blank_ok small_kernel 2 (\<lambda>a k. bytes k a)"
  by (auto simp: blank_ok_def small_kernel_def small_map_def small_blank_def page_of_frame_addr)

text \<open>The page of the parent starts with an \<open>A\<close>, that of the child with a zero byte.\<close>

definition small_shared :: small_memory where
  "small_shared = \<lparr>parent_entry = small_entry 3 5, child_entries = [5 \<mapsto> small_entry 3 5],
     counts = (\<lambda>f. 2), bytes = (\<lambda>a. if a = 12288 then 65 else 0)\<rparr>"

theorem cow_fault_blank_witness:
  "bytes small_shared (osmap small_kernel 3) = 65
    \<and> (\<exists>g k'. handle_cow_fault small_config small_macros small_kernel (small_parent\<lparr>pgd := 2\<rparr>) 20488 small_shared
          = (1, k')
        \<and> get_user_pte small_kernel 2 20488 k' = Some (small_entry g 7)
        \<and> bytes k' (osmap small_kernel (ucast g)) = 0)"
proof -
  have "bytes small_shared (osmap small_kernel 3) = 65"
    by (simp add: small_shared_def small_kernel_def push_bit_eq_mult)
  moreover have "get_user_pte small_kernel 2 20480 small_shared = Some (small_entry 3 5)"
    "get_refcount small_kernel 3 small_shared = 2"
    by (simp_all add: small_kernel_def small_shared_def small_page_of)
  then have "\<exists>g k'. handle_cow_fault small_config small_macros small_kernel (small_parent\<lparr>pgd := 2\<rparr>) 20488 small_shared
          = (1, k')
        \<and> get_user_pte small_kernel 2 20488 k' = Some (small_entry g 7)
        \<and> (\<forall>i. bytes k' (osmap small_kernel (ucast g) + i mod 4096) = 0)"
    using cow_fault_blank [OF small_tables_ok small_blank_ok, of "small_parent\<lparr>pgd := 2\<rparr>" small_config 20488
        small_macros small_shared "small_entry 3 5"]
    by (simp add: small_page_of small_frame small_allowed)
  moreover have "(0 :: u64) mod 4096 = 0"
    by simp
  ultimately show ?thesis
    by (metis add.right_neutral)
qed

end
