(* ===== verification/Vfork.thy ===== *)
theory Vfork
  imports Cow_Fault
begin

unbundle bit_operations_syntax

text \<open>
  The process made by \<open>vfork_copy_mm\<close>: where its stack lies and what the child finds on it, when the
  copy of the stack fails, and how its exit resumes the parent.
\<close>

section \<open>The loops\<close>

definition stack_pages :: "mm_segment \<Rightarrow> u64 list" where
  "stack_pages seg = down_pages (seg_end seg - 4096) (next_free seg)"

definition stack_size :: "mm_segment \<Rightarrow> u64" where
  "stack_size seg = 4096 * of_nat (length (stack_pages seg))"

lemma stack_bottom_pages:
  assumes "4096 \<le> lo"
  shows "stack_bottom lo v = Some (v - 4096 * of_nat (length (down_pages v lo)))"
proof (induction "unat v" arbitrary: v rule: less_induct)
  case less
  show ?case
  proof (cases "lo \<le> v")
    case True
    then have "unat (v - 4096) < unat v"
      using assms by (subst unat_sub) (auto simp add: word_le_nat_alt)
    from less [OF this] show ?thesis
      using True down_pages_step [OF True assms]
      by (subst stack_bottom.simps) (simp add: algebra_simps)
  next
    case False
    then show ?thesis
      by (subst stack_bottom.simps, subst if_not_P) (simp_all add: down_pages_def not_le)
  qed
qed

lemma vfork_page_not_Hangs: "vfork_page mc K parent addr fsize v k \<noteq> Hangs"
  by (auto simp: vfork_page_def Let_def split: option.split prod.split)

lemma vfork_loop_ends:
  assumes "4096 \<le> next_free (seg_stack parent)"
  obtains r where "vfork_loop mc K parent addr fsize v k = Some r" "r \<noteq> Hangs"
proof -
  have "\<exists>r. vfork_loop mc K parent addr fsize v k = Some r \<and> r \<noteq> Hangs"
  proof (induction "unat v" arbitrary: v k rule: less_induct)
    case less
    show ?case
    proof (cases "next_free (seg_stack parent) \<le> v")
      case True
      then have less: "unat (v - 4096) < unat v"
        using assms by (subst unat_sub) (auto simp add: word_le_nat_alt)
      show ?thesis
        using vfork_page_not_Hangs [of mc K parent addr fsize v k] True less.hyps [OF less]
        by (subst vfork_loop.simps) (auto split: run.split)
    next
      case False
      then show ?thesis
        by (subst vfork_loop.simps) simp
    qed
  qed
  with that show thesis
    by blast
qed

lemma vfork_loop_fault:
  assumes "next_free (seg_stack parent) \<le> v" "get_user_pte K (pgd parent) v k = Some e"
    and "get_user_pte K (pgd parent) (v - fsize) k = None"
  shows "vfork_loop mc K parent addr fsize v k = Some Faults"
  using assms by (subst vfork_loop.simps) (simp add: vfork_page_def)

section \<open>The stack of the child\<close>

lemma down_pages_range:
  assumes "v \<in> set (down_pages hi lo)" 
  shows "lo \<le> v \<and> v \<le> hi"
proof -
  have "lo \<le> hi"
    using assms by (auto simp: down_pages_def split: if_splits)
  then obtain i where "i \<in> set [0..<Suc ((unat hi - unat lo) div 4096)]" and v: "v = hi - 4096 * of_nat i"
    using assms unfolding down_pages_def by (simp only: not_less [symmetric] if_False set_map) (elim imageE, rule that)
  then have "i \<le> (unat hi - unat lo) div 4096"
    by (simp only: atLeastLessThan_iff set_upt less_Suc_eq_le)
  then have le: "4096 * i \<le> unat hi - unat lo"
    by linarith
  have "unat hi < 2 ^ 64"
    using unsigned_less [of hi, where ?'a = nat] by simp
  then have n: "unat (4096 * of_nat i :: u64) = 4096 * i"
    using le by (simp add: unat_word_ariths unat_of_nat)
  then have "unat v = unat hi - 4096 * i"
    unfolding v using le by (subst unat_sub) (simp_all add: word_le_nat_alt)
  then show ?thesis
    using le \<open>lo \<le> hi\<close> by (auto simp: word_le_nat_alt)
qed

lemma stack_bottom_below:
  assumes "4096 \<le> lo"
  shows "v - 4096 * of_nat (length (down_pages v lo)) < lo"
proof (induction "unat v" arbitrary: v rule: less_induct)
  case less
  show ?case
  proof (cases "lo \<le> v")
    case True
    then have "unat (v - 4096) < unat v"
      using assms by (subst unat_sub) (auto simp add: word_le_nat_alt)
    from less [OF this] show ?thesis
      using down_pages_step [OF True assms] by (simp add: algebra_simps)
  next
    case False
    then show ?thesis
      by (simp add: down_pages_def not_le)
  qed
qed

lemma vfork_stack_size:
  "stack_size seg = seg_end seg - 4096
     - (seg_end seg - 4096 - 4096 * of_nat (length (down_pages (seg_end seg - 4096) (next_free seg))))"
  by (simp add: stack_size_def stack_pages_def)

lemma sub_le_mono:
  assumes "f \<le> a" "a \<le> b"
  shows "a - f \<le> (b - f :: u64)"
proof -
  have "unat f \<le> unat a" "unat a \<le> unat b"
    using assms by (simp_all add: word_le_nat_alt)
  moreover have "unat (a - f) = unat a - unat f" "unat (b - f) = unat b - unat f"
    using assms by (auto intro!: unat_sub)
  ultimately show ?thesis
    by (simp add: word_le_nat_alt)
qed

lemma child_stack_below:
  assumes "4096 \<le> next_free seg" "stack_size seg \<le> next_free seg" "v \<in> set (stack_pages seg)"
  shows "next_free seg - stack_size seg \<le> v - stack_size seg \<and> v - stack_size seg < next_free seg"
proof -
  have v: "next_free seg \<le> v" "v \<le> seg_end seg - 4096"
    using down_pages_range assms(3) by (auto simp: stack_pages_def)
  have "seg_end seg - 4096 - stack_size seg < next_free seg"
    using stack_bottom_below [OF assms(1)] by (simp add: stack_size_def stack_pages_def)
  moreover have "v - stack_size seg \<le> seg_end seg - 4096 - stack_size seg"
    "next_free seg - stack_size seg \<le> v - stack_size seg"
    using v assms(2) by (auto intro!: sub_le_mono)
  ultimately show ?thesis
    by simp
qed

text \<open>
  The pages from the top of the stack downwards; the stack has \<open>stack_count\<close> of them, and the page
  the child gets for page \<open>i\<close> is page \<open>i + stack_count\<close>.
\<close>

definition stack_page :: "mm_segment \<Rightarrow> nat \<Rightarrow> u64" where
  "stack_page seg i = seg_end seg - 4096 - 4096 * of_nat i"

definition stack_count :: "mm_segment \<Rightarrow> nat" where
  "stack_count seg = length (stack_pages seg)"

lemma stack_pages_map: "stack_pages seg = List.map (stack_page seg) [0..<stack_count seg]"
  by (auto simp: stack_count_def stack_pages_def stack_page_def down_pages_def)

lemma stack_page_mem: "i < stack_count seg \<Longrightarrow> stack_page seg i \<in> set (stack_pages seg)"
  by (simp add: stack_pages_map)

lemma child_page: "stack_page seg i - stack_size seg = stack_page seg (i + stack_count seg)"
  by (simp add: stack_page_def stack_size_def stack_count_def algebra_simps)

lemma stack_page_numbers:
  assumes "4096 \<le> next_free seg" "stack_size seg \<le> next_free seg" "i < 2 * stack_count seg"
  shows "unat (stack_page seg i) = unat (seg_end seg - 4096) - 4096 * i" "4096 * i \<le> unat (seg_end seg - 4096)"
proof -
  let ?top = "seg_end seg - 4096" and ?lo = "next_free seg" and ?n = "stack_count seg"
  have lo: "4096 \<le> unat ?lo" "?lo \<le> ?top"
    using assms(1,3) by (auto simp: stack_count_def stack_pages_def down_pages_def not_less split: if_splits)
      (simp add: word_le_nat_alt)
  then have n: "?n = Suc ((unat ?top - unat ?lo) div 4096)"
    by (simp add: stack_count_def stack_pages_def down_pages_def not_less)
  have top: "unat ?top < 2 ^ 64" "unat ?lo \<le> unat ?top"
    using unsigned_less [of ?top, where ?'a = nat] lo(2) by (simp_all add: word_le_nat_alt)
  have "4096 * ((unat ?top - unat ?lo) div 4096) \<le> unat ?top - unat ?lo"
    by simp
  then have pages: "4096 * ?n \<le> unat ?top - unat ?lo + 4096"
    unfolding n by simp
  then have "unat (stack_size seg) = 4096 * ?n"
    using lo(1) top by (simp add: stack_size_def stack_count_def unat_word_ariths unat_of_nat)
  then have "4096 * ?n \<le> unat ?lo"
    using assms(2) by (simp add: word_le_nat_alt)
  then show le: "4096 * i \<le> unat ?top"
    using pages assms(3) top(2) by simp
  have "unat (4096 * of_nat i :: u64) = 4096 * i"
    using le top by (simp add: unat_word_ariths unat_of_nat)
  then show "unat (stack_page seg i) = unat ?top - 4096 * i"
    unfolding stack_page_def using le by (subst unat_sub) (simp_all add: word_le_nat_alt)
qed

lemma stack_pages_apart:
  assumes "4096 \<le> next_free seg" "stack_size seg \<le> next_free seg"
    and "i < 2 * stack_count seg" "j < 2 * stack_count seg" "i \<noteq> j"
  shows "page_of (stack_page seg i) \<noteq> page_of (stack_page seg j)"
proof -
  let ?t = "unat (seg_end seg - 4096)"
  have number: "unat (page_of (stack_page seg i)) = ?t div 4096 - i" if "i < 2 * stack_count seg" for i
  proof -
    note n = stack_page_numbers [OF assms(1,2) that]
    have "?t = (?t - 4096 * i) + i * 4096"
      using n(2) by simp
    then have "?t div 4096 = (?t - 4096 * i) div 4096 + i"
      by (metis div_mult_self1 add.commute zero_neq_numeral)
    then show ?thesis
      unfolding page_of_def using n(1) by (simp add: drop_bit_eq_div unat_div)
  qed
  have "i \<le> unat (seg_end seg - 4096) div 4096" "j \<le> unat (seg_end seg - 4096) div 4096"
    using stack_page_numbers(2) [OF assms(1,2)] assms(3,4) by (simp_all add: less_eq_div_iff_mult_less_eq mult.commute)
  then show ?thesis
    using number [OF assms(3)] number [OF assms(4)] assms(5) by auto
qed

section \<open>What the child finds on its stack\<close>

text \<open>A frame that the table \<open>p\<close> refers to; an entry of 0 refers to none.\<close>

definition mapped_frame :: "page_macros \<Rightarrow> 'k kernel \<Rightarrow> u64 \<Rightarrow> u64 \<Rightarrow> 'k \<Rightarrow> bool" where
  "mapped_frame mc K p f k \<longleftrightarrow> (\<exists>v e. get_user_pte K p v k = Some e \<and> e \<noteq> 0 \<and> pte_frame mc e = f)"

text \<open>
  The documented behaviour of the kernel routines on the table \<open>p\<close> and the contents of frames: an
  entry belongs to a page; \<open>install_ptable\<close> fills an empty entry with a frame that no entry refers
  to, and leaves all others as they are; \<open>memcpy\<close> of a page from the frame of an entry to a mapped
  frame copies the contents, and changes no table and no other mapped frame.
\<close>

definition stack_kernel_ok :: "page_macros \<Rightarrow> 'k kernel \<Rightarrow> u64 \<Rightarrow> (u64 \<Rightarrow> 'k \<Rightarrow> 'c) \<Rightarrow> bool" where
  "stack_kernel_ok mc K p content \<longleftrightarrow>
     (\<forall>v v' k. page_of v = page_of v' \<longrightarrow> get_user_pte K p v k = get_user_pte K p v' k)
     \<and> (\<forall>seg v k f k'. get_user_pte K p v k = Some 0 \<longrightarrow> install_ptable K (osmap K p) seg v 0 k = (f, k') \<longrightarrow>
          (\<exists>e. e \<noteq> 0 \<and> pte_frame mc e = f \<and> (\<forall>v'. get_user_pte K p v' k' =
             (if page_of v' = page_of v then Some e else get_user_pte K p v' k)))
          \<and> \<not> mapped_frame mc K p f k
          \<and> (\<forall>g. mapped_frame mc K p g k \<longrightarrow> content g k' = content g k))
     \<and> (\<forall>e f k. mapped_frame mc K p f k \<longrightarrow>
          (\<forall>v. get_user_pte K p v (copy_page K (osmap K f) (e AND FLAG_MASK mc) k) = get_user_pte K p v k)
          \<and> (\<forall>g. mapped_frame mc K p g k \<longrightarrow>
               content g (copy_page K (osmap K f) (e AND FLAG_MASK mc) k) =
               (if g \<noteq> f then content g k
                else if mapped_frame mc K p (pte_frame mc e) k then content (pte_frame mc e) k
                else content g (copy_page K (osmap K f) (e AND FLAG_MASK mc) k))))"

lemma stack_kernel_okD:
  assumes "stack_kernel_ok mc K p content"
  shows "page_of v = page_of v' \<Longrightarrow> get_user_pte K p v k = get_user_pte K p v' k"
    and "get_user_pte K p v k = Some 0 \<Longrightarrow> install_ptable K (osmap K p) seg v 0 k = (f, k') \<Longrightarrow>
      (\<exists>e. e \<noteq> 0 \<and> pte_frame mc e = f \<and> (\<forall>v'. get_user_pte K p v' k' =
             (if page_of v' = page_of v then Some e else get_user_pte K p v' k)))
      \<and> \<not> mapped_frame mc K p f k \<and> (\<forall>g. mapped_frame mc K p g k \<longrightarrow> content g k' = content g k)"
    and "mapped_frame mc K p f k \<Longrightarrow>
      get_user_pte K p v (copy_page K (osmap K f) (e AND FLAG_MASK mc) k) = get_user_pte K p v k"
    and "mapped_frame mc K p f k \<Longrightarrow> mapped_frame mc K p g k \<Longrightarrow> g \<noteq> f \<Longrightarrow>
      content g (copy_page K (osmap K f) (e AND FLAG_MASK mc) k) = content g k"
    and "mapped_frame mc K p f k \<Longrightarrow> mapped_frame mc K p (pte_frame mc e) k \<Longrightarrow>
      content f (copy_page K (osmap K f) (e AND FLAG_MASK mc) k) = content (pte_frame mc e) k"
  using assms unfolding stack_kernel_ok_def by (blast, blast, blast, metis, metis)

text \<open>One page: the page \<open>fsize\<close> bytes below has an entry with a frame, and that gets the contents.\<close>

lemma vfork_page_copies:
  assumes ok: "stack_kernel_ok mc K (pgd parent) content"
    and e: "get_user_pte K (pgd parent) v k = Some e"
    and old: "get_user_pte K (pgd parent) (v - fsize) k = Some old"
    and apart: "page_of v \<noteq> page_of (v - fsize)"
  obtains eo k' where "vfork_page mc K parent (osmap K (pgd parent)) fsize v k = Returns k'" "eo \<noteq> 0"
    and "old \<noteq> 0 \<and> eo = old \<or> old = 0 \<and> \<not> mapped_frame mc K (pgd parent) (pte_frame mc eo) k"
    and "\<And>w. get_user_pte K (pgd parent) w k' =
      (if page_of w = page_of (v - fsize) then Some eo else get_user_pte K (pgd parent) w k)"
    and "e \<noteq> 0 \<Longrightarrow> content (pte_frame mc eo) k' = content (pte_frame mc e) k"
    and "\<And>g. mapped_frame mc K (pgd parent) g k \<Longrightarrow> g \<noteq> pte_frame mc eo \<Longrightarrow> content g k' = content g k"
proof -
  let ?p = "pgd parent" and ?u = "v - fsize"
  let ?r = "if old \<noteq> 0 then (pte_frame mc old, k) else install_ptable K (osmap K ?p) (seg_stack parent) ?u 0 k"
  obtain f k1 where r: "?r = (f, k1)"
    by fastforce
  have "\<exists>eo. eo \<noteq> 0 \<and> pte_frame mc eo = f
      \<and> (old \<noteq> 0 \<and> eo = old \<or> old = 0 \<and> \<not> mapped_frame mc K ?p f k)
      \<and> (\<forall>w. get_user_pte K ?p w k1 = (if page_of w = page_of ?u then Some eo else get_user_pte K ?p w k))
      \<and> (\<forall>g. mapped_frame mc K ?p g k \<longrightarrow> content g k1 = content g k)"
  proof (cases "old = 0")
    case True
    then show ?thesis
      using stack_kernel_okD(2) [OF ok, of ?u k "seg_stack parent" f k1] r old by auto
  next
    case False
    moreover have "get_user_pte K ?p w k = Some old" if "page_of w = page_of ?u" for w
      using stack_kernel_okD(1) [OF ok that] old by simp
    ultimately show ?thesis
      using r by auto
  qed
  then obtain eo where eo: "eo \<noteq> 0" "pte_frame mc eo = f"
    and fresh: "old \<noteq> 0 \<and> eo = old \<or> old = 0 \<and> \<not> mapped_frame mc K ?p f k"
    and entry: "\<And>w. get_user_pte K ?p w k1 = (if page_of w = page_of ?u then Some eo else get_user_pte K ?p w k)"
    and content: "\<And>g. mapped_frame mc K ?p g k \<Longrightarrow> content g k1 = content g k"
    by blast
  let ?k' = "copy_page K (osmap K f) (e AND FLAG_MASK mc) k1"
  have f1: "mapped_frame mc K ?p f k1"
    unfolding mapped_frame_def by (intro exI [of _ ?u] exI [of _ eo]) (simp add: entry eo)
  have mapped: "mapped_frame mc K ?p g k1" if g: "mapped_frame mc K ?p g k" for g
  proof -
    obtain w e' where w: "get_user_pte K ?p w k = Some e'" "e' \<noteq> 0" "pte_frame mc e' = g"
      using g by (auto simp: mapped_frame_def)
    show ?thesis
    proof (cases "page_of w = page_of ?u")
      case True
      then have "e' = old"
        using stack_kernel_okD(1) [OF ok True, of k] w(1) old by simp
      then have "eo = old"
        using fresh w g eo(2) by auto
      then show ?thesis
        using f1 eo w \<open>e' = old\<close> by simp
    next
      case False
      then have "get_user_pte K ?p w k1 = Some e'"
        using entry w(1) by simp
      then show ?thesis
        using w by (auto simp: mapped_frame_def)
    qed
  qed
  show thesis
  proof (rule that [of ?k' eo])
    show "vfork_page mc K parent (osmap K ?p) fsize v k = Returns ?k'"
      using e old r by (simp add: vfork_page_def)
    show "eo \<noteq> 0" "old \<noteq> 0 \<and> eo = old \<or> old = 0 \<and> \<not> mapped_frame mc K ?p (pte_frame mc eo) k"
      using eo fresh by simp_all
    show "get_user_pte K ?p w ?k' = (if page_of w = page_of ?u then Some eo else get_user_pte K ?p w k)" for w
      unfolding stack_kernel_okD(3) [OF ok f1] by (rule entry)
    show "content (pte_frame mc eo) ?k' = content (pte_frame mc e) k" if "e \<noteq> 0"
    proof -
      have "mapped_frame mc K ?p (pte_frame mc e) k"
        using e that by (auto simp: mapped_frame_def)
      then show ?thesis
        using stack_kernel_okD(5) [OF ok f1 mapped] content eo(2) by simp
    qed
    show "content g ?k' = content g k" if "mapped_frame mc K ?p g k" "g \<noteq> pte_frame mc eo" for g
      using stack_kernel_okD(4) [OF ok f1 mapped [OF that(1)]] content [OF that(1)] that(2) eo(2) by simp
  qed
qed

text \<open>The frames of the pages of both stacks are different ones.\<close>

definition frames_apart :: "page_macros \<Rightarrow> 'k kernel \<Rightarrow> u64 \<Rightarrow> mm_segment \<Rightarrow> 'k \<Rightarrow> bool" where
  "frames_apart mc K p seg k \<longleftrightarrow> (\<forall>i < 2 * stack_count seg. \<forall>j < 2 * stack_count seg. \<forall>e e'. i \<noteq> j \<longrightarrow>
     get_user_pte K p (stack_page seg i) k = Some e \<longrightarrow> get_user_pte K p (stack_page seg j) k = Some e' \<longrightarrow>
     e \<noteq> 0 \<longrightarrow> e' \<noteq> 0 \<longrightarrow> pte_frame mc e \<noteq> pte_frame mc e')"

text \<open>
  The first \<open>i\<close> pages have been copied, starting in the state \<open>k0\<close>: no other entry has changed, the
  pages of the parent still have their contents, and those of the child have the same.
\<close>

definition stack_copied ::
  "page_macros \<Rightarrow> 'k kernel \<Rightarrow> u64 \<Rightarrow> mm_segment \<Rightarrow> (u64 \<Rightarrow> 'k \<Rightarrow> 'c) \<Rightarrow> 'k \<Rightarrow> 'k \<Rightarrow> nat \<Rightarrow> bool" where
  "stack_copied mc K p seg content k0 k i \<longleftrightarrow>
     (\<forall>w. (\<forall>j < i. page_of w \<noteq> page_of (stack_page seg (j + stack_count seg))) \<longrightarrow>
        get_user_pte K p w k = get_user_pte K p w k0)
     \<and> (\<forall>j < stack_count seg. \<forall>e. get_user_pte K p (stack_page seg j) k0 = Some e \<longrightarrow> e \<noteq> 0 \<longrightarrow>
          content (pte_frame mc e) k = content (pte_frame mc e) k0)
     \<and> (\<forall>j < i. \<forall>e. get_user_pte K p (stack_page seg j) k0 = Some e \<longrightarrow> e \<noteq> 0 \<longrightarrow>
          (\<exists>e'. get_user_pte K p (stack_page seg (j + stack_count seg)) k = Some e' \<and> e' \<noteq> 0
             \<and> content (pte_frame mc e') k = content (pte_frame mc e) k0))
     \<and> frames_apart mc K p seg k"

lemma stack_copiedD:
  assumes "stack_copied mc K p seg content k0 k i"
  shows "(\<And>j. j < i \<Longrightarrow> page_of w \<noteq> page_of (stack_page seg (j + stack_count seg))) \<Longrightarrow>
        get_user_pte K p w k = get_user_pte K p w k0"
    and "j < stack_count seg \<Longrightarrow> get_user_pte K p (stack_page seg j) k0 = Some e \<Longrightarrow> e \<noteq> 0 \<Longrightarrow>
          content (pte_frame mc e) k = content (pte_frame mc e) k0"
    and "j < i \<Longrightarrow> get_user_pte K p (stack_page seg j) k0 = Some e \<Longrightarrow> e \<noteq> 0 \<Longrightarrow>
          \<exists>e'. get_user_pte K p (stack_page seg (j + stack_count seg)) k = Some e' \<and> e' \<noteq> 0
             \<and> content (pte_frame mc e') k = content (pte_frame mc e) k0"
    and "frames_apart mc K p seg k"
  using assms unfolding stack_copied_def by simp_all

lemma frames_apartD:
  assumes "frames_apart mc K p seg k" "i < 2 * stack_count seg" "j < 2 * stack_count seg" "i \<noteq> j"
    and "get_user_pte K p (stack_page seg i) k = Some e" "get_user_pte K p (stack_page seg j) k = Some e'"
    and "e \<noteq> 0" "e' \<noteq> 0"
  shows "pte_frame mc e \<noteq> pte_frame mc e'"
  using assms unfolding frames_apart_def by blast

text \<open>The copy of one page more.\<close>

lemma stack_copied_Suc:
  assumes seg: "4096 \<le> next_free seg" "stack_size seg \<le> next_free seg" and i: "i < stack_count seg"
    and inv: "stack_copied mc K p seg content k0 k i"
    and e: "get_user_pte K p (stack_page seg i) k = Some e"
    and old: "get_user_pte K p (stack_page seg (i + stack_count seg)) k = Some old"
    and eo: "eo \<noteq> 0" "old \<noteq> 0 \<and> eo = old \<or> old = 0 \<and> \<not> mapped_frame mc K p (pte_frame mc eo) k"
    and entry: "\<And>w. get_user_pte K p w k' =
      (if page_of w = page_of (stack_page seg (i + stack_count seg)) then Some eo else get_user_pte K p w k)"
    and copied: "e \<noteq> 0 \<Longrightarrow> content (pte_frame mc eo) k' = content (pte_frame mc e) k"
    and kept: "\<And>g. mapped_frame mc K p g k \<Longrightarrow> g \<noteq> pte_frame mc eo \<Longrightarrow> content g k' = content g k"
  shows "stack_copied mc K p seg content k0 k' (Suc i)"
proof -
  let ?n = "stack_count seg" and ?P = "stack_page seg"
  note apart = stack_pages_apart [OF seg] and D = stack_copiedD [OF inv]
  have other: "get_user_pte K p (?P j) k' = get_user_pte K p (?P j) k" if "j < 2 * ?n" "j \<noteq> i + ?n" for j
    using entry [of "?P j"] apart [of j "i + ?n"] that i by simp
  have new: "get_user_pte K p (?P (i + ?n)) k' = Some eo"
    using entry by simp
  have differs: "pte_frame mc e' \<noteq> pte_frame mc eo"
    if "j < 2 * ?n" "j \<noteq> i + ?n" "get_user_pte K p (?P j) k = Some e'" "e' \<noteq> 0" for j e'
  proof (cases "old = 0")
    case True
    have "mapped_frame mc K p (pte_frame mc e') k"
      using that(3,4) by (auto simp: mapped_frame_def)
    then show ?thesis
      using True eo(2) by auto
  next
    case False
    then show ?thesis
      using frames_apartD [OF D(4) that(1) _ that(2) that(3) old that(4)] eo(2) i by simp
  qed
  have keep: "content (pte_frame mc e') k' = content (pte_frame mc e') k"
    if "j < 2 * ?n" "j \<noteq> i + ?n" "get_user_pte K p (?P j) k = Some e'" "e' \<noteq> 0" for j e'
    by (rule kept) (use that differs [OF that] in \<open>auto simp: mapped_frame_def\<close>)
  have same: "get_user_pte K p (?P j) k = get_user_pte K p (?P j) k0" if "j < ?n" for j
    using that i by (intro D(1) apart) simp_all
  show ?thesis
    unfolding stack_copied_def
  proof (intro conjI allI impI)
    fix w
    assume w: "\<forall>j < Suc i. page_of w \<noteq> page_of (?P (j + ?n))"
    then have "get_user_pte K p w k' = get_user_pte K p w k"
      using entry by simp
    also have "\<dots> = get_user_pte K p w k0"
      using w by (intro D(1)) simp
    finally show "get_user_pte K p w k' = get_user_pte K p w k0" .
  next
    fix j e'
    assume j: "j < ?n" "get_user_pte K p (?P j) k0 = Some e'" "e' \<noteq> 0"
    then show "content (pte_frame mc e') k' = content (pte_frame mc e') k0"
      using keep [of j e'] D(2) [OF j] same [OF j(1)] i by simp
  next
    fix j e'
    assume j: "j < Suc i" "get_user_pte K p (?P j) k0 = Some e'" "e' \<noteq> 0"
    show "\<exists>e2. get_user_pte K p (?P (j + ?n)) k' = Some e2 \<and> e2 \<noteq> 0
        \<and> content (pte_frame mc e2) k' = content (pte_frame mc e') k0"
    proof (cases "j = i")
      case True
      then have "e' = e"
        using j(2) e same [OF i] by simp
      then show ?thesis
        using new eo(1) copied D(2) [OF i] j(2,3) True by simp
    next
      case False
      then have less: "j < i"
        using j(1) by simp
      from D(3) [OF this j(2,3)] obtain e2 where
        e2: "get_user_pte K p (?P (j + ?n)) k = Some e2" "e2 \<noteq> 0" "content (pte_frame mc e2) k = content (pte_frame mc e') k0"
        by blast
      then show ?thesis
        using other [of "j + ?n"] keep [of "j + ?n" e2] less i by simp
    qed
  next
    show "frames_apart mc K p seg k'"
      unfolding frames_apart_def
    proof (intro allI impI)
      fix a b ea eb
      assume ab: "a < 2 * ?n" "b < 2 * ?n" "a \<noteq> b" "get_user_pte K p (?P a) k' = Some ea"
        "get_user_pte K p (?P b) k' = Some eb" "ea \<noteq> 0" "eb \<noteq> 0"
      consider "a = i + ?n" | "b = i + ?n" | "a \<noteq> i + ?n" "b \<noteq> i + ?n"
        by blast
      then show "pte_frame mc ea \<noteq> pte_frame mc eb"
      proof cases
        case 1
        then have "ea = eo" "get_user_pte K p (?P b) k = Some eb"
          using ab new other [of b] by simp_all
        then show ?thesis
          using differs [of b eb] ab 1 by simp
      next
        case 2
        then have "eb = eo" "get_user_pte K p (?P a) k = Some ea"
          using ab new other [of a] by simp_all
        then show ?thesis
          using differs [of a ea] ab 2 by simp
      next
        case 3
        then show ?thesis
          using ab other frames_apartD [OF D(4) ab(1-3)] by simp
      qed
    qed
  qed
qed

lemma stack_copied_skip:
  assumes "4096 \<le> next_free seg" "stack_size seg \<le> next_free seg" "i < stack_count seg"
    and "stack_copied mc K p seg content k0 k i" "get_user_pte K p (stack_page seg i) k = None"
  shows "stack_copied mc K p seg content k0 k (Suc i)"
proof -
  have "get_user_pte K p (stack_page seg i) k = get_user_pte K p (stack_page seg i) k0"
    using assms(3) by (intro stack_copiedD(1) [OF assms(4)] stack_pages_apart [OF assms(1,2)]) simp_all
  then show ?thesis
    using assms(4,5) unfolding stack_copied_def by (auto simp: less_Suc_eq)
qed

lemma vfork_loop_copies:
  assumes ok: "stack_kernel_ok mc K (pgd parent) content" and seg: "seg = seg_stack parent"
    and bounds: "4096 \<le> next_free seg" "stack_size seg \<le> next_free seg"
    and below: "\<And>j. j < stack_count seg \<Longrightarrow> get_user_pte K (pgd parent) (stack_page seg j) k0 \<noteq> None \<Longrightarrow>
      get_user_pte K (pgd parent) (stack_page seg (j + stack_count seg)) k0 \<noteq> None"
  shows "i \<le> stack_count seg \<Longrightarrow> stack_copied mc K (pgd parent) seg content k0 k i \<Longrightarrow>
    \<exists>k'. vfork_loop mc K parent (osmap K (pgd parent)) (stack_size seg) (stack_page seg i) k = Some (Returns k')
      \<and> stack_copied mc K (pgd parent) seg content k0 k' (stack_count seg)"
proof (induction "stack_count seg - i" arbitrary: i k)
  case 0
  then have i: "i = stack_count seg"
    by simp
  have "stack_page seg i < next_free seg"
    using stack_bottom_below [OF bounds(1), of "seg_end seg - 4096"]
    by (simp add: i stack_page_def stack_count_def stack_pages_def)
  then have "vfork_loop mc K parent (osmap K (pgd parent)) (stack_size seg) (stack_page seg i) k = Some (Returns k)"
    by (subst vfork_loop.simps, subst if_not_P) (simp_all add: seg [symmetric] not_le)
  then show ?case
    using "0.prems" i by blast
next
  case (Suc d)
  let ?p = "pgd parent" and ?n = "stack_count seg" and ?P = "stack_page seg"
  have i: "i < ?n"
    using Suc.hyps(2) by simp
  note D = stack_copiedD [OF Suc.prems(2)]
  have "?P i \<in> set (down_pages (seg_end seg - 4096) (next_free seg))"
    using stack_page_mem [OF i] by (simp add: stack_pages_def)
  then have use': "next_free seg \<le> ?P i"
    using down_pages_range by blast
  have next': "?P i - 4096 = ?P (Suc i)"
    by (simp add: stack_page_def algebra_simps)
  have "\<exists>k1. vfork_page mc K parent (osmap K ?p) (stack_size seg) (?P i) k = Returns k1
      \<and> stack_copied mc K ?p seg content k0 k1 (Suc i)"
  proof (cases "get_user_pte K ?p (?P i) k")
    case None
    then show ?thesis
      using stack_copied_skip [OF bounds i Suc.prems(2) None] by (simp add: vfork_page_def)
  next
    case (Some e)
    have same: "get_user_pte K ?p (?P i) k = get_user_pte K ?p (?P i) k0"
      "get_user_pte K ?p (?P (i + ?n)) k = get_user_pte K ?p (?P (i + ?n)) k0"
      using i by (intro D(1) stack_pages_apart [OF bounds]; simp)+
    have "get_user_pte K ?p (?P (i + ?n)) k \<noteq> None"
      unfolding same(2) by (rule below [OF i]) (use Some same(1) in simp)
    then obtain old where old: "get_user_pte K ?p (?P i - stack_size seg) k = Some old"
      unfolding child_page by blast
    have apart: "page_of (?P i) \<noteq> page_of (?P i - stack_size seg)"
      unfolding child_page using i by (intro stack_pages_apart [OF bounds]) simp_all
    obtain eo k1 where k1: "vfork_page mc K parent (osmap K ?p) (stack_size seg) (?P i) k = Returns k1" "eo \<noteq> 0"
      "old \<noteq> 0 \<and> eo = old \<or> old = 0 \<and> \<not> mapped_frame mc K ?p (pte_frame mc eo) k"
      and entry: "\<And>w. get_user_pte K ?p w k1 =
        (if page_of w = page_of (?P i - stack_size seg) then Some eo else get_user_pte K ?p w k)"
      and content: "e \<noteq> 0 \<Longrightarrow> content (pte_frame mc eo) k1 = content (pte_frame mc e) k"
        "\<And>g. mapped_frame mc K ?p g k \<Longrightarrow> g \<noteq> pte_frame mc eo \<Longrightarrow> content g k1 = content g k"
      by (rule vfork_page_copies [OF ok Some old apart]) (rule that)
    have "stack_copied mc K ?p seg content k0 k1 (Suc i)"
      by (rule stack_copied_Suc [where eo = eo, OF bounds i Suc.prems(2) Some old [unfolded child_page] k1(2,3)
            entry [unfolded child_page] content])
    with k1(1) show ?thesis
      by blast
  qed
  then obtain k1 where k1: "vfork_page mc K parent (osmap K ?p) (stack_size seg) (?P i) k = Returns k1"
    "stack_copied mc K ?p seg content k0 k1 (Suc i)"
    by blast
  have "d = ?n - Suc i"
    using Suc.hyps(2) by simp
  from Suc.hyps(1) [OF this _ k1(2)] i show ?case
    using k1(1) use' by (subst vfork_loop.simps) (simp add: seg [symmetric] next')
qed

text \<open>
  C20: The stack of a vforked child. The pages of the child's stack, as many as the parent's, lie below
  the parent's stack and are none of its pages, when both stacks together fit above the first page of
  the address space. If then each of them has an entry in the table wherever the
  page above it has one (without it the code follows a null pointer), and the frames of both stacks
  are different ones, then \<open>vfork_copy_mm\<close> returns: the parent waits; the child is on the parent's
  table, with its frame pointer and stack pointer moved down by the size of the parent's stack; every
  mapped page of the parent's stack has its contents as before, and the page of the child for it is
  mapped to a frame of its own with the same contents; no other entry of the table changes.
\<close>

theorem vfork_stack:
  assumes "seg = seg_stack parent" "p = pgd parent"
    and "4096 \<le> next_free seg" "stack_size seg \<le> next_free seg"
    and "stack_kernel_ok mc K p content" "frames_apart mc K p seg k"
    and "\<forall>v \<in> set (stack_pages seg). get_user_pte K p v k \<noteq> None \<longrightarrow>
      get_user_pte K p (v - stack_size seg) k \<noteq> None"
  shows "\<exists>k'. vfork_copy_mm mc K child parent k =
      Returns (child\<lparr>pgd := p, rbp := rbp child - stack_size seg, entry_rsp := entry_rsp child - stack_size seg,
          seg_stack := (seg_stack child)\<lparr>next_free := next_free seg - stack_size seg\<rparr>\<rparr>,
        parent\<lparr>p_state := WAITING\<rparr>, k')
    \<and> (\<forall>v \<in> set (stack_pages seg). \<forall>e. get_user_pte K p v k = Some e \<longrightarrow> e \<noteq> 0 \<longrightarrow>
         content (pte_frame mc e) k' = content (pte_frame mc e) k
         \<and> (\<exists>e'. get_user_pte K p (v - stack_size seg) k' = Some e' \<and> e' \<noteq> 0
              \<and> content (pte_frame mc e') k' = content (pte_frame mc e) k
              \<and> (\<forall>w \<in> set (stack_pages seg). \<forall>e''. get_user_pte K p w k = Some e'' \<longrightarrow> e'' \<noteq> 0 \<longrightarrow>
                   pte_frame mc e'' \<noteq> pte_frame mc e')))
    \<and> (\<forall>w. (\<forall>v \<in> set (stack_pages seg). page_of w \<noteq> page_of (v - stack_size seg)) \<longrightarrow>
         get_user_pte K p w k' = get_user_pte K p w k)
    \<and> (\<forall>v \<in> set (stack_pages seg). \<forall>w \<in> set (stack_pages seg).
         page_of (v - stack_size seg) \<noteq> page_of w \<and> v - stack_size seg < next_free seg)"
proof -
  let ?n = "stack_count seg" and ?P = "stack_page seg" and ?parent = "parent\<lparr>p_state := WAITING\<rparr>"
  have mem: "v \<in> set (stack_pages seg) \<longleftrightarrow> (\<exists>i < ?n. v = ?P i)" for v
    by (auto simp: stack_pages_map)
  have start: "stack_copied mc K p seg content k k 0"
    using assms(6) by (simp add: stack_copied_def)
  have below: "get_user_pte K p (?P (j + ?n)) k \<noteq> None" if "j < ?n" "get_user_pte K p (?P j) k \<noteq> None" for j
    unfolding child_page [symmetric] using assms(7) that(2) stack_page_mem [OF that(1)] by blast
  have "\<exists>k'. vfork_loop mc K ?parent (osmap K (pgd ?parent)) (stack_size seg) (?P 0) k = Some (Returns k')
      \<and> stack_copied mc K (pgd ?parent) seg content k k' ?n"
    by (rule vfork_loop_copies) (use assms below start in simp_all)
  then obtain k' where loop: "vfork_loop mc K ?parent (osmap K p) (stack_size seg) (?P 0) k = Some (Returns k')"
    and inv: "stack_copied mc K p seg content k k' ?n"
    by (auto simp: assms(2))
  note D = stack_copiedD [OF inv]
  have top: "?P 0 = seg_end seg - 4096"
    by (simp add: stack_page_def)
  have "vfork_copy_mm mc K child parent k =
      Returns (child\<lparr>pgd := p, rbp := rbp child - stack_size seg, entry_rsp := entry_rsp child - stack_size seg,
          seg_stack := (seg_stack child)\<lparr>next_free := next_free seg - stack_size seg\<rparr>\<rparr>, ?parent, k')"
    using loop unfolding vfork_copy_mm_def Let_def top
    by (simp add: assms(1)[symmetric] assms(2)[symmetric] stack_bottom_pages [OF assms(3)] vfork_stack_size [symmetric])
  moreover have "content (pte_frame mc e) k' = content (pte_frame mc e) k
       \<and> (\<exists>e'. get_user_pte K p (v - stack_size seg) k' = Some e' \<and> e' \<noteq> 0
            \<and> content (pte_frame mc e') k' = content (pte_frame mc e) k
            \<and> (\<forall>w \<in> set (stack_pages seg). \<forall>e''. get_user_pte K p w k = Some e'' \<longrightarrow> e'' \<noteq> 0 \<longrightarrow>
                 pte_frame mc e'' \<noteq> pte_frame mc e'))"
    if v: "v \<in> set (stack_pages seg)" and e: "get_user_pte K p v k = Some e" "e \<noteq> 0" for v e
  proof -
    obtain i where i: "i < ?n" "v = ?P i"
      using v mem by blast
    obtain e' where e': "get_user_pte K p (?P (i + ?n)) k' = Some e'" "e' \<noteq> 0"
      "content (pte_frame mc e') k' = content (pte_frame mc e) k"
      using D(3) [OF i(1)] e i(2) by blast
    have "pte_frame mc e'' \<noteq> pte_frame mc e'"
      if w: "w \<in> set (stack_pages seg)" and e'': "get_user_pte K p w k = Some e''" "e'' \<noteq> 0" for w e''
    proof -
      obtain j where j: "j < ?n" "w = ?P j"
        using w mem by blast
      have "get_user_pte K p (?P j) k' = get_user_pte K p (?P j) k"
        using j(1) by (intro D(1) stack_pages_apart [OF assms(3,4)]) simp_all
      then show ?thesis
        using e'' j i(1) e' by (intro frames_apartD [OF D(4), of j "i + ?n"]) simp_all
    qed
    then show ?thesis
      using e' D(2) [OF i(1)] e i(2) by (auto simp: child_page)
  qed
  moreover have "get_user_pte K p w k' = get_user_pte K p w k"
    if w: "\<forall>v \<in> set (stack_pages seg). page_of w \<noteq> page_of (v - stack_size seg)" for w
    using w stack_page_mem by (intro D(1)) (auto simp: child_page [symmetric])
  moreover have "page_of (v - stack_size seg) \<noteq> page_of w \<and> v - stack_size seg < next_free seg"
    if v: "v \<in> set (stack_pages seg)" and w: "w \<in> set (stack_pages seg)" for v w
  proof -
    obtain i j where ij: "i < ?n" "v = ?P i" "j < ?n" "w = ?P j"
      using v w mem by blast
    then have "page_of (v - stack_size seg) \<noteq> page_of w"
      unfolding ij child_page by (intro stack_pages_apart [OF assms(3,4)]) simp_all
    then show ?thesis
      using child_stack_below [OF assms(3,4) v] by simp
  qed
  ultimately show ?thesis
    by blast
qed

text \<open>A stack that is in use and has no page below it: the pointer is null.\<close>

theorem vfork_unmapped_below:
  assumes "4096 \<le> next_free (seg_stack parent)" "next_free (seg_stack parent) \<le> seg_end (seg_stack parent) - 4096"
    and "get_user_pte K (pgd parent) (seg_end (seg_stack parent) - 4096) k = Some e"
    and "get_user_pte K (pgd parent) (seg_end (seg_stack parent) - 4096 - stack_size (seg_stack parent)) k = None"
  shows "vfork_copy_mm mc K child parent k = Faults"
proof -
  have "vfork_loop mc K (parent\<lparr>p_state := WAITING\<rparr>) (osmap K (pgd parent)) (stack_size (seg_stack parent))
      (seg_end (seg_stack parent) - 4096) k = Some Faults"
    using assms by (auto intro!: vfork_loop_fault)
  then show ?thesis
    unfolding vfork_copy_mm_def Let_def
    by (simp add: stack_bottom_pages [OF assms(1)] vfork_stack_size [symmetric])
qed

section \<open>The exit of the child\<close>

text \<open>
  The exit of a vforked child resumes the parent, with the areas and the end of the data segment
  the child has left; everything else of the parent is as before the fork.\<close>

theorem vfork_exit_resumes:
  assumes "vfork_copy_mm mc K child parent k = Returns (child', parent', k')"
  shows "vfork_exit_handle (child'\<lparr>vm_areas := areas, seg_data := data\<rparr>) (Some parent') =
      Some (parent\<lparr>p_state := READY, vm_areas := areas,
        seg_data := (seg_data parent)\<lparr>next_free := next_free data\<rparr>\<rparr>)"
  using assms
  by (auto simp: vfork_copy_mm_def Let_def run_bind_eq_Returns vfork_exit_handle_def)

section \<open>Examples\<close>

text \<open>A process with one stack page, which is mapped or not.\<close>

definition one_page :: "u64 \<Rightarrow> mm_segment" where
  "one_page a = \<lparr>seg_start = 4096, seg_end = a + 4096, next_free = a, seg_flags = 7\<rparr>"

definition small_stack :: "u64 \<Rightarrow> proc_context" where
  "small_stack a = small_parent\<lparr>seg_stack := one_page a\<rparr>"

lemma one_page_simps [simp]:
  "next_free (one_page a) = a" "seg_end (one_page a) = a + 4096"
  "stack_pages (one_page a) = [a]" "stack_size (one_page a) = 4096"
  "seg_stack (small_stack a) = one_page a" "pgd (small_stack a) = 1"
  by (simp_all add: small_stack_def small_parent_def one_page_def stack_size_def stack_pages_def down_pages_def)

theorem vfork_unmapped_below_witness:
  "vfork_copy_mm small_macros small_kernel child (small_stack 20480) small_start = Faults"
proof -
  have "get_user_pte small_kernel 1 20480 small_start = Some (small_entry 3 7)"
    "get_user_pte small_kernel 1 16384 small_start = None"
    by (simp_all add: small_kernel_def small_start_def page_of_def drop_bit_eq_div)
  then show ?thesis
    by (intro vfork_unmapped_below) simp_all
qed

lemma small_vfork:
  obtains child parent k where
    "vfork_copy_mm small_macros small_kernel small_parent (small_stack 40960) small_start = Returns (child, parent, k)"
proof -
  have "get_user_pte small_kernel 1 40960 small_start = None"
    by (simp add: small_kernel_def page_of_def drop_bit_eq_div)
  moreover have "vfork_loop small_macros small_kernel ((small_stack 40960)\<lparr>p_state := WAITING\<rparr>)
      (osmap small_kernel 1) 4096 36864 small_start = Some (Returns small_start)"
    by (subst vfork_loop.simps) simp
  ultimately have "vfork_loop small_macros small_kernel ((small_stack 40960)\<lparr>p_state := WAITING\<rparr>)
      (osmap small_kernel 1) 4096 40960 small_start = Some (Returns small_start)"
    by (subst vfork_loop.simps) (simp add: vfork_page_def)
  moreover have "stack_bottom 40960 40960 = Some 36864"
    using stack_bottom_pages [of 40960 40960] by (simp add: down_pages_def)
  ultimately show thesis
    using that unfolding vfork_copy_mm_def Let_def by simp
qed

text \<open>
  A machine for the copy: a stack page at 20480 with frame 3, and a table for the page below, whose
  entry is empty as long as \<open>lower_frame\<close> is 0.
\<close>

record stack_memory =
  lower_frame :: u32
  frame_bytes :: "u64 \<Rightarrow> u8"

definition stack_entry :: "u64 \<Rightarrow> stack_memory \<Rightarrow> u64 option" where
  "stack_entry v k =
     (if page_of v = 5 then Some (small_entry 3 7)
      else if page_of v = 4 then Some (if lower_frame k = 0 then 0 else small_entry (lower_frame k) 7)
      else None)"

definition stack_kernel :: "stack_memory kernel" where
  "stack_kernel =
     \<lparr>osmap = push_bit 12,
      map_physical_page = (\<lambda>base v fl f k. (f, k)),
      do_unmap_user = (\<lambda>p v k. k),
      get_user_pte = (\<lambda>p. stack_entry),
      invlpg = (\<lambda>v k. k),
      write_pte = (\<lambda>p v e k. k),
      install_ptable = (\<lambda>base seg v f k. if page_of v = 4 then (8, k\<lparr>lower_frame := 8\<rparr>) else (f, k)),
      get_refcount = (\<lambda>f k. 1),
      inc_refcount = (\<lambda>f k. k),
      dec_refcount = (\<lambda>f k. k),
      copy_page = (\<lambda>d s k. k\<lparr>frame_bytes := (\<lambda>a. if a - d < 4096 then frame_bytes k (s + (a - d)) else frame_bytes k a)\<rparr>),
      zero_page = (\<lambda>base k. k),
      os_pfn_alloc = (\<lambda>k. (2, k)),
      copy_os_pts = (\<lambda>p c k. k)\<rparr>"

definition frame_content :: "u64 \<Rightarrow> stack_memory \<Rightarrow> u64 \<Rightarrow> u8" where
  "frame_content f k = (\<lambda>i. frame_bytes k (push_bit 12 f + (i AND mask 12)))"

definition stack_start :: stack_memory where
  "stack_start = \<lparr>lower_frame = 0, frame_bytes = (\<lambda>a. if a = 12288 then 65 else 0)\<rparr>"

lemma frame_number_inj: "(ucast (g :: u32) :: u64) = ucast f \<longleftrightarrow> g = f"
  using unsigned_less [of g, where ?'a = nat] unsigned_less [of f, where ?'a = nat]
  by (auto simp: word_unat_eq_iff unsigned_ucast_eq take_bit_eq_mod)

lemma small_entry_nonzero: "g \<noteq> 0 \<Longrightarrow> small_entry g fl \<noteq> 0"
  using small_frame [of g fl] frame_number_inj [of g 0] by (auto simp: pte_frame_def)

lemma stack_mapped:
  "mapped_frame small_macros stack_kernel p f k \<longleftrightarrow> f = 3 \<or> lower_frame k \<noteq> 0 \<and> f = ucast (lower_frame k)"
proof -
  have "page_of 20480 = 5" "page_of 16384 = 4"
    by (simp_all add: page_of_def drop_bit_eq_div)
  then show ?thesis
    unfolding mapped_frame_def
    by (auto simp: stack_kernel_def stack_entry_def small_frame small_entry_nonzero split: if_splits
        intro: exI [of _ 20480] exI [of _ 16384])
qed

text \<open>A page frame holds the addresses with its number.\<close>

lemma frame_byte_page: "page_of (push_bit 12 (ucast (g :: u32)) + (i AND mask 12)) = ucast g"
  using and_mask_less' [of 12 i] by (intro page_of_frame_addr) simp

lemma frame_byte_offset:
  assumes "(a :: u64) - push_bit 12 (ucast (g :: u32)) < 4096"
  shows "page_of a = ucast g"
  using page_of_frame_addr [OF assms, of g] by (simp add: algebra_simps)

lemma frame_address: "e AND FLAG_MASK small_macros = push_bit 12 (pte_frame small_macros e)"
  by (rule bit_word_eqI) (auto simp: small_macros_def pte_frame_def bit_simps)

lemma stack_kernel_copy:
  "frame_content (ucast (g :: u32)) (copy_page stack_kernel (osmap stack_kernel (ucast (f :: u32))) (e AND FLAG_MASK small_macros) k) =
   frame_content (if g = f then pte_frame small_macros e else ucast g) k"
proof (cases "g = f")
  case True
  then show ?thesis
    by (simp add: frame_content_def stack_kernel_def frame_address and_mask_less' [of 12, simplified] fun_eq_iff)
next
  case False
  have "\<not> push_bit 12 (ucast g) + (i AND mask 12) - push_bit 12 (ucast f) < (4096 :: u64)" for i
    using frame_byte_offset [of _ f] frame_byte_page [of g i] False by (metis frame_number_inj)
  then show ?thesis
    using False by (simp add: frame_content_def stack_kernel_def fun_eq_iff)
qed

lemma stack_kernel_mapped:
  "mapped_frame small_macros stack_kernel p f k \<Longrightarrow> \<exists>g. f = ucast (g :: u32)"
  using stack_mapped [of p f k] by (auto intro: exI [of _ 3])

lemma stack_kernel_tables:
  "get_user_pte stack_kernel p v (copy_page stack_kernel d s k) = get_user_pte stack_kernel p v k"
  by (simp add: stack_kernel_def stack_entry_def)

lemma stack_kernel_install:
  assumes "get_user_pte stack_kernel p v k = Some 0" "install_ptable stack_kernel a seg v 0 k = (f, k')"
  shows "page_of v = 4 \<and> lower_frame k = 0 \<and> f = ucast (8 :: u32) \<and> k' = k\<lparr>lower_frame := 8\<rparr>"
  using assms small_entry_nonzero [of 3 7] small_entry_nonzero [of "lower_frame k" 7]
  by (auto simp: stack_kernel_def stack_entry_def split: if_splits)

lemma stack_kernel_laws: "stack_kernel_ok small_macros stack_kernel p frame_content"
  unfolding stack_kernel_ok_def
proof (intro conjI allI impI)
  fix v v' :: u64 and k
  assume "page_of v = page_of v'"
  then show "get_user_pte stack_kernel p v k = get_user_pte stack_kernel p v' k"
    by (simp add: stack_kernel_def stack_entry_def)
next
  fix seg v k f k'
  assume "get_user_pte stack_kernel p v k = Some 0"
    and "install_ptable stack_kernel (osmap stack_kernel p) seg v 0 k = (f, k')"
  note new = stack_kernel_install [OF this]
  then show "\<exists>e. e \<noteq> 0 \<and> pte_frame small_macros e = f \<and> (\<forall>v'. get_user_pte stack_kernel p v' k' =
      (if page_of v' = page_of v then Some e else get_user_pte stack_kernel p v' k))"
    using small_frame [of 8 7] small_entry_nonzero [of 8 7]
    by (intro exI [of _ "small_entry 8 7"]) (simp add: stack_kernel_def stack_entry_def)
  show "\<not> mapped_frame small_macros stack_kernel p f k"
    using new by (simp add: stack_mapped)
  show "frame_content g k' = frame_content g k" for g
    using new by (simp add: frame_content_def)
next
  fix e f k v
  show "get_user_pte stack_kernel p v (copy_page stack_kernel (osmap stack_kernel f) (e AND FLAG_MASK small_macros) k) =
      get_user_pte stack_kernel p v k"
    by (rule stack_kernel_tables)
next
  fix e f k g
  assume "mapped_frame small_macros stack_kernel p f k" "mapped_frame small_macros stack_kernel p g k"
  then obtain f' g' :: u32 where "f = ucast f'" "g = ucast g'"
    using stack_kernel_mapped by metis
  then show "frame_content g (copy_page stack_kernel (osmap stack_kernel f) (e AND FLAG_MASK small_macros) k) =
      (if g \<noteq> f then frame_content g k
       else if mapped_frame small_macros stack_kernel p (pte_frame small_macros e) k
       then frame_content (pte_frame small_macros e) k
       else frame_content g (copy_page stack_kernel (osmap stack_kernel f) (e AND FLAG_MASK small_macros) k))"
    by (simp add: stack_kernel_copy frame_number_inj)
qed

theorem vfork_stack_witness:
  "\<exists>child parent k e. vfork_copy_mm small_macros stack_kernel small_parent (small_stack 20480) stack_start =
       Returns (child, parent, k)
     \<and> next_free (seg_stack child) = 16384 \<and> rbp child = - 4096 \<and> p_state parent = WAITING
     \<and> get_user_pte stack_kernel 1 16384 k = Some e
     \<and> frame_bytes stack_start (push_bit 12 (pte_frame small_macros (small_entry 3 7))) = 65
     \<and> frame_bytes k (push_bit 12 (pte_frame small_macros e)) = 65"
proof -
  let ?p = "small_stack 20480"
  have pages: "get_user_pte stack_kernel (pgd ?p) 20480 stack_start = Some (small_entry 3 7)"
    "get_user_pte stack_kernel (pgd ?p) 16384 stack_start = Some 0" "small_entry 3 7 \<noteq> 0"
    by (simp_all add: stack_kernel_def stack_entry_def stack_start_def page_of_def drop_bit_eq_div small_entry_nonzero)
  have "get_user_pte stack_kernel (pgd ?p) (stack_page (seg_stack ?p) (Suc 0)) stack_start = Some 0"
    using pages(2) by (simp add: stack_page_def)
  then have apart: "frames_apart small_macros stack_kernel (pgd ?p) (seg_stack ?p) stack_start"
    by (auto simp: frames_apart_def stack_count_def less_2_cases_iff)
  have bounds: "4096 \<le> next_free (seg_stack ?p)" "stack_size (seg_stack ?p) \<le> next_free (seg_stack ?p)"
    by simp_all
  have below: "\<forall>v \<in> set (stack_pages (seg_stack ?p)). get_user_pte stack_kernel (pgd ?p) v stack_start \<noteq> None \<longrightarrow>
      get_user_pte stack_kernel (pgd ?p) (v - stack_size (seg_stack ?p)) stack_start \<noteq> None"
    using pages by simp
  from vfork_stack [OF refl refl bounds stack_kernel_laws apart below, of small_parent] pages
  obtain k' e' where run: "vfork_copy_mm small_macros stack_kernel small_parent ?p stack_start =
      Returns (small_parent\<lparr>pgd := 1, rbp := rbp small_parent - 4096, entry_rsp := entry_rsp small_parent - 4096,
          seg_stack := (seg_stack small_parent)\<lparr>next_free := 16384\<rparr>\<rparr>, ?p\<lparr>p_state := WAITING\<rparr>, k')"
    and e': "get_user_pte stack_kernel 1 16384 k' = Some e'"
    and content: "frame_content (pte_frame small_macros e') k' = frame_content (pte_frame small_macros (small_entry 3 7)) stack_start"
    by auto
  have "frame_bytes k' (push_bit 12 (pte_frame small_macros e')) = frame_bytes stack_start (push_bit 12 3)"
    using fun_cong [OF content, of 0] small_frame [of 3 7] by (simp add: frame_content_def)
  then show ?thesis
    using run e' by (auto simp: small_frame stack_start_def push_bit_eq_mult small_parent_def)
qed

theorem vfork_exit_resumes_witness:
  "\<exists>child parent k. vfork_copy_mm small_macros small_kernel small_parent (small_stack 40960) small_start
       = Returns (child, parent, k)
     \<and> vfork_exit_handle (child\<lparr>vm_areas := [new_vm 1048576 1052672 3], seg_data := seg_data small_parent\<rparr>) (Some parent)
       = Some ((small_stack 40960)\<lparr>p_state := READY, vm_areas := [new_vm 1048576 1052672 3]\<rparr>)"
proof -
  obtain child parent k where
    run: "vfork_copy_mm small_macros small_kernel small_parent (small_stack 40960) small_start = Returns (child, parent, k)"
    by (rule small_vfork)
  with vfork_exit_resumes [OF run, where areas = "[new_vm 1048576 1052672 3]" and data = "seg_data small_parent"] show ?thesis
    by (auto simp: small_stack_def small_parent_def)
qed

end
