(* ===== verification/Dir_Tree.thy ===== *)
theory Dir_Tree
  imports Prelude
begin

text \<open>
  The file system as the directory tools of \<open>Assignment1\<close> see it, through \<open>opendir\<close>, \<open>readdir\<close>,
  \<open>stat\<close> and \<open>open\<close>, and the trees of files it shows.
\<close>

section \<open>The system calls\<close>

record dirent =
  d_name :: string
  d_type :: u8

record stat_buf =
  st_mode :: u32
  st_size :: i64

definition DT_DIR :: u8 where "DT_DIR = 4"
definition DT_REG :: u8 where "DT_REG = 8"
definition S_IFMT :: u32 where "S_IFMT = 0xf000"
definition S_IFDIR :: u32 where "S_IFDIR = 0x4000"
definition S_IFREG :: u32 where "S_IFREG = 0x8000"

text \<open>
  \<open>entries\<close> has what \<open>readdir\<close> returns after a successful \<open>opendir\<close>. The tools mostly ignore the
  result of \<open>stat\<close>, which is \<open>found\<close>, so \<open>status\<close> has what they find in the buffer. \<open>contents\<close> has the bytes of a file
  that can be opened.
\<close>

record file_tree =
  entries :: "string \<Rightarrow> dirent list option"
  status :: "string \<Rightarrow> stat_buf"
  found :: "string \<Rightarrow> bool"
  contents :: "string \<Rightarrow> u8 list option"

text \<open>\<open>path2\<close> of all three loops, and their test of the name.\<close>

definition path_of :: "string \<Rightarrow> dirent \<Rightarrow> string" where
  "path_of path dp = path @ ''/'' @ d_name dp"

definition dot_entry :: "dirent \<Rightarrow> bool" where
  "dot_entry dp \<longleftrightarrow> d_name dp = ''.'' \<or> d_name dp = ''..''"

text \<open>The slash at the end of an argument is removed; the empty path has no last character.\<close>

definition strip_slash :: "string \<Rightarrow> string run" where
  "strip_slash path =
     (if path = [] then Faults
      else Returns (if path ! (length path - 1) = CHR ''/'' then take (length path - 1) path else path))"

section \<open>Trees\<close>

text \<open>A file with its length, a directory, or a directory that cannot be opened.\<close>

datatype node = File i64 | Dir "(string \<times> node) list" | Locked

text \<open>The file system has this tree at a path.\<close>

definition is_dir :: "file_tree \<Rightarrow> string \<Rightarrow> bool" where
  "is_dir F path \<longleftrightarrow> st_mode (status F path) AND S_IFMT = S_IFDIR"

fun tree_at :: "file_tree \<Rightarrow> string \<Rightarrow> node \<Rightarrow> bool" where
  "tree_at F path (File n) \<longleftrightarrow> \<not> is_dir F path \<and> entries F path = None \<and> st_size (status F path) = n"
| "tree_at F path Locked \<longleftrightarrow> is_dir F path \<and> entries F path = None"
| "tree_at F path (Dir es) \<longleftrightarrow> is_dir F path
     \<and> (\<exists>dps. entries F path = Some dps \<and> List.map d_name (filter (\<lambda>dp. \<not> dot_entry dp) dps) = List.map fst es)
     \<and> (\<forall>(name, t) \<in> set es. tree_at F (path @ ''/'' @ name) t)"

end
