(* ===== verification/Dir_Size.thy ===== *)
theory Dir_Size
  imports Dir_Tree
begin

text \<open>
  \<open>Assignment1/Part_3\<close>: the sizes of the sub-directories of a directory, each computed by a process
  of its own, and of the directory.
\<close>

section \<open>The code\<close>

subsection \<open>\<open>findSizeOfDirectory\<close>\<close>

text \<open>
  \<open>free\<close> is the number of descriptors the process has left. Every directory on the way down takes one,
  and gives it back when it is closed: \<open>opendir\<close> fails when none is left, and a directory that cannot be
  opened counts 0. So the recursion ends, even where links lead back to a directory above.
\<close>

function (sequential) findSizeOfDirectory :: "file_tree \<Rightarrow> nat \<Rightarrow> string \<Rightarrow> i64"
  and size_loop :: "file_tree \<Rightarrow> nat \<Rightarrow> string \<Rightarrow> dirent list \<Rightarrow> i64 \<Rightarrow> i64" where
  "findSizeOfDirectory F free path =
     (if free = 0 then 0
      else (case entries F path of None \<Rightarrow> 0 | Some dps \<Rightarrow> size_loop F (free - 1) path dps 0))"
| "size_loop F free path dps siz =
     (case dps of
        [] \<Rightarrow> siz
      | dp # dps' \<Rightarrow>
          if dot_entry dp then size_loop F free path dps' siz
          else
            (let path2 = path_of path dp; sb = status F path2 in
             if st_mode sb AND S_IFMT = S_IFDIR then
               size_loop F free path dps' (siz + findSizeOfDirectory F free path2)
             else size_loop F free path dps' (siz + st_size sb)))"
  by pat_completeness auto
termination
  by (relation "measures [\<lambda>x. case x of Inl (F, free, path) \<Rightarrow> free | Inr (F, free, path, dps, siz) \<Rightarrow> free,
      \<lambda>x. case x of Inl (F, free, path) \<Rightarrow> 0 | Inr (F, free, path, dps, siz) \<Rightarrow> Suc (length dps)]") auto

declare findSizeOfDirectory.simps [simp del] size_loop.simps [simp del]

definition findSizeOfFile :: "file_tree \<Rightarrow> string \<Rightarrow> i64" where
  "findSizeOfFile F path = st_size (status F path)"

subsection \<open>\<open>dirName\<close>\<close>

text \<open>The index of the last slash in front of \<open>i\<close>; none is the index -1.\<close>

fun last_slash :: "string \<Rightarrow> nat \<Rightarrow> int" where
  "last_slash path 0 = - 1"
| "last_slash path (Suc i) = (if path ! i = CHR ''/'' then int i else last_slash path i)"

definition dirName :: "string \<Rightarrow> string run" where
  "dirName path = run_bind (strip_slash path) (\<lambda>path.
     Returns (drop (nat (last_slash path (length path) + 1)) path))"

subsection \<open>\<open>printSizes\<close>\<close>

datatype out_line = Invalid_Arguments | Size string i64

text \<open>
  \<open>fds\<close> counts the open descriptors. Standard output goes through a buffer unless it is a terminal,
  and a child starts with a copy of it.
\<close>

record out_state =
  root_size :: i64
  fds :: nat
  printed :: "out_line list"
  buffer :: "out_line list"

definition print_line :: "bool \<Rightarrow> out_line \<Rightarrow> out_state \<Rightarrow> out_state" where
  "print_line tty l st =
     (if tty then st\<lparr>printed := printed st @ [l]\<rparr> else st\<lparr>buffer := buffer st @ [l]\<rparr>)"

definition flush :: "out_state \<Rightarrow> out_state" where
  "flush st = st\<lparr>printed := printed st @ buffer st, buffer := []\<rparr>"

text \<open>
  The child, which has a copy of the descriptors: the size it writes to the pipe, and the output when
  it has exited. \<open>limit\<close> is the number of descriptors a process may have.
\<close>

definition child :: "file_tree \<Rightarrow> nat \<Rightarrow> bool \<Rightarrow> string \<Rightarrow> string \<Rightarrow> out_state \<Rightarrow> i64 \<times> out_line list" where
  "child F limit tty path2 name st =
     (let s = findSizeOfDirectory F (limit - fds st) path2 in
      (s, printed (flush (print_line tty (Size name s) st))))"

text \<open>
  The loop, to the end or to an \<open>exit(-1)\<close>, which is the value \<^const>\<open>False\<close>. A pipe takes two
  descriptors. The parent waits for its child, so it goes on only when the child ends.
\<close>

fun print_loop :: "file_tree \<Rightarrow> (string \<Rightarrow> bool) \<Rightarrow> nat \<Rightarrow> bool \<Rightarrow> string \<Rightarrow> dirent list \<Rightarrow> out_state \<Rightarrow>
    bool \<times> out_state" where
  "print_loop F fork_ok limit tty path [] st = (True, st)"
| "print_loop F fork_ok limit tty path (dp # dps) st =
     (if dot_entry dp then print_loop F fork_ok limit tty path dps st
      else
        (let path2 = path_of path dp in
         if d_type dp = DT_DIR then
           (if limit < fds st + 2 then (False, st)
            else
              (let st = st\<lparr>fds := fds st + 2\<rparr> in
               if \<not> fork_ok path2 then (False, st)
               else
                 (let (t, out) = child F limit tty path2 (d_name dp) st;
                      st = st\<lparr>printed := out\<rparr>;
                      st = st\<lparr>fds := fds st - 1\<rparr> in
                  print_loop F fork_ok limit tty path dps (st\<lparr>root_size := root_size st + t\<rparr>))))
         else
           print_loop F fork_ok limit tty path dps (st\<lparr>root_size := root_size st + findSizeOfFile F path2\<rparr>)))"

text \<open>The descriptor of the directory is closed in the end, those of the pipes are not.\<close>

definition printSizes :: "file_tree \<Rightarrow> (string \<Rightarrow> bool) \<Rightarrow> nat \<Rightarrow> bool \<Rightarrow> string \<Rightarrow> out_state \<Rightarrow>
    (bool \<times> out_state) run" where
  "printSizes F fork_ok limit tty path st =
     (if limit < fds st + 1 then Returns (True, st)
      else
        (case entries F path of
           None \<Rightarrow> Returns (True, st)
         | Some dps \<Rightarrow>
             (let (ok, st) = print_loop F fork_ok limit tty path dps (st\<lparr>root_size := 0, fds := fds st + 1\<rparr>) in
              if \<not> ok then Returns (False, st)
              else
                (let st = st\<lparr>fds := fds st - 1\<rparr> in
                 run_bind (dirName path) (\<lambda>name.
                   Returns (True, print_line tty (Size name (root_size st)) st))))))"

text \<open>\<open>main\<close>: the lines printed, and whether it got to its end.\<close>

definition size_main :: "file_tree \<Rightarrow> (string \<Rightarrow> bool) \<Rightarrow> nat \<Rightarrow> bool \<Rightarrow> string list \<Rightarrow> (bool \<times> out_line list) run" where
  "size_main F fork_ok limit tty argv =
     (let st = \<lparr>root_size = 0, fds = 3, printed = [], buffer = []\<rparr>;
          st = (if length argv \<noteq> 2 then print_line tty Invalid_Arguments st else st) in
      run_bind (case drop 1 argv of [] \<Rightarrow> Returns (True, st)
                | path # args \<Rightarrow> printSizes F fork_ok limit tty path st) (\<lambda>(ok, st).
        Returns (ok, printed (flush st))))"

section \<open>The sum over a tree\<close>

fun node_size :: "node \<Rightarrow> i64" where
  "node_size (File n) = n"
| "node_size Locked = 0"
| "node_size (Dir es) = sum_list (List.map (\<lambda>(name, t). node_size t) es)"

text \<open>The directories that lie in one another, and are open at the same time.\<close>

fun levels :: "node \<Rightarrow> nat" where
  "levels (File n) = 0"
| "levels Locked = 0"
| "levels (Dir es) = Suc (foldr max (List.map (\<lambda>(name, t). levels t) es) 0)"

lemma levels_entry: "(name, t) \<in> set es \<Longrightarrow> levels t < levels (Dir es)"
  by (induction es) (auto simp: less_Suc_eq_le le_max_iff_disj)

lemma size_loop_simps [simp]:
  "size_loop F free path [] siz = siz"
  "size_loop F free path (dp # dps) siz =
     (if dot_entry dp then size_loop F free path dps siz
      else if is_dir F (path_of path dp) then size_loop F free path dps (siz + findSizeOfDirectory F free (path_of path dp))
      else size_loop F free path dps (siz + findSizeOfFile F (path_of path dp)))"
  by (subst size_loop.simps; simp add: is_dir_def findSizeOfFile_def Let_def)+

lemma size_loop_entries:
  assumes "\<And>name t. (name, t) \<in> set es \<Longrightarrow> is_dir F (path @ ''/'' @ name) \<Longrightarrow>
      findSizeOfDirectory F free (path @ ''/'' @ name) = node_size t"
    and "\<And>name t. (name, t) \<in> set es \<Longrightarrow> \<not> is_dir F (path @ ''/'' @ name) \<Longrightarrow>
      findSizeOfFile F (path @ ''/'' @ name) = node_size t"
    and "List.map d_name (filter (\<lambda>dp. \<not> dot_entry dp) dps) = List.map fst es"
  shows "size_loop F free path dps siz = siz + sum_list (List.map (\<lambda>(name, t). node_size t) es)"
  using assms
proof (induction dps arbitrary: es siz)
  case (Cons dp dps)
  show ?case
  proof (cases "dot_entry dp")
    case True
    then show ?thesis
      using Cons by simp
  next
    case False
    then obtain t es' where es: "es = (d_name dp, t) # es'"
      "List.map d_name (filter (\<lambda>dp. \<not> dot_entry dp) dps) = List.map fst es'"
      using Cons.prems(3) by (cases es) auto
    have "size_loop F free path dps siz' = siz' + sum_list (List.map (\<lambda>(name, t). node_size t) es')" for siz'
      using Cons.IH [of es'] Cons.prems(1,2) es by simp
    moreover have "path_of path dp = path @ ''/'' @ d_name dp"
      by (simp add: path_of_def)
    ultimately show ?thesis
      using False Cons.prems(1,2) [of "d_name dp" t] es
      by (cases "is_dir F (path_of path dp)") (simp_all add: add.assoc)
  qed
qed simp

lemma tree_is_dir: "tree_at F path t \<Longrightarrow> is_dir F path \<longleftrightarrow> (\<forall>n. t \<noteq> File n)"
  by (cases t) simp_all

lemma find_size_tree:
  "tree_at F path t \<Longrightarrow> is_dir F path \<Longrightarrow> levels t \<le> free \<Longrightarrow> findSizeOfDirectory F free path = node_size t"
proof (induction F path t arbitrary: free rule: tree_at.induct)
  case (3 F path es)
  then obtain dps where dps: "entries F path = Some dps"
    "List.map d_name (filter (\<lambda>dp. \<not> dot_entry dp) dps) = List.map fst es"
    by auto
  have at: "tree_at F (path @ ''/'' @ name) t" if "(name, t) \<in> set es" for name t
    using 3(2) that by auto
  have "findSizeOfDirectory F (free - 1) (path @ ''/'' @ name) = node_size t"
    if "(name, t) \<in> set es" "is_dir F (path @ ''/'' @ name)" for name t
    using 3(1) [OF that(1) refl at [OF that(1)] that(2)] levels_entry [OF that(1)] 3(4) by simp
  moreover have "findSizeOfFile F (path @ ''/'' @ name) = node_size t"
    if "(name, t) \<in> set es" "\<not> is_dir F (path @ ''/'' @ name)" for name t
    using at [OF that(1)] that(2) by (cases t) (simp_all add: findSizeOfFile_def)
  ultimately have "size_loop F (free - 1) path dps 0 = 0 + sum_list (List.map (\<lambda>(name, t). node_size t) es)"
    by (intro size_loop_entries dps(2)) simp_all
  then show ?case
    using dps(1) 3(4) by (simp add: findSizeOfDirectory.simps)
qed (simp_all add: findSizeOfDirectory.simps)

lemma find_size_subtree:
  assumes "tree_at F path t" "entries F path = Some dps" "dp \<in> set dps" "\<not> dot_entry dp"
    and "is_dir F (path_of path dp)" "levels t - 1 \<le> free"
  shows "findSizeOfDirectory F free (path_of path dp) = findSizeOfDirectory F (levels t - 1) (path_of path dp)"
proof -
  obtain es where t: "t = Dir es"
    using assms(1,2) by (cases t) auto
  have "d_name dp \<in> fst ` set es"
  proof -
    have "List.map d_name (filter (\<lambda>dp. \<not> dot_entry dp) dps) = List.map fst es"
      using assms(1,2) t by simp
    then have "fst ` set es = d_name ` set (filter (\<lambda>dp. \<not> dot_entry dp) dps)"
      by (metis list.set_map)
    then show ?thesis
      using assms(3,4) by auto
  qed
  then obtain t' where t': "(d_name dp, t') \<in> set es"
    by auto
  then have at: "tree_at F (path_of path dp) t'"
    using assms(1) t by (auto simp: path_of_def)
  have "levels t' \<le> levels t - 1"
    using levels_entry [OF t'] t by simp
  then show ?thesis
    using find_size_tree [OF at assms(5)] assms(6) by simp
qed

section \<open>Names\<close>

lemma last_slash_skip:
  "i \<le> n \<Longrightarrow> \<forall>j. i \<le> j \<and> j < n \<longrightarrow> path ! j \<noteq> CHR ''/'' \<Longrightarrow> last_slash path n = last_slash path i"
  by (induction n) (auto simp: le_Suc_eq)

lemma dirName_name:
  assumes "name \<noteq> []" "CHR ''/'' \<notin> set name"
  shows "dirName name = Returns name" "dirName (dir @ ''/'' @ name) = Returns name"
    "dirName (dir @ ''/'' @ name @ ''/'') = Returns name"
proof -
  have no: "name ! i \<noteq> CHR ''/''" if "i < length name" for i
    using assms(2) that by (metis nth_mem)
  have "last_slash name (length name) = last_slash name 0"
    using no by (intro last_slash_skip) auto
  then show "dirName name = Returns name"
    using assms(1) no [of "length name - 1"] by (simp add: dirName_def strip_slash_def)
  let ?p = "dir @ ''/'' @ name"
  have "last_slash ?p (length ?p) = last_slash ?p (Suc (length dir))"
    using no by (intro last_slash_skip) (auto simp: nth_append nth_Cons' split: if_splits)
  also have "\<dots> = int (length dir)"
    by (simp add: nth_append)
  finally have slash: "last_slash ?p (length ?p) = int (length dir)" .
  have last: "?p ! (length ?p - 1) \<noteq> CHR ''/''"
    using assms(1) no [of "length name - 1"] by (simp add: nth_append)
  show "dirName ?p = Returns name"
    using slash last by (simp add: dirName_def strip_slash_def nat_add_distrib)
  have "?p @ ''/'' = dir @ ''/'' @ name @ ''/''"
    by simp
  moreover have "strip_slash (?p @ ''/'') = Returns ?p"
    by (simp add: strip_slash_def nth_append)
  ultimately show "dirName (dir @ ''/'' @ name @ ''/'') = Returns name"
    using slash by (simp add: dirName_def nat_add_distrib)
qed

lemma dirName_returns: "path \<noteq> [] \<Longrightarrow> \<exists>name. dirName path = Returns name"
  by (simp add: dirName_def strip_slash_def)

section \<open>The processes\<close>

definition subdirs :: "dirent list \<Rightarrow> dirent list" where
  "subdirs dps = filter (\<lambda>dp. \<not> dot_entry dp \<and> d_type dp = DT_DIR) dps"

definition size_line :: "file_tree \<Rightarrow> nat \<Rightarrow> string \<Rightarrow> dirent \<Rightarrow> out_line" where
  "size_line F free path dp = Size (d_name dp) (findSizeOfDirectory F free (path_of path dp))"

text \<open>The lines of the children, when the first of them has \<open>n\<close> descriptors and each has one more.\<close>

fun size_lines :: "file_tree \<Rightarrow> nat \<Rightarrow> string \<Rightarrow> nat \<Rightarrow> dirent list \<Rightarrow> out_line list" where
  "size_lines F limit path n [] = []"
| "size_lines F limit path n (dp # dps) = size_line F (limit - n) path dp # size_lines F limit path (Suc n) dps"

lemma subdirs_simps [simp]:
  "subdirs [] = []"
  "subdirs (dp # dps) = (if \<not> dot_entry dp \<and> d_type dp = DT_DIR then dp # subdirs dps else subdirs dps)"
  by (simp_all add: subdirs_def)

lemma child_output:
  assumes "tty \<longrightarrow> buffer st = []"
  shows "child F limit tty (path_of path dp) (d_name dp) st =
    (findSizeOfDirectory F (limit - fds st) (path_of path dp), printed st @ buffer st @ [size_line F (limit - fds st) path dp])"
  using assms by (simp add: child_def print_line_def flush_def size_line_def Let_def)

text \<open>One sub-directory, with descriptors for its pipe.\<close>

lemma print_loop_child:
  assumes "\<not> dot_entry dp" "d_type dp = DT_DIR" "fork_ok (path_of path dp)" "fds st + 2 \<le> limit" "tty \<longrightarrow> buffer st = []"
  shows "print_loop F fork_ok limit tty path (dp # dps) st = print_loop F fork_ok limit tty path dps
    (st\<lparr>printed := printed st @ buffer st @ [size_line F (limit - (fds st + 2)) path dp], fds := fds st + 1,
      root_size := root_size st + findSizeOfDirectory F (limit - (fds st + 2)) (path_of path dp)\<rparr>)"
  using assms child_output [of tty "st\<lparr>fds := fds st + 2\<rparr>" F limit path dp] by (simp add: Let_def)

text \<open>With descriptors and processes enough, the loop computes what \<open>findSizeOfDirectory\<close> computes.\<close>

lemma print_loop_sizes:
  assumes "\<forall>dp \<in> set dps. \<not> dot_entry dp \<longrightarrow> (d_type dp = DT_DIR \<longleftrightarrow> is_dir F (path_of path dp))"
    and "\<forall>dp \<in> set dps. fork_ok (path_of path dp)"
    and "\<And>dp free. dp \<in> set dps \<Longrightarrow> \<not> dot_entry dp \<Longrightarrow> is_dir F (path_of path dp) \<Longrightarrow> d \<le> free \<Longrightarrow>
      findSizeOfDirectory F free (path_of path dp) = findSizeOfDirectory F d (path_of path dp)"
    and "fds st + length (subdirs dps) + 1 + d \<le> limit" "tty \<longrightarrow> buffer st = []"
  shows "print_loop F fork_ok limit tty path dps st = (True,
    st\<lparr>root_size := size_loop F d path dps (root_size st), fds := fds st + length (subdirs dps),
      printed := printed st @ concat (List.map (\<lambda>dp. buffer st @ [size_line F d path dp]) (subdirs dps))\<rparr>)"
  using assms
proof (induction dps arbitrary: st)
  case (Cons dp dps)
  have all: "\<forall>dp \<in> set dps. \<not> dot_entry dp \<longrightarrow> (d_type dp = DT_DIR \<longleftrightarrow> is_dir F (path_of path dp))"
    "\<forall>dp \<in> set dps. fork_ok (path_of path dp)"
    using Cons.prems(1,2) by simp_all
  note same = Cons.prems(3) [OF list.set_intros(2)]
  consider (dot) "dot_entry dp" | (dir) "\<not> dot_entry dp" "d_type dp = DT_DIR" "is_dir F (path_of path dp)"
    | (other) "\<not> dot_entry dp" "d_type dp \<noteq> DT_DIR" "\<not> is_dir F (path_of path dp)"
    using Cons.prems(1) by auto
  then show ?case
  proof cases
    case dot
    then show ?thesis
      using Cons.IH [OF all same] Cons.prems(4,5) by simp
  next
    case other
    then show ?thesis
      using Cons.IH [OF all same, of "st\<lparr>root_size := root_size st + findSizeOfFile F (path_of path dp)\<rparr>"] Cons.prems(4,5)
      by simp
  next
    case dir
    have "findSizeOfDirectory F (limit - (fds st + 2)) (path_of path dp) = findSizeOfDirectory F d (path_of path dp)"
      using dir Cons.prems(4) by (intro Cons.prems(3)) auto
    moreover have "print_loop F fork_ok limit tty path (dp # dps) st = print_loop F fork_ok limit tty path dps
      (st\<lparr>printed := printed st @ buffer st @ [size_line F (limit - (fds st + 2)) path dp], fds := fds st + 1,
        root_size := root_size st + findSizeOfDirectory F (limit - (fds st + 2)) (path_of path dp)\<rparr>)"
      using dir Cons.prems(2,4,5) by (intro print_loop_child) auto
    moreover let ?st = "st\<lparr>printed := printed st @ buffer st @ [size_line F d path dp], fds := fds st + 1,
      root_size := root_size st + findSizeOfDirectory F d (path_of path dp)\<rparr>"
    have "print_loop F fork_ok limit tty path dps ?st = (True, ?st\<lparr>root_size := size_loop F d path dps (root_size ?st),
      fds := fds ?st + length (subdirs dps),
      printed := printed ?st @ concat (List.map (\<lambda>dp. buffer ?st @ [size_line F d path dp]) (subdirs dps))\<rparr>)"
      using Cons.prems(4,5) dir by (intro Cons.IH all same) auto
    ultimately show ?thesis
      using dir by (simp add: size_line_def)
  qed
qed simp

text \<open>Every pipe leaves its read end open in the parent.\<close>

lemma print_loop_leaks:
  assumes "\<forall>dp \<in> set dps. fork_ok (path_of path dp)"
    and "fds st < limit" "limit < fds st + length (subdirs dps) + 1" "buffer st = []"
  shows "\<exists>st'. print_loop F fork_ok limit tty path dps st = (False, st') \<and> buffer st' = []
    \<and> printed st' = printed st @ size_lines F limit path (fds st + 2) (take (limit - fds st - 1) (subdirs dps))"
  using assms
proof (induction dps arbitrary: st)
  case (Cons dp dps)
  show ?case
  proof (cases "\<not> dot_entry dp \<and> d_type dp = DT_DIR")
    case False
    then show ?thesis
      using Cons.IH [of st] Cons.IH [of "st\<lparr>root_size := root_size st + findSizeOfFile F (path_of path dp)\<rparr>"]
        Cons.prems by auto
  next
    case dir: True
    show ?thesis
    proof (cases "limit < fds st + 2")
      case True
      then show ?thesis
        using dir Cons.prems(2,4) by (simp add: Let_def)
    next
      case False
      let ?st = "st\<lparr>printed := printed st @ buffer st @ [size_line F (limit - (fds st + 2)) path dp], fds := fds st + 1,
        root_size := root_size st + findSizeOfDirectory F (limit - (fds st + 2)) (path_of path dp)\<rparr>"
      have "print_loop F fork_ok limit tty path (dp # dps) st = print_loop F fork_ok limit tty path dps ?st"
        using dir False Cons.prems(1,4) by (intro print_loop_child) auto
      moreover obtain st' where "print_loop F fork_ok limit tty path dps ?st = (False, st')" "buffer st' = []"
        "printed st' = printed ?st @ size_lines F limit path (fds ?st + 2) (take (limit - fds ?st - 1) (subdirs dps))"
        using Cons.IH [of ?st] Cons.prems dir False by auto
      moreover have "limit - fds st - 1 = Suc (limit - fds ?st - 1)"
        using False by simp
      ultimately show ?thesis
        using dir Cons.prems(4) by simp
    qed
  qed
qed simp

text \<open>The child that gets the last descriptors cannot open its directory.\<close>

lemma size_lines_last:
  "length dps = Suc m \<Longrightarrow> limit \<le> n + m \<Longrightarrow> \<exists>ls. size_lines F limit path n dps = ls @ [Size (d_name (last dps)) 0]"
proof (induction dps arbitrary: n m)
  case (Cons dp dps)
  show ?case
  proof (cases dps)
    case Nil
    then show ?thesis
      using Cons.prems by (simp add: size_line_def findSizeOfDirectory.simps)
  next
    case (Cons dp' dps')
    then have "length dps = Suc (m - 1)" "limit \<le> Suc n + (m - 1)"
      using Cons.prems by simp_all
    from Cons.IH [OF this] Cons show ?thesis
      by auto
  qed
qed simp

section \<open>An example\<close>

definition example_dir :: node where
  "example_dir = Dir [(''a'', File 5), (''b'', Dir [(''c'', File 7)]), (''d'', Locked)]"

definition example_fs :: file_tree where
  "example_fs =
     \<lparr>entries = (\<lambda>path.
        if path = ''r'' then Some [\<lparr>d_name = ''.'', d_type = 4\<rparr>, \<lparr>d_name = ''a'', d_type = 8\<rparr>,
          \<lparr>d_name = ''b'', d_type = 4\<rparr>, \<lparr>d_name = ''d'', d_type = 4\<rparr>]
        else if path = ''r/b'' then Some [\<lparr>d_name = ''c'', d_type = 8\<rparr>] else None),
      status = (\<lambda>path. if path = ''r/a'' then \<lparr>st_mode = 0x8000, st_size = 5\<rparr>
        else if path = ''r/b/c'' then \<lparr>st_mode = 0x8000, st_size = 7\<rparr> else \<lparr>st_mode = 0x4000, st_size = 4096\<rparr>),
      found = (\<lambda>path. True), contents = (\<lambda>path. None)\<rparr>"

lemma example_tree: "tree_at example_fs ''r'' example_dir" "is_dir example_fs ''r''" "node_size example_dir = 12"
  by (simp_all add: example_fs_def example_dir_def is_dir_def S_IFMT_def S_IFDIR_def dot_entry_def)

definition example_dps :: "dirent list" where
  "example_dps = [\<lparr>d_name = ''.'', d_type = 4\<rparr>, \<lparr>d_name = ''a'', d_type = 8\<rparr>, \<lparr>d_name = ''b'', d_type = 4\<rparr>,
     \<lparr>d_name = ''d'', d_type = 4\<rparr>]"

lemma example_dps:
  "entries example_fs ''r'' = Some example_dps"
  "subdirs example_dps = [\<lparr>d_name = ''b'', d_type = 4\<rparr>, \<lparr>d_name = ''d'', d_type = 4\<rparr>]"
  by (simp_all add: example_fs_def example_dps_def dot_entry_def DT_DIR_def)

lemma example_sizes:
  assumes "2 \<le> free"
  shows "List.map (size_line example_fs free ''r'') (subdirs example_dps) = [Size ''b'' 7, Size ''d'' 0]"
proof -
  have "tree_at example_fs ''r/b'' (Dir [(''c'', File 7)])" "tree_at example_fs ''r/d'' Locked"
    using example_tree(1) by (simp_all add: example_dir_def)
  moreover have "is_dir example_fs ''r/b''" "is_dir example_fs ''r/d''"
    by (simp_all add: example_fs_def is_dir_def S_IFMT_def S_IFDIR_def)
  ultimately have "findSizeOfDirectory example_fs free ''r/b'' = node_size (Dir [(''c'', File 7)])"
    "findSizeOfDirectory example_fs free ''r/d'' = node_size Locked"
    using assms by (intro find_size_tree; simp)+
  then show ?thesis
    by (simp add: size_line_def path_of_def example_dps(2))
qed

section \<open>Properties\<close>

text \<open>
  C32: The program with a process for each sub-directory against the sequential function and against
  the tree of files. On a finite tree \<open>findSizeOfDirectory\<close> returns the sum of the sizes of its files
  (in 64 bits), in a process with at least as many free descriptors as directories lie in one another.
  And the program prints every sub-directory with the value of the sequential function for it, in
  the order of \<open>readdir\<close>, and behind them the name of the directory with that sum. (The samples of
  the assignment have the directory first.) The conditions: the types \<open>readdir\<close> gives are those of
  \<open>stat\<close>, every \<open>fork\<close> succeeds, and there are descriptors enough for the read ends of the pipes, all
  of which stay open, and for the last child to go down its sub-directory.
\<close>

theorem processes_compute_directory_size:
  assumes "entries F path = Some dps" "path \<noteq> []"
    and "\<forall>dp \<in> set dps. \<not> dot_entry dp \<longrightarrow> (d_type dp = DT_DIR \<longleftrightarrow> is_dir F (path_of path dp))"
    and "\<forall>dp \<in> set dps. fork_ok (path_of path dp)" "length (subdirs dps) + 4 + levels t \<le> limit"
    and "tree_at F path t" "is_dir F path" "levels t \<le> free"
  shows "findSizeOfDirectory F free path = node_size t \<and> (\<exists>name. dirName path = Returns name
    \<and> size_main F fork_ok limit tty [prog, path] =
        Returns (True, List.map (size_line F free path) (subdirs dps) @ [Size name (node_size t)]))"
proof -
  obtain name where name: "dirName path = Returns name"
    using dirName_returns [OF assms(2)] by blast
  have levels: "levels t = Suc (levels t - 1)"
    using assms(1,6) by (cases t) auto
  let ?st = "\<lparr>root_size = 0, fds = 4, printed = [], buffer = []\<rparr>" and ?d = "levels t - 1"
  have "findSizeOfDirectory F (levels t) path = node_size t"
    by (rule find_size_tree [OF assms(6,7)]) simp
  then have sum: "size_loop F ?d path dps 0 = node_size t"
    using assms(1) levels by (simp add: findSizeOfDirectory.simps)
  have same: "findSizeOfDirectory F m (path_of path dp) = findSizeOfDirectory F ?d (path_of path dp)"
    if "dp \<in> set dps" "\<not> dot_entry dp" "is_dir F (path_of path dp)" "?d \<le> m" for dp m
    by (rule find_size_subtree [OF assms(6,1) that])
  have "print_loop F fork_ok limit tty path dps ?st = (True,
      ?st\<lparr>root_size := size_loop F ?d path dps (root_size ?st), fds := fds ?st + length (subdirs dps),
        printed := printed ?st @ concat (List.map (\<lambda>dp. buffer ?st @ [size_line F ?d path dp]) (subdirs dps))\<rparr>)"
    using assms(5) levels by (intro print_loop_sizes assms(3,4) same) simp_all
  moreover have "List.map (size_line F ?d path) (subdirs dps) = List.map (size_line F free path) (subdirs dps)"
    using assms(3,8) by (auto simp: subdirs_def size_line_def same [of _ free])
  ultimately show ?thesis
    using assms(1,5) name sum levels find_size_tree [OF assms(6-8)]
    by (simp add: size_main_def printSizes_def print_line_def flush_def Let_def concat_map_singleton)
qed

theorem processes_compute_directory_size_witness:
  "size_main example_fs (\<lambda>p. True) 8 False [''printSizes'', ''r''] =
     Returns (True, [Size ''b'' 7, Size ''d'' 0, Size ''r'' 12])"
proof -
  have "\<forall>dp \<in> set example_dps. \<not> dot_entry dp \<longrightarrow> (d_type dp = DT_DIR \<longleftrightarrow> is_dir example_fs (path_of ''r'' dp))"
    by (simp add: example_fs_def is_dir_def S_IFMT_def S_IFDIR_def dot_entry_def path_of_def DT_DIR_def example_dps_def)
  moreover have "levels example_dir = 2"
    by (simp add: example_dir_def)
  ultimately show ?thesis
    using processes_compute_directory_size [of example_fs "''r''" example_dps "\<lambda>p. True" example_dir 8 2 False "''printSizes''"]
      example_tree example_dps example_sizes [of 2] dirName_name(1) [of "''r''"] by simp
qed

text \<open>
  C33: The read end of every pipe stays open in the parent, and the children inherit them. When there
  are more sub-directories than descriptors beyond the first five, \<open>pipe\<close> fails for one of them, and
  the program stops there: it has printed a line for each sub-directory before, and never prints the
  size of the directory. The child of number \<open>i\<close>, from 0, computes its line with \<open>6 + i\<close> descriptors in
  use; the last of them has none left, so its \<open>opendir\<close> fails, and it prints the size 0 whatever is in
  its sub-directory. (Every \<open>fork\<close> succeeds.)
\<close>

theorem pipes_run_out:
  assumes "entries F path = Some dps" "\<forall>dp \<in> set dps. fork_ok (path_of path dp)"
    and "4 < limit" "limit < length (subdirs dps) + 5"
  shows "size_main F fork_ok limit tty [prog, path] =
      Returns (False, size_lines F limit path 6 (take (limit - 5) (subdirs dps)))
    \<and> (limit = 5 \<or> (\<exists>ls. size_lines F limit path 6 (take (limit - 5) (subdirs dps)) =
        ls @ [Size (d_name (subdirs dps ! (limit - 6))) 0]))"
proof -
  let ?st = "\<lparr>root_size = 0, fds = 4, printed = [], buffer = []\<rparr>" and ?subs = "take (limit - 5) (subdirs dps)"
  have "\<exists>st'. print_loop F fork_ok limit tty path dps ?st = (False, st') \<and> buffer st' = []
    \<and> printed st' = printed ?st @ size_lines F limit path (fds ?st + 2) (take (limit - fds ?st - 1) (subdirs dps))"
    using assms(3,4) by (intro print_loop_leaks assms(2)) auto
  then obtain st' where "print_loop F fork_ok limit tty path dps ?st = (False, st')" "buffer st' = []"
    "printed st' = size_lines F limit path 6 ?subs"
    by auto
  moreover have "\<exists>ls. size_lines F limit path 6 ?subs = ls @ [Size (d_name (subdirs dps ! (limit - 6))) 0]"
    if "limit \<noteq> 5"
  proof -
    have "length ?subs = Suc (limit - 6)" "limit \<le> 6 + (limit - 6)"
      using that assms(3,4) by simp_all
    moreover from this(1) have "last ?subs = subdirs dps ! (limit - 6)"
      by (subst last_conv_nth) auto
    ultimately show ?thesis
      using size_lines_last [of ?subs "limit - 6" limit 6 F path] by simp
  qed
  ultimately show ?thesis
    using assms(1,3) by (auto simp: size_main_def printSizes_def flush_def Let_def)
qed

theorem pipes_run_out_witness:
  "size_main example_fs (\<lambda>p. True) 6 False [''printSizes'', ''r''] = Returns (False, [Size ''b'' 0])
    \<and> findSizeOfDirectory example_fs 2 ''r/b'' = 7"
  using pipes_run_out [of example_fs "''r''" example_dps "\<lambda>p. True" 6 False "''printSizes''"] example_dps
    example_sizes [of 2] by (simp add: size_line_def path_of_def findSizeOfDirectory.simps)

end
