(* ===== verification/Grep.thy ===== *)
theory Grep
  imports Dir_Tree
begin

text \<open>
  \<open>Assignment1/Part_1\<close>: the lines of a file, or of all files below a directory, that have a given
  text in them.
\<close>

section \<open>The code\<close>

subsection \<open>Strings\<close>

text \<open>The string at the beginning of a buffer, and the test \<open>strstr(s, key) != NULL\<close>.\<close>

definition c_string :: "u8 list \<Rightarrow> u8 list" where
  "c_string bs = takeWhile (\<lambda>b. b \<noteq> 0) bs"

fun prefixed :: "u8 list \<Rightarrow> u8 list \<Rightarrow> bool" where
  "prefixed [] s = True"
| "prefixed (k # ks) [] = False"
| "prefixed (k # ks) (b # s) = (k = b \<and> prefixed ks s)"

fun strstr :: "u8 list \<Rightarrow> u8 list \<Rightarrow> bool" where
  "strstr [] key = prefixed key []"
| "strstr (b # s) key = (prefixed key (b # s) \<or> strstr s key)"

subsection \<open>The lines of a file\<close>

definition newline :: u8 where "newline = 10"

definition store_byte :: "nat \<Rightarrow> u8 \<Rightarrow> u8 list \<Rightarrow> u8 list run" where
  "store_byte i b rb = (if i < length rb then Returns (rb[i := b]) else Faults)"

text \<open>The loop body behind \<open>read\<close>; \<open>out\<close> has the lines printed.\<close>

definition line_step ::
  "u8 list \<Rightarrow> u8 \<Rightarrow> u8 list \<Rightarrow> nat \<Rightarrow> u8 list list \<Rightarrow> (u8 list \<times> nat \<times> u8 list list) run" where
  "line_step key t rb k out =
     run_bind (store_byte k t rb) (\<lambda>rb.
       let k = k + 1 in
       if t = newline then
         run_bind (store_byte k 0 rb) (\<lambda>rb.
           Returns (rb, 0, if strstr (c_string rb) key then out @ [c_string rb] else out))
       else Returns (rb, k, out))"

text \<open>
  The loop: \<open>rest\<close> are the bytes not yet read, or \<^const>\<open>None\<close> when the file was not opened and
  \<open>read\<close> returns -1. At the end of the file, and after an error, \<open>t\<close> is still the last byte.
\<close>

partial_function (option) line_loop ::
  "u8 list \<Rightarrow> u8 list option \<Rightarrow> u8 \<Rightarrow> u8 list \<Rightarrow> nat \<Rightarrow> u8 list list \<Rightarrow> u8 list list run option" where
  "line_loop key rest t rb k out =
     (if rest = Some [] then Some (run_bind (line_step key t rb k out) (\<lambda>(rb, k, out). Returns out))
      else
        (let t = (case rest of Some (b # bs) \<Rightarrow> b | _ \<Rightarrow> t);
             rest = map_option tl rest in
         case line_step key t rb k out of
           Returns (rb, k, out) \<Rightarrow> line_loop key rest t rb k out
         | Hangs \<Rightarrow> Some Hangs
         | Faults \<Rightarrow> Some Faults))"

text \<open>
  \<open>myGrep\<close> and \<open>singMyGrep\<close> up to what they print in front of a line. \<open>junk\<close> is what is found in
  new memory, and in \<open>t\<close> before the first byte is read. A negative size is no size of a buffer.
\<close>

definition buffer_size :: "i64 \<Rightarrow> nat" where
  "buffer_size n = nat (sint (ucast n :: i32))"

definition run_of :: "'a run option \<Rightarrow> 'a run" where
  "run_of r = (case r of None \<Rightarrow> Hangs | Some r \<Rightarrow> r)"

definition file_lines :: "file_tree \<Rightarrow> (nat \<Rightarrow> u8) \<Rightarrow> u8 list \<Rightarrow> string \<Rightarrow> u8 list list run" where
  "file_lines F junk key path =
     run_of (line_loop key (contents F path) (junk 0)
       (List.map junk [0..<buffer_size (st_size (status F path))]) 0 [])"

datatype grep_line = Not_Valid_Number | In_File string "u8 list" | Line "u8 list"

definition myGrep :: "file_tree \<Rightarrow> (nat \<Rightarrow> u8) \<Rightarrow> u8 list \<Rightarrow> string \<Rightarrow> grep_line list run" where
  "myGrep F junk key path = run_bind (file_lines F junk key path) (\<lambda>ls. Returns (List.map (In_File path) ls))"

definition singMyGrep :: "file_tree \<Rightarrow> (nat \<Rightarrow> u8) \<Rightarrow> u8 list \<Rightarrow> string \<Rightarrow> grep_line list run" where
  "singMyGrep F junk key path = run_bind (file_lines F junk key path) (\<lambda>ls. Returns (List.map Line ls))"

subsection \<open>Directories\<close>

text \<open>
  The loop of \<open>recMyGrep\<close>. It calls itself for every entry; for one that is no directory, \<open>opendir\<close>
  fails. The number of descriptors, one for each directory on the way down and one for a file, is
  not bounded.
\<close>

partial_function (option) grep_loop ::
  "file_tree \<Rightarrow> (nat \<Rightarrow> u8) \<Rightarrow> u8 list \<Rightarrow> string \<Rightarrow> dirent list \<Rightarrow> grep_line list run option" where
  "grep_loop F junk key path dps =
     (case dps of
        [] \<Rightarrow> Some (Returns [])
      | dp # dps' \<Rightarrow>
          if dot_entry dp then grep_loop F junk key path dps'
          else
            (let path2 = path_of path dp in
             case (if d_type dp = DT_REG then myGrep F junk key path2 else Returns []) of
               Returns out \<Rightarrow>
                 Option.bind (case entries F path2 of
                     None \<Rightarrow> Some (Returns []) | Some dps2 \<Rightarrow> grep_loop F junk key path2 dps2) (\<lambda>r.
                   case r of
                     Returns out2 \<Rightarrow> Option.bind (grep_loop F junk key path dps') (\<lambda>r3.
                       Some (run_bind r3 (\<lambda>out3. Returns (out @ out2 @ out3))))
                   | Hangs \<Rightarrow> Some Hangs
                   | Faults \<Rightarrow> Some Faults)
             | Hangs \<Rightarrow> Some Hangs
             | Faults \<Rightarrow> Some Faults))"

definition recMyGrep :: "file_tree \<Rightarrow> (nat \<Rightarrow> u8) \<Rightarrow> u8 list \<Rightarrow> string \<Rightarrow> grep_line list run" where
  "recMyGrep F junk key path =
     (case entries F path of None \<Rightarrow> Returns [] | Some dps \<Rightarrow> run_of (grep_loop F junk key path dps))"

text \<open>\<open>main\<close>: the exit code and the lines printed.\<close>

definition grep_main :: "file_tree \<Rightarrow> (nat \<Rightarrow> u8) \<Rightarrow> string list \<Rightarrow> (i32 \<times> grep_line list) run" where
  "grep_main F junk argv =
     (if length argv \<noteq> 3 then Returns (- 1, [Not_Valid_Number])
      else
        (let key = List.map of_char (argv ! 1) in
         run_bind (strip_slash (argv ! 2)) (\<lambda>path.
           if \<not> found F path then Returns (- 1, [])
           else
             run_bind (if st_mode (status F path) AND S_IFMT = S_IFREG then singMyGrep F junk key path
                       else recMyGrep F junk key path) (\<lambda>out. Returns (0, out)))))"

section \<open>The loop over a file\<close>

lemma line_loop_end:
  "line_loop key (Some []) t rb k out = Some (run_bind (line_step key t rb k out) (\<lambda>(rb, k, out). Returns out))"
  by (subst line_loop.simps) simp

lemma line_loop_byte:
  "line_step key b rb k out = Returns (rb', k', out') \<Longrightarrow>
    line_loop key (Some (b # bs)) t rb k out = line_loop key (Some bs) b rb' k' out'"
  "line_step key b rb k out = Faults \<Longrightarrow> line_loop key (Some (b # bs)) t rb k out = Some Faults"
  by (subst line_loop.simps, simp)+

lemma step_byte:
  "b \<noteq> newline \<Longrightarrow> k < length rb \<Longrightarrow> line_step key b rb k out = Returns (rb[k := b], k + 1, out)"
  by (simp add: line_step_def store_byte_def)

lemma c_string_line: "c_string (pre @ b # 0 # post) = c_string (pre @ [b])"
  by (induction pre) (simp_all add: c_string_def)

lemma step_newline:
  assumes "Suc k < length rb" "take k rb = pre"
  shows "\<exists>rb'. length rb' = length rb \<and> line_step key newline rb k out = Returns (rb', 0,
    if strstr (c_string (pre @ [newline])) key then out @ [c_string (pre @ [newline])] else out)"
proof -
  let ?rb = "rb[k := newline, Suc k := 0]"
  have "take (Suc (Suc k)) ?rb = pre @ [newline, 0]"
    using assms by (simp add: take_Suc_conv_app_nth)
  then have "?rb = pre @ newline # 0 # drop (Suc (Suc k)) ?rb"
    using append_take_drop_id [of "Suc (Suc k)" ?rb] by simp
  then have "c_string ?rb = c_string (pre @ [newline])"
    by (metis c_string_line)
  then show ?thesis
    using assms(1) by (intro exI [of _ ?rb]) (simp add: line_step_def store_byte_def)
qed

lemma loop_part:
  assumes "newline \<notin> set part" "k + length part \<le> length rb"
  shows "\<exists>rb'. length rb' = length rb \<and> take (k + length part) rb' = take k rb @ part
    \<and> line_loop key (Some (part @ bs)) t rb k out = line_loop key (Some bs) (last (t # part)) rb' (k + length part) out"
  using assms
proof (induction part arbitrary: t rb k)
  case (Cons b part)
  have "take (Suc k) (rb[k := b]) = take k rb @ [b]"
    using Cons.prems(2) by (simp add: take_Suc_conv_app_nth)
  moreover have "line_step key b rb k out = Returns (rb[k := b], Suc k, out)"
    using Cons.prems step_byte [of b k rb key out] by auto
  moreover have "newline \<notin> set part" "Suc k + length part \<le> length (rb[k := b])"
    using Cons.prems by simp_all
  from Cons.IH [OF this, of b] obtain rb' where
    "length rb' = length rb" "take (Suc k + length part) rb' = take (Suc k) (rb[k := b]) @ part"
    "line_loop key (Some (part @ bs)) b (rb[k := b]) (Suc k) out
      = line_loop key (Some bs) (last (b # part)) rb' (Suc k + length part) out"
    by auto
  ultimately show ?case
    using line_loop_byte(1) [of key b rb k out "rb[k := b]" "Suc k" out "part @ bs" t]
    by (intro exI [of _ rb']) simp
qed auto

definition is_line :: "u8 list \<Rightarrow> bool" where
  "is_line l \<longleftrightarrow> (\<exists>body. l = body @ [newline] \<and> newline \<notin> set body)"

definition hits :: "u8 list \<Rightarrow> u8 list list \<Rightarrow> u8 list list" where
  "hits key ls = List.map c_string (filter (\<lambda>l. strstr (c_string l) key) ls)"

lemma loop_line:
  assumes "is_line l" "length l < length rb"
  shows "\<exists>rb'. length rb' = length rb \<and> line_loop key (Some (l @ bs)) t rb 0 out
    = line_loop key (Some bs) newline rb' 0 (out @ hits key [l])"
proof -
  obtain body where l: "l = body @ [newline]" "newline \<notin> set body"
    using assms(1) unfolding is_line_def by blast
  have "0 + length body \<le> length rb"
    using assms(2) l(1) by simp
  from loop_part [OF l(2) this, of key "newline # bs" t out] obtain rb1 where
    rb1: "length rb1 = length rb" "take (length body) rb1 = body"
      "line_loop key (Some (l @ bs)) t rb 0 out
        = line_loop key (Some (newline # bs)) (last (t # body)) rb1 (length body) out"
    using l(1) by auto
  have "Suc (length body) < length rb1"
    using assms(2) l(1) rb1(1) by simp
  from step_newline [OF this rb1(2), of key out] obtain rb' where
    "length rb' = length rb1" "line_step key newline rb1 (length body) out = Returns (rb', 0,
      if strstr (c_string l) key then out @ [c_string l] else out)"
    unfolding l(1) by blast
  then show ?thesis
    using rb1 line_loop_byte(1) [of key newline rb1 "length body" out rb' 0 _ bs "last (t # body)"]
    by (intro exI [of _ rb']) (simp add: hits_def)
qed

lemma loop_lines:
  assumes "\<forall>l \<in> set ls. is_line l \<and> length l < length rb"
  shows "\<exists>rb'. length rb' = length rb \<and> line_loop key (Some (concat ls @ bs)) t rb 0 out
    = line_loop key (Some bs) (if ls = [] then t else newline) rb' 0 (out @ hits key ls)"
  using assms
proof (induction ls arbitrary: t rb out)
  case Nil
  then show ?case
    by (auto simp: hits_def)
next
  case (Cons l ls)
  obtain rb1 where rb1: "length rb1 = length rb" "line_loop key (Some (l @ concat ls @ bs)) t rb 0 out
    = line_loop key (Some (concat ls @ bs)) newline rb1 0 (out @ hits key [l])"
    using loop_line [of l rb key "concat ls @ bs" t out] Cons.prems by auto
  from Cons.IH [of rb1 newline "out @ hits key [l]"] Cons.prems rb1(1) obtain rb' where
    "length rb' = length rb1" "line_loop key (Some (concat ls @ bs)) newline rb1 0 (out @ hits key [l])
      = line_loop key (Some bs) newline rb' 0 ((out @ hits key [l]) @ hits key ls)"
    by auto
  then show ?case
    using rb1 by (intro exI [of _ rb']) (simp add: hits_def)
qed

section \<open>A whole file\<close>

definition size_known :: "file_tree \<Rightarrow> string \<Rightarrow> nat \<Rightarrow> bool" where
  "size_known F path n \<longleftrightarrow> n < 2 ^ 31 \<and> st_size (status F path) = of_nat n"

lemma buffer_size_known: "size_known F path n \<Longrightarrow> buffer_size (st_size (status F path)) = n"
proof -
  assume "size_known F path n"
  then have n: "n < 2 ^ 31" "st_size (status F path) = of_nat n"
    unfolding size_known_def by blast+
  have "(ucast (of_nat n :: i64) :: i32) = of_nat n"
    by (simp add: word_unat_eq_iff unsigned_ucast_eq unsigned_of_nat take_bit_take_bit)
  moreover have "sint (of_nat n :: i32) = int n"
    using n(1) sint_of_int [of "int n"] by simp
  ultimately show ?thesis
    by (simp add: buffer_size_def n(2))
qed

lemma file_lines_hits:
  assumes "contents F path = Some (concat ls @ rest)" "\<forall>l \<in> set ls. is_line l" "newline \<notin> set rest"
    and "size_known F path (length (concat ls @ rest))"
    and "ls \<noteq> []" "\<forall>l \<in> set ls. length l < length (concat ls @ rest)"
  shows "file_lines F junk key path = Returns (hits key ls @ (if rest = [] then hits key [[newline]] else []))"
proof -
  let ?n = "length (concat ls @ rest)" and ?rb = "List.map junk [0..<length (concat ls @ rest)]"
  have "\<forall>l \<in> set ls. is_line l \<and> length l < length ?rb"
    using assms(2,6) by simp
  from loop_lines [OF this, of key rest "junk 0" "[]"] assms(5) obtain rb where rb: "length rb = ?n"
    "line_loop key (Some (concat ls @ rest)) (junk 0) ?rb 0 [] = line_loop key (Some rest) newline rb 0 (hits key ls)"
    by auto
  have lines: "file_lines F junk key path = run_of (line_loop key (Some rest) newline rb 0 (hits key ls))"
    using assms(1) rb(2) buffer_size_known [OF assms(4)] by (simp add: file_lines_def)
  show ?thesis
  proof (cases "rest = []")
    case True
    obtain l ls' where "ls = l # ls'"
      using assms(5) by (cases ls) simp_all
    then have "Suc 0 < length rb"
      using assms(2,6) rb(1) by (force simp: is_line_def)
    from step_newline [OF this, of "[]" key "hits key ls"] show ?thesis
      using True by (auto simp: lines line_loop_end run_of_def hits_def)
  next
    case False
    have "length rest < ?n"
      using assms(2,5) by (cases ls) (auto simp: is_line_def)
    moreover have "0 + length rest \<le> length rb"
      using rb(1) by simp
    from loop_part [OF assms(3) this, of key "[]" newline "hits key ls"] obtain rb' where
      "length rb' = length rb" "line_loop key (Some rest) newline rb 0 (hits key ls)
        = line_loop key (Some []) (last (newline # rest)) rb' (length rest) (hits key ls)"
      by auto
    moreover have "last (newline # rest) \<noteq> newline"
      using False assms(3) last_in_set [OF False] by (metis last_ConsR)
    ultimately show ?thesis
      using False rb(1) by (simp add: lines line_loop_end run_of_def step_byte)
  qed
qed

lemma file_lines_overrun:
  assumes "contents F path = Some bs" "size_known F path (length bs)"
    and "bs = body \<or> bs = body @ [newline]" "newline \<notin> set body"
  shows "file_lines F junk key path = Faults"
proof -
  let ?rb = "List.map junk [0..<length bs]"
  obtain end_part where bs: "bs = body @ end_part" "end_part = [] \<or> end_part = [newline]"
    using assms(3) by auto
  have "0 + length body \<le> length ?rb"
    by (simp add: bs(1))
  from loop_part [OF assms(4) this, of key end_part "junk 0" "[]"] obtain rb where rb: "length rb = length bs"
    "line_loop key (Some bs) (junk 0) ?rb 0 [] = line_loop key (Some end_part) (last (junk 0 # body)) rb (length body) []"
    unfolding bs(1) by auto
  have "line_loop key (Some end_part) (last (junk 0 # body)) rb (length body) [] = Some Faults"
    using bs rb(1) by (auto simp: line_loop_end line_loop_byte(2) line_step_def store_byte_def)
  then show ?thesis
    using assms(1) rb(2) buffer_size_known [OF assms(2)] by (simp add: file_lines_def run_of_def)
qed

text \<open>A file that is not opened is read for ever, or until the buffer is full.\<close>

lemma line_loop_unopened:
  "line_loop key None t rb k out = (case line_step key t rb k out of
     Returns (rb, k, out) \<Rightarrow> line_loop key None t rb k out | Hangs \<Rightarrow> Some Hangs | Faults \<Rightarrow> Some Faults)"
  by (subst line_loop.simps) simp

lemma unopened_full: "t \<noteq> newline \<Longrightarrow> k \<le> length rb \<Longrightarrow> line_loop key None t rb k out = Some Faults"
proof (induction "length rb - k" arbitrary: k rb)
  case 0
  then show ?case
    by (subst line_loop_unopened) (simp add: line_step_def store_byte_def)
next
  case (Suc n)
  then show ?case
    using step_byte [of t k rb key out] by (subst line_loop_unopened) simp
qed

lemma unopened_endless:
  assumes "line_loop key None newline rb 0 out = Some r" "Suc 0 < length rb"
  shows False
proof -
  have "rest = None \<longrightarrow> t = newline \<longrightarrow> k = 0 \<longrightarrow> Suc 0 < length rb \<longrightarrow> False"
    if "line_loop key rest t rb k out = Some r" for rest t rb k out
  proof (rule line_loop.raw_induct [where P = "\<lambda>key rest t rb k out r.
      rest = None \<longrightarrow> t = newline \<longrightarrow> k = 0 \<longrightarrow> Suc 0 < length rb \<longrightarrow> False", OF _ that])
    fix loop key rest t rb k out r
    assume IH: "\<And>key rest t rb k out r. loop key rest t rb k out = Some r \<Longrightarrow>
        rest = None \<longrightarrow> t = newline \<longrightarrow> k = 0 \<longrightarrow> Suc 0 < length rb \<longrightarrow> False"
      and eq: "(if rest = Some [] then Some (run_bind (line_step key t rb k out) (\<lambda>(rb, k, out). Returns out))
        else let t = (case rest of Some (b # bs) \<Rightarrow> b | _ \<Rightarrow> t); rest = map_option tl rest in
          case line_step key t rb k out of
            Returns (rb, k, out) \<Rightarrow> loop key rest t rb k out
          | Hangs \<Rightarrow> Some Hangs | Faults \<Rightarrow> Some Faults) = Some r"
    show "rest = None \<longrightarrow> t = newline \<longrightarrow> k = 0 \<longrightarrow> Suc 0 < length rb \<longrightarrow> False"
    proof (intro impI)
      assume *: "rest = None" "t = newline" "k = 0" "Suc 0 < length rb"
      from step_newline [OF *(4), of "[]" key out] obtain rb' out' where
        "length rb' = length rb" "line_step key newline rb 0 out = Returns (rb', 0, out')"
        by auto
      then show False
        using eq IH [of key None newline rb' 0 out' r] * by simp
    qed
  qed
  then show False
    using assms by blast
qed

section \<open>A tree of files\<close>

fun files_of :: "string \<Rightarrow> node \<Rightarrow> string list" where
  "files_of path (File n) = [path]"
| "files_of path Locked = []"
| "files_of path (Dir es) = concat (List.map (\<lambda>(name, t). files_of (path @ ''/'' @ name) t) es)"

definition in_files :: "(string \<Rightarrow> u8 list list) \<Rightarrow> string list \<Rightarrow> grep_line list" where
  "in_files G ps = concat (List.map (\<lambda>p. List.map (In_File p) (G p)) ps)"

lemma in_files_simps [simp]:
  "in_files G [] = []" "in_files G (ps @ qs) = in_files G ps @ in_files G qs"
  "in_files G (p # ps) = List.map (In_File p) (G p) @ in_files G ps"
  by (simp_all add: in_files_def)

definition below :: "file_tree \<Rightarrow> (nat \<Rightarrow> u8) \<Rightarrow> u8 list \<Rightarrow> string \<Rightarrow> grep_line list run option" where
  "below F junk key path =
     (case entries F path of None \<Rightarrow> Some (Returns []) | Some dps \<Rightarrow> grep_loop F junk key path dps)"

lemma grep_loop_simps:
  "grep_loop F junk key path [] = Some (Returns [])"
  "dot_entry dp \<Longrightarrow> grep_loop F junk key path (dp # dps) = grep_loop F junk key path dps"
  "\<not> dot_entry dp \<Longrightarrow> (if d_type dp = DT_REG then myGrep F junk key (path_of path dp) else Returns []) = Returns out \<Longrightarrow>
    below F junk key (path_of path dp) = Some (Returns out2) \<Longrightarrow> grep_loop F junk key path dps = Some (Returns out3) \<Longrightarrow>
    grep_loop F junk key path (dp # dps) = Some (Returns (out @ out2 @ out3))"
  unfolding below_def by (subst grep_loop.simps; simp add: Let_def)+

definition regular_types :: "file_tree \<Rightarrow> bool" where
  "regular_types F \<longleftrightarrow> (\<forall>path dps. entries F path = Some dps \<longrightarrow>
     (\<forall>dp \<in> set dps. \<not> dot_entry dp \<longrightarrow> (d_type dp = DT_REG \<longleftrightarrow> \<not> is_dir F (path_of path dp))))"

lemma grep_loop_entries:
  assumes "\<forall>dp \<in> set dps. \<not> dot_entry dp \<longrightarrow> (d_type dp = DT_REG \<longleftrightarrow> \<not> is_dir F (path_of path dp))"
    and "List.map d_name (filter (\<lambda>dp. \<not> dot_entry dp) dps) = List.map fst es"
    and "\<And>name t. (name, t) \<in> set es \<Longrightarrow> tree_at F (path @ ''/'' @ name) t"
    and "\<And>name t. (name, t) \<in> set es \<Longrightarrow> is_dir F (path @ ''/'' @ name) \<Longrightarrow>
      below F junk key (path @ ''/'' @ name) = Some (Returns (in_files G (files_of (path @ ''/'' @ name) t)))"
    and "\<forall>p \<in> set (files_of path (Dir es)). file_lines F junk key p = Returns (G p)"
  shows "grep_loop F junk key path dps = Some (Returns (in_files G (files_of path (Dir es))))"
  using assms
proof (induction dps arbitrary: es)
  case Nil
  then show ?case
    by (simp add: grep_loop_simps)
next
  case (Cons dp dps)
  show ?case
  proof (cases "dot_entry dp")
    case True
    then show ?thesis
      using Cons.IH [of es] Cons.prems by (simp add: grep_loop_simps(2))
  next
    case False
    then obtain t es' where es: "es = (d_name dp, t) # es'"
      "List.map d_name (filter (\<lambda>dp. \<not> dot_entry dp) dps) = List.map fst es'"
      using Cons.prems(2) by (cases es) auto
    let ?path2 = "path @ ''/'' @ d_name dp"
    have path2: "path_of path dp = ?path2"
      by (simp add: path_of_def)
    have tree: "tree_at F ?path2 t" and type: "d_type dp = DT_REG \<longleftrightarrow> \<not> is_dir F ?path2"
      using Cons.prems(1,3) False es(1) path2 by auto
    have rest: "grep_loop F junk key path dps = Some (Returns (in_files G (files_of path (Dir es'))))"
      using Cons.prems es by (intro Cons.IH) auto
    show ?thesis
    proof (cases "is_dir F ?path2")
      case True
      then have "below F junk key ?path2 = Some (Returns (in_files G (files_of ?path2 t)))"
        using Cons.prems(4) es(1) by simp
      then show ?thesis
        using grep_loop_simps(3) [of dp F junk key path "[]", OF False _ _ rest] True type es(1) path2 by simp
    next
      case no_dir: False
      then obtain n where t: "t = File n" "entries F ?path2 = None"
        using tree by (cases t) simp_all
      then have "myGrep F junk key ?path2 = Returns (List.map (In_File ?path2) (G ?path2))"
        using Cons.prems(5) es(1) by (simp add: myGrep_def)
      moreover have "below F junk key ?path2 = Some (Returns [])"
        unfolding below_def t(2) by simp
      ultimately show ?thesis
        using grep_loop_simps(3) [of dp F junk key path, OF False _ _ rest] no_dir type es(1) path2 t(1) by simp
    qed
  qed
qed

lemma below_tree:
  "regular_types F \<Longrightarrow> tree_at F path t \<Longrightarrow> is_dir F path \<Longrightarrow> \<forall>p \<in> set (files_of path t). file_lines F junk key p = Returns (G p) \<Longrightarrow>
    below F junk key path = Some (Returns (in_files G (files_of path t)))"
proof (induction F path t rule: tree_at.induct)
  case (3 F path es)
  then obtain dps where dps: "entries F path = Some dps"
    "List.map d_name (filter (\<lambda>dp. \<not> dot_entry dp) dps) = List.map fst es"
    by auto
  have "grep_loop F junk key path dps = Some (Returns (in_files G (files_of path (Dir es))))"
  proof (rule grep_loop_entries [OF _ dps(2)])
    show "\<forall>dp \<in> set dps. \<not> dot_entry dp \<longrightarrow> (d_type dp = DT_REG \<longleftrightarrow> \<not> is_dir F (path_of path dp))"
      using 3(2) dps(1) unfolding regular_types_def by simp
    show at: "tree_at F (path @ ''/'' @ name) t" if "(name, t) \<in> set es" for name t
      using 3(3) that by auto
    show "below F junk key (path @ ''/'' @ name) = Some (Returns (in_files G (files_of (path @ ''/'' @ name) t)))"
      if "(name, t) \<in> set es" "is_dir F (path @ ''/'' @ name)" for name t
      using 3(1) [OF that(1) refl 3(2) at [OF that(1)] that(2)] 3(5) that(1) by auto
  qed (use 3(5) in blast)
  then show ?case
    using dps(1) by (simp add: below_def)
qed (simp_all add: below_def)

lemma recMyGrep_below: "recMyGrep F junk key path = run_of (below F junk key path)"
  by (simp add: recMyGrep_def below_def run_of_def split: option.splits)

section \<open>What is looked for\<close>

lemma prefixed_iff: "prefixed key s \<longleftrightarrow> (\<exists>post. s = key @ post)"
  by (induction key s rule: prefixed.induct) auto

lemma strstr_iff: "strstr s key \<longleftrightarrow> (\<exists>pre post. s = pre @ key @ post)"
proof (induction s)
  case Nil
  then show ?case
    by (simp add: prefixed_iff)
next
  case (Cons b s)
  have "(\<exists>pre post. b # s = pre @ key @ post) \<longleftrightarrow>
      (\<exists>post. b # s = key @ post) \<or> (\<exists>pre post. s = pre @ key @ post)"
    by (metis append_Cons append_Nil list.inject neq_Nil_conv)
  then show ?case
    using Cons by (simp add: prefixed_iff)
qed

text \<open>The lines of a file that have the key in them, as strings.\<close>

definition matching :: "u8 list \<Rightarrow> u8 list list \<Rightarrow> u8 list list" where
  "matching key ls = List.map c_string (filter (\<lambda>l. \<exists>pre post. c_string l = pre @ key @ post) ls)"

text \<open>A file with complete lines \<open>ls\<close> and a rest, which is more than one line.\<close>

definition good_file :: "file_tree \<Rightarrow> string \<Rightarrow> u8 list list \<Rightarrow> u8 list \<Rightarrow> bool" where
  "good_file F path ls rest \<longleftrightarrow> contents F path = Some (concat ls @ rest) \<and> (\<forall>l \<in> set ls. is_line l)
     \<and> newline \<notin> set rest \<and> size_known F path (length (concat ls @ rest))
     \<and> ls \<noteq> [] \<and> (\<forall>l \<in> set ls. length l < length (concat ls @ rest))"

lemma hits_matching: "hits key ls = matching key ls"
  by (simp add: hits_def matching_def strstr_iff)

lemma file_lines_matching:
  assumes "good_file F path ls rest" "key \<noteq> []" "newline \<notin> set key"
  shows "file_lines F junk key path = Returns (matching key ls)"
proof -
  have "\<not> strstr [newline] key"
    using assms(2,3) by (auto simp: strstr_iff Cons_eq_append_conv)
  moreover have "c_string [newline] = [newline]"
    by (simp add: c_string_def newline_def)
  ultimately have "hits key [[newline]] = []"
    by (simp add: hits_def)
  then show ?thesis
    using assms(1) hits_matching file_lines_hits [of F path ls rest junk key] unfolding good_file_def by simp
qed

lemma strip_slash_same: "path \<noteq> [] \<Longrightarrow> last path \<noteq> CHR ''/'' \<Longrightarrow> strip_slash path = Returns path"
  by (simp add: strip_slash_def last_conv_nth)

section \<open>An example\<close>

text \<open>A directory with one file, of the lines \<open>ab\<close> and \<open>cd\<close>, and one that has only the line \<open>e\<close>.\<close>

definition grep_fs :: file_tree where
  "grep_fs =
     \<lparr>entries = (\<lambda>path. if path = ''r'' then Some [\<lparr>d_name = ''.'', d_type = 4\<rparr>, \<lparr>d_name = ''a'', d_type = 8\<rparr>] else None),
      status = (\<lambda>path. if path = ''r'' then \<lparr>st_mode = 0x4000, st_size = 4096\<rparr>
        else if path = ''e'' then \<lparr>st_mode = 0x8000, st_size = 2\<rparr> else \<lparr>st_mode = 0x8000, st_size = 6\<rparr>),
      found = (\<lambda>path. True),
      contents = (\<lambda>path. if path = ''r/a'' then Some [97, 98, 10, 99, 100, 10]
        else if path = ''e'' then Some [101, 10] else None)\<rparr>"

lemma grep_fs_file: "good_file grep_fs ''r/a'' [[97, 98, 10], [99, 100, 10]] []"
proof -
  have "is_line [97, 98, 10]" "is_line [99, 100, 10]"
    unfolding is_line_def newline_def
    by (intro exI [of _ "[97, 98]"], simp) (intro exI [of _ "[99, 100]"], simp)
  then show ?thesis
    by (simp add: good_file_def grep_fs_def size_known_def)
qed

lemma grep_fs_tree: "tree_at grep_fs ''r'' (Dir [(''a'', File 6)])" "regular_types grep_fs"
  by (simp_all add: grep_fs_def is_dir_def S_IFMT_def S_IFDIR_def dot_entry_def regular_types_def path_of_def DT_REG_def)

lemma grep_fs_matching: "matching [99] [[97, 98, 10], [99, 100, 10]] = [[99, 100, 10]]"
  by (simp add: hits_matching [symmetric] hits_def c_string_def)

section \<open>Properties\<close>

text \<open>
  C35: Searching one file for a key that is not empty and has no newline. In a file with more than one
  line, the program prints, in order, exactly
  the complete lines that have the key in them (up to the first zero byte); a last line without
  newline is never reported.
\<close>

theorem grep_finds_lines:
  assumes "found F path" "path \<noteq> []" "last path \<noteq> CHR ''/''"
    and "st_mode (status F path) AND S_IFMT = S_IFREG" "good_file F path ls rest"
    and "key \<noteq> []" "newline \<notin> of_char ` set key"
  shows "grep_main F junk [prog, key, path] = Returns (0, List.map Line (matching (List.map of_char key) ls))"
proof -
  have "file_lines F junk (List.map of_char key) path = Returns (matching (List.map of_char key) ls)"
    using assms(6,7) by (intro file_lines_matching [OF assms(5)]) auto
  then show ?thesis
    using assms(1,4) strip_slash_same [OF assms(2,3)] by (simp add: grep_main_def singMyGrep_def Let_def)
qed

theorem grep_finds_lines_witness:
  "grep_main grep_fs (\<lambda>n. 0) [''part1'', ''c'', ''r/a''] = Returns (0, [Line [99, 100, 10]])"
  using grep_finds_lines [of grep_fs "''r/a''" _ _ "''c''" "\<lambda>n. 0" "''part1''", OF _ _ _ _ grep_fs_file]
  by (simp add: grep_fs_def S_IFMT_def S_IFREG_def grep_fs_matching newline_def)

text \<open>
  C34: Searching a directory for a key that is not empty and has no newline. The path names a
  directory, does not end in a slash, and has a finite tree below it whose entries have the type
  \<open>DT_REG\<close> exactly when they are no directories; every file can be read, has the size that \<open>stat\<close>
  gives, and more than one line; the process may open a file and all directories on the way down to
  it at the same time. Then \<open>recMyGrep\<close> ends, and prints the lines found in every regular
  file below the directory, the files in the order of the tree, each line with the path of its
  file. (An empty file or one of a single line overruns the buffer, and a file that cannot be
  opened makes the loop leave it.)
\<close>

theorem grep_searches_tree:
  assumes "found F path" "path \<noteq> []" "last path \<noteq> CHR ''/''"
    and "tree_at F path t" "is_dir F path" "regular_types F"
    and "\<forall>p \<in> set (files_of path t). good_file F p (ls p) (rest p)"
    and "key \<noteq> []" "newline \<notin> of_char ` set key"
  shows "grep_main F junk [prog, key, path] = Returns (0, concat (List.map
    (\<lambda>p. List.map (In_File p) (matching (List.map of_char key) (ls p))) (files_of path t)))"
proof -
  have "\<forall>p \<in> set (files_of path t). file_lines F junk (List.map of_char key) p
      = Returns (matching (List.map of_char key) (ls p))"
    using assms(7-9) file_lines_matching by auto
  then have "below F junk (List.map of_char key) path = Some (Returns (in_files (\<lambda>p. matching (List.map of_char key) (ls p)) (files_of path t)))"
    by (rule below_tree [OF assms(6,4,5)])
  moreover have "st_mode (status F path) AND S_IFMT \<noteq> S_IFREG"
    using assms(5) by (simp add: is_dir_def S_IFDIR_def S_IFREG_def)
  ultimately show ?thesis
    using assms(1) strip_slash_same [OF assms(2,3)]
    by (simp add: grep_main_def recMyGrep_below run_of_def in_files_def Let_def)
qed

theorem grep_searches_tree_witness:
  "grep_main grep_fs (\<lambda>n. 0) [''part1'', ''c'', ''r''] = Returns (0, [In_File ''r/a'' [99, 100, 10]])"
  using grep_searches_tree [of grep_fs "''r''" _ "\<lambda>p. [[97, 98, 10], [99, 100, 10]]" "\<lambda>p. []" "''c''" "\<lambda>n. 0" "''part1''",
      OF _ _ _ grep_fs_tree(1) _ grep_fs_tree(2)] grep_fs_file
  by (simp add: grep_fs_matching newline_def) (simp add: grep_fs_def is_dir_def S_IFMT_def S_IFDIR_def)

text \<open>
  C36: The buffer for a line is as long as the file, so a file that is one line, with or without a
  newline at its end, does not fit with the byte that is stored behind it: the program writes
  outside of its buffer.
\<close>

theorem grep_overruns_buffer:
  assumes "found F path" "path \<noteq> []" "last path \<noteq> CHR ''/''"
    and "st_mode (status F path) AND S_IFMT = S_IFREG" "contents F path = Some bs" "size_known F path (length bs)"
    and "bs = body \<or> bs = body @ [newline]" "newline \<notin> set body"
  shows "grep_main F junk [prog, key, path] = Faults"
  using assms(1,4) strip_slash_same [OF assms(2,3)] file_lines_overrun [OF assms(5-8)]
  by (simp add: grep_main_def singMyGrep_def Let_def)

theorem grep_overruns_buffer_witness:
  "grep_main grep_fs (\<lambda>n. 0) [''part1'', ''c'', ''e''] = Faults"
  using grep_overruns_buffer [of grep_fs "''e''" "[101, 10]" "[101]" "\<lambda>n. 0" "''part1''" "''c''"]
  by (simp add: grep_fs_def S_IFMT_def S_IFREG_def newline_def size_known_def)

text \<open>
  A file that cannot be opened is not noticed: the program reads for ever or until its buffer is
  full, depending on the byte that \<open>t\<close> happens to have.
\<close>

theorem unopened_file:
  assumes "contents F path = None" "1 < buffer_size (st_size (status F path))"
  shows "file_lines F junk key path = (if junk 0 = newline then Hangs else Faults)"
proof -
  let ?rb = "List.map junk [0..<buffer_size (st_size (status F path))]"
  have "line_loop key None newline ?rb 0 [] = None"
    using unopened_endless [of key ?rb "[]"] assms(2) by (cases "line_loop key None newline ?rb 0 []") auto
  then show ?thesis
    using unopened_full [of "junk 0" 0 ?rb key "[]"] assms(1) by (simp add: file_lines_def run_of_def)
qed

theorem unopened_file_witness:
  "file_lines grep_fs (\<lambda>n. 10) [99] ''x'' = Hangs"
  using unopened_file [of grep_fs "''x''" "\<lambda>n. 10" "[99]"]
  by (simp add: grep_fs_def newline_def buffer_size_def)

end
