(* ===== verification/Pipeline.thy ===== *)
theory Pipeline
  imports Prelude
begin

text \<open>
  \<open>Assignment1/Part_2\<close>: \<open>grep | wc\<close> and \<open>grep | tee | cmd\<close> out of pipes, processes and descriptors.
  First the code up to the point where all descriptors are in place, then the bytes that flow
  between the processes, in any order of their steps.
\<close>

section \<open>Descriptors\<close>

text \<open>Pipes have numbers. A descriptor is open when the table has an entry for it.\<close>

datatype target = Std nat | Read_End nat | Write_End nat | Out_File

type_synonym fds = "(nat \<times> target) list"

definition close_fd :: "nat \<Rightarrow> fds \<Rightarrow> fds" where
  "close_fd d t = filter (\<lambda>(d', e). d' \<noteq> d) t"

definition dup2 :: "nat \<Rightarrow> nat \<Rightarrow> fds \<Rightarrow> fds" where
  "dup2 old new t =
     (case map_of t old of
        None \<Rightarrow> t
      | Some e \<Rightarrow> if new = old then t else (new, e) # close_fd new t)"

fun free_from :: "nat \<Rightarrow> nat \<Rightarrow> fds \<Rightarrow> nat option" where
  "free_from 0 d t = None"
| "free_from (Suc n) d t = (if map_of t d = None then Some d else free_from n (Suc d) t)"

text \<open>New descriptors are the lowest that are free; \<open>limit\<close> descriptors may be open.\<close>

definition open_fd :: "nat \<Rightarrow> target \<Rightarrow> fds \<Rightarrow> (nat \<times> fds) option" where
  "open_fd limit e t = map_option (\<lambda>d. (d, (d, e) # t)) (free_from limit 0 t)"

definition make_pipe :: "nat \<Rightarrow> nat \<Rightarrow> fds \<Rightarrow> (nat \<times> nat \<times> fds) option" where
  "make_pipe limit p t =
     (case open_fd limit (Read_End p) t of
        None \<Rightarrow> None
      | Some (r, t) \<Rightarrow>
          (case open_fd limit (Write_End p) t of None \<Rightarrow> None | Some (w, t) \<Rightarrow> Some (r, w, t)))"

section \<open>The code\<close>

text \<open>
  The programs that the processes become. A process that exits or crashes before is left out.
\<close>

datatype program =
    Grep string string
  | Wc
  | Tee string
  | Cmd string "string list"

definition task1 :: "nat \<Rightarrow> bool \<Rightarrow> fds \<Rightarrow> string \<Rightarrow> string \<Rightarrow> (program \<times> fds) list" where
  "task1 limit fork_ok t key path =
     (case make_pipe limit 0 t of
        None \<Rightarrow> []
      | Some (r, w, t) \<Rightarrow>
          if \<not> fork_ok then []
          else
            [(Grep key path, close_fd w (close_fd r (dup2 w 1 t))),
             (Wc, close_fd r (close_fd w (dup2 r 0 t)))])"

text \<open>
  \<open>cmd_path\<close> is not initialised before the first \<open>strcat\<close>: the path is complete, and fits, when
  the first byte that \<open>malloc\<close> finds there, \<open>junk\<close>, is 0.
\<close>

definition cmd_path :: "u8 \<Rightarrow> string list \<Rightarrow> string run" where
  "cmd_path junk cmd =
     (case cmd of
        [] \<Rightarrow> Faults
      | name # args \<Rightarrow> if junk \<noteq> 0 then Faults else Returns (''/bin/'' @ name))"

text \<open>
  The \<open>open\<close> of \<open>tee_path\<close> fails when no descriptor is left, and for reasons of the path or its
  permissions, which \<open>open_ok\<close> stands for. \<open>fptr\<close> is -1 then, and no descriptor of \<open>tee\<close> is its file.
\<close>

definition task2 ::
  "nat \<Rightarrow> bool \<Rightarrow> bool \<Rightarrow> bool \<Rightarrow> u8 \<Rightarrow> fds \<Rightarrow> string \<Rightarrow> string \<Rightarrow> string \<Rightarrow> string list \<Rightarrow> (program \<times> fds) list" where
  "task2 limit fork_ok fork_ok2 open_ok junk t grep_path grep_key tee_path cmd =
     (case make_pipe limit 0 t of
        None \<Rightarrow> []
      | Some (r, w, t) \<Rightarrow>
          if \<not> fork_ok then []
          else
            (case make_pipe limit 1 t of
               None \<Rightarrow> []
             | Some (r1, w1, t) \<Rightarrow>
                 if \<not> fork_ok2 then []
                 else
                   [(Grep grep_key grep_path, close_fd w1 (close_fd r1 (dup2 w1 1 t))),
                    (Tee tee_path,
                     let t = close_fd w1 (close_fd r1 (dup2 w 1 (dup2 r1 0 t))) in
                     if \<not> open_ok then t
                     else (case open_fd limit Out_File t of None \<Rightarrow> t | Some (fptr, t) \<Rightarrow> t))]) @
            (case cmd_path junk cmd of
               Returns path \<Rightarrow> [(Cmd path cmd, close_fd w (close_fd r (dup2 r 0 t)))]
             | _ \<Rightarrow> []))"

text \<open>\<open>main\<close>: the processes, or the exit code -1 for an unknown command.\<close>

definition pipeline_main ::
  "nat \<Rightarrow> bool \<Rightarrow> bool \<Rightarrow> bool \<Rightarrow> u8 \<Rightarrow> fds \<Rightarrow> string list \<Rightarrow> (i32 + (program \<times> fds) list) run" where
  "pipeline_main limit fork_ok fork_ok2 open_ok junk t argv =
     (if length argv < 2 then Faults
      else if argv ! 1 = ''@'' then
        (if length argv < 4 then Faults else Returns (Inr (task1 limit fork_ok t (argv ! 2) (argv ! 3))))
      else if argv ! 1 = ''$'' then
        (if length argv < 5 then Faults
         else Returns (Inr (task2 limit fork_ok fork_ok2 open_ok junk t (argv ! 3) (argv ! 2) (argv ! 4) (drop 5 argv))))
      else Returns (Inl (- 1)))"

section \<open>The flow of bytes\<close>

text \<open>
  The loop of \<open>tee\<close> stands before its \<open>read\<close>, before its first \<open>write\<close>, or before its second one.
  \<open>unsent\<close> is what \<open>grep\<close> still has to write, \<open>received\<close> what \<open>cmd\<close> has read, \<open>tee_file\<close> what is
  in the file of \<open>tee\<close>. \<open>queue\<close> has the bytes in a pipe.
\<close>

datatype tee_pos = Tee_Read | Tee_Out u8 | Tee_Keep u8 | Tee_Exit

record flow =
  unsent :: "u8 list"
  grep_live :: bool
  tee_at :: tee_pos
  tee_file :: "u8 list"
  received :: "u8 list"
  cmd_live :: bool
  queue :: "nat \<Rightarrow> u8 list"

record plumbing =
  grep_fds :: fds
  tee_fds :: fds
  cmd_fds :: fds

text \<open>An end of a pipe is open while a living process has it.\<close>

definition has_end :: "target \<Rightarrow> fds \<Rightarrow> bool" where
  "has_end e t = list_ex (\<lambda>(d, e'). e' = e) t"

definition end_open :: "plumbing \<Rightarrow> flow \<Rightarrow> target \<Rightarrow> bool" where
  "end_open P s e \<longleftrightarrow> grep_live s \<and> has_end e (grep_fds P) \<or> tee_at s \<noteq> Tee_Exit \<and> has_end e (tee_fds P)
     \<or> cmd_live s \<and> has_end e (cmd_fds P)"

text \<open>
  \<open>read\<close> and \<open>write\<close> of one byte; \<^const>\<open>None\<close> while they block. \<open>read\<close> returns 0 when no write end
  is open; \<open>write\<close> gets \<open>SIGPIPE\<close>, the value \<open>Killed\<close>, when no read end is open.
\<close>

datatype read_result = Byte u8 flow | End_Of_File

definition read_byte :: "plumbing \<Rightarrow> fds \<Rightarrow> nat \<Rightarrow> flow \<Rightarrow> read_result option" where
  "read_byte P t d s =
     (case map_of t d of
        Some (Read_End p) \<Rightarrow>
          (case queue s p of
             b # bs \<Rightarrow> Some (Byte b (s\<lparr>queue := (queue s)(p := bs)\<rparr>))
           | [] \<Rightarrow> if end_open P s (Write_End p) then None else Some End_Of_File)
      | _ \<Rightarrow> Some End_Of_File)"

datatype write_result = Written flow | Killed

definition write_byte :: "plumbing \<Rightarrow> nat \<Rightarrow> fds \<Rightarrow> nat \<Rightarrow> u8 \<Rightarrow> flow \<Rightarrow> write_result option" where
  "write_byte P cap t d b s =
     (case map_of t d of
        Some (Write_End p) \<Rightarrow>
          if \<not> end_open P s (Read_End p) then Some Killed
          else if length (queue s p) < cap then Some (Written (s\<lparr>queue := (queue s)(p := queue s p @ [b])\<rparr>))
          else None
      | _ \<Rightarrow> Some (Written s))"

definition grep_step :: "plumbing \<Rightarrow> nat \<Rightarrow> flow \<Rightarrow> flow option" where
  "grep_step P cap s =
     (if \<not> grep_live s then None
      else
        (case unsent s of
           [] \<Rightarrow> Some (s\<lparr>grep_live := False\<rparr>)
         | b # bs \<Rightarrow>
             (case write_byte P cap (grep_fds P) 1 b s of
                None \<Rightarrow> None
              | Some Killed \<Rightarrow> Some (s\<lparr>grep_live := False\<rparr>)
              | Some (Written s) \<Rightarrow> Some (s\<lparr>unsent := bs\<rparr>))))"

text \<open>
  The second \<open>write\<close> of \<open>tee\<close> goes to \<open>fptr\<close>; it stores nothing when \<open>fptr\<close> is -1, that is, when none of
  the descriptors is the file.
\<close>

definition tee_step :: "plumbing \<Rightarrow> nat \<Rightarrow> flow \<Rightarrow> flow option" where
  "tee_step P cap s =
     (case tee_at s of
        Tee_Read \<Rightarrow>
          (case read_byte P (tee_fds P) 0 s of
             None \<Rightarrow> None
           | Some (Byte c s) \<Rightarrow> Some (s\<lparr>tee_at := Tee_Out c\<rparr>)
           | Some End_Of_File \<Rightarrow> Some (s\<lparr>tee_at := Tee_Exit\<rparr>))
      | Tee_Out c \<Rightarrow>
          (case write_byte P cap (tee_fds P) 1 c s of
             None \<Rightarrow> None
           | Some Killed \<Rightarrow> Some (s\<lparr>tee_at := Tee_Exit\<rparr>)
           | Some (Written s) \<Rightarrow> Some (s\<lparr>tee_at := Tee_Keep c\<rparr>))
      | Tee_Keep c \<Rightarrow>
          Some (s\<lparr>tee_file := (if has_end Out_File (tee_fds P) then tee_file s @ [c] else tee_file s),
            tee_at := Tee_Read\<rparr>)
      | Tee_Exit \<Rightarrow> None)"

text \<open>A command that reads to the end of its input, or one that leaves after \<open>n\<close> bytes.\<close>

definition cmd_step :: "plumbing \<Rightarrow> nat option \<Rightarrow> flow \<Rightarrow> flow option" where
  "cmd_step P wants s =
     (if \<not> cmd_live s then None
      else if wants = Some (length (received s)) then Some (s\<lparr>cmd_live := False\<rparr>)
      else
        (case read_byte P (cmd_fds P) 0 s of
           None \<Rightarrow> None
         | Some (Byte c s) \<Rightarrow> Some (s\<lparr>received := received s @ [c]\<rparr>)
         | Some End_Of_File \<Rightarrow> Some (s\<lparr>cmd_live := False\<rparr>)))"

definition flow_start :: "u8 list \<Rightarrow> flow" where
  "flow_start out = \<lparr>unsent = out, grep_live = True, tee_at = Tee_Read, tee_file = [], received = [],
     cmd_live = True, queue = (\<lambda>p. [])\<rparr>"

definition flow_steps :: "plumbing \<Rightarrow> nat \<Rightarrow> nat option \<Rightarrow> flow \<Rightarrow> flow option list" where
  "flow_steps P cap wants s = [grep_step P cap s, tee_step P cap s, cmd_step P wants s]"

inductive flow_next :: "plumbing \<Rightarrow> nat \<Rightarrow> nat option \<Rightarrow> flow \<Rightarrow> flow \<Rightarrow> bool" for P cap wants where
  grep: "grep_step P cap s = Some s' \<Longrightarrow> flow_next P cap wants s s'"
| tee: "tee_step P cap s = Some s' \<Longrightarrow> flow_next P cap wants s s'"
| cmd: "cmd_step P wants s = Some s' \<Longrightarrow> flow_next P cap wants s s'"

abbreviation flow_run :: "plumbing \<Rightarrow> nat \<Rightarrow> nat option \<Rightarrow> flow \<Rightarrow> nat \<Rightarrow> flow \<Rightarrow> bool" where
  "flow_run P cap wants \<equiv> steps_from (flow_next P cap wants)"

inductive_simps flow_next_iff: "flow_next P cap wants s s'"

section \<open>What the plumbing has to be\<close>

text \<open>
  The pipe 1 leads from \<open>grep\<close> to \<open>tee\<close> and the pipe 0 from \<open>tee\<close> to \<open>cmd\<close>. Only \<open>grep\<close> may have the
  write end of pipe 1, or \<open>tee\<close> would not see its end, and \<open>cmd\<close> may not have that of pipe 0.
\<close>

text \<open>
  What \<open>cmd\<close> has read and what is on the way to it is, in this order, the output of \<open>grep\<close>; the file of
  \<open>tee\<close>, when it is open, has what \<open>tee\<close> has passed on.
\<close>

definition flow_inv :: "bool \<Rightarrow> u8 list \<Rightarrow> nat \<Rightarrow> nat option \<Rightarrow> flow \<Rightarrow> bool" where
  "flow_inv opened out cap wants s \<longleftrightarrow>
     received s @ queue s 0 @ (case tee_at s of Tee_Out c \<Rightarrow> [c] | _ \<Rightarrow> []) @ queue s 1 @ unsent s = out
     \<and> (if opened then tee_file s @ (case tee_at s of Tee_Keep c \<Rightarrow> [c] | _ \<Rightarrow> []) = received s @ queue s 0
        else tee_file s = [])
     \<and> (grep_live s \<or> unsent s = []) \<and> (tee_at s = Tee_Exit \<longrightarrow> \<not> grep_live s \<and> queue s 1 = [])
     \<and> length (queue s 0) \<le> cap \<and> (\<forall>n. wants = Some n \<longrightarrow> length (received s) \<le> n)
     \<and> (cmd_live s \<or> wants = Some (length (received s)) \<or> tee_at s = Tee_Exit \<and> queue s 0 = [])"

text \<open>The bytes still to be moved, each with the steps it needs, and the processes still to exit.\<close>

definition flow_left :: "flow \<Rightarrow> nat" where
  "flow_left s = 5 * length (unsent s) + 4 * length (queue s 1) + length (queue s 0)
     + (case tee_at s of Tee_Out c \<Rightarrow> 4 | Tee_Keep c \<Rightarrow> 2 | Tee_Read \<Rightarrow> 1 | Tee_Exit \<Rightarrow> 0)
     + (if grep_live s then 1 else 0) + (if cmd_live s then 1 else 0)"

locale wired =
  fixes P :: plumbing
  assumes grep_out: "map_of (grep_fds P) 1 = Some (Write_End 1)"
    and tee_in: "map_of (tee_fds P) 0 = Some (Read_End 1)"
    and tee_out: "map_of (tee_fds P) 1 = Some (Write_End 0)"
    and cmd_in: "map_of (cmd_fds P) 0 = Some (Read_End 0)"
    and only_grep: "has_end (Write_End 1) (grep_fds P)" "\<not> has_end (Write_End 1) (tee_fds P)"
      "\<not> has_end (Write_End 1) (cmd_fds P)"
    and tee_ends: "has_end (Read_End 1) (tee_fds P)" "has_end (Write_End 0) (tee_fds P)" "has_end (Read_End 0) (tee_fds P)"
    and grep_too: "has_end (Write_End 0) (grep_fds P)"
    and cmd_not: "\<not> has_end (Write_End 0) (cmd_fds P)"
begin

abbreviation opened :: bool where
  "opened \<equiv> has_end Out_File (tee_fds P)"

lemma ends:
  "end_open P s (Write_End 1) \<longleftrightarrow> grep_live s"
  "tee_at s \<noteq> Tee_Exit \<Longrightarrow> end_open P s (Read_End 1)"
  "tee_at s \<noteq> Tee_Exit \<Longrightarrow> end_open P s (Read_End 0)"
  "end_open P s (Write_End 0) \<longleftrightarrow> grep_live s \<or> tee_at s \<noteq> Tee_Exit"
  using only_grep tee_ends grep_too cmd_not by (auto simp: end_open_def)

lemma grep_steps:
  assumes "grep_step P cap s = Some s'"
  obtains (left) "grep_live s" "unsent s = [] \<or> \<not> end_open P s (Read_End 1)" "s' = s\<lparr>grep_live := False\<rparr>"
  | (sent) b bs where "grep_live s" "unsent s = b # bs"
      "s' = s\<lparr>queue := (queue s)(1 := queue s 1 @ [b]), unsent := bs\<rparr>"
proof (cases "unsent s")
  case Nil
  then show thesis
    using assms that(1) by (simp add: grep_step_def split: if_splits)
next
  case (Cons b bs)
  show thesis
  proof (cases "end_open P s (Read_End 1)")
    case True
    then have "grep_live s" "s' = s\<lparr>queue := (queue s)(1 := queue s 1 @ [b]), unsent := bs\<rparr>"
      using assms Cons grep_out by (auto simp: grep_step_def write_byte_def split: if_splits)
    then show thesis
      using that(2) Cons by blast
  next
    case False
    then show thesis
      using assms Cons grep_out that(1) by (simp add: grep_step_def write_byte_def split: if_splits)
  qed
qed

lemma tee_steps:
  assumes "tee_step P cap s = Some s'"
  obtains (got) c bs where "tee_at s = Tee_Read" "queue s 1 = c # bs"
      "s' = s\<lparr>queue := (queue s)(1 := bs), tee_at := Tee_Out c\<rparr>"
  | (left) "tee_at s = Tee_Read" "queue s 1 = []" "\<not> grep_live s" "s' = s\<lparr>tee_at := Tee_Exit\<rparr>"
  | (sent) c where "tee_at s = Tee_Out c" "length (queue s 0) < cap"
      "s' = s\<lparr>queue := (queue s)(0 := queue s 0 @ [c]), tee_at := Tee_Keep c\<rparr>"
  | (kept) c where "tee_at s = Tee_Keep c"
      "s' = s\<lparr>tee_file := (if opened then tee_file s @ [c] else tee_file s), tee_at := Tee_Read\<rparr>"
proof (cases "tee_at s")
  case Tee_Read
  show thesis
  proof (cases "queue s 1")
    case Nil
    then show thesis
      using assms Tee_Read tee_in ends(1) [of s] that(2)
      by (simp add: tee_step_def read_byte_def split: if_splits)
  next
    case (Cons c bs)
    then show thesis
      using assms Tee_Read tee_in that(1) by (simp add: tee_step_def read_byte_def)
  qed
next
  case (Tee_Out c)
  then show thesis
    using assms tee_out ends(3) [of s] that(3) by (simp add: tee_step_def write_byte_def split: if_splits)
qed (use assms that(4) in \<open>simp_all add: tee_step_def\<close>)

lemma cmd_steps:
  assumes "cmd_step P wants s = Some s'"
  obtains (got) c bs where "cmd_live s" "wants \<noteq> Some (length (received s))" "queue s 0 = c # bs"
      "s' = s\<lparr>queue := (queue s)(0 := bs), received := received s @ [c]\<rparr>"
  | (left) "cmd_live s" "wants = Some (length (received s)) \<or> queue s 0 = [] \<and> \<not> grep_live s \<and> tee_at s = Tee_Exit"
      "s' = s\<lparr>cmd_live := False\<rparr>"
proof (cases "queue s 0")
  case Nil
  then show thesis
    using assms cmd_in ends(4) [of s] that(2) by (simp add: cmd_step_def read_byte_def split: if_splits)
next
  case (Cons c bs)
  then show thesis
    using assms cmd_in that by (auto simp: cmd_step_def read_byte_def split: if_splits)
qed

lemma grep_step_inv:
  assumes "flow_inv opened out cap wants s" "grep_step P cap s = Some s'"
  shows "flow_inv opened out cap wants s' \<and> flow_left s' < flow_left s"
  using assms(2)
proof (cases rule: grep_steps)
  case left
  then show ?thesis
    using assms(1) ends(2) [of s]
    by (auto simp: flow_inv_def flow_left_def)
next
  case (sent b bs)
  then show ?thesis
    using assms(1) by (auto simp: flow_inv_def flow_left_def)
qed

lemma tee_step_inv:
  assumes "flow_inv opened out cap wants s" "tee_step P cap s = Some s'"
  shows "flow_inv opened out cap wants s' \<and> flow_left s' < flow_left s"
  using assms(2)
proof (cases rule: tee_steps)
  case (got c bs)
  then show ?thesis
    using assms(1) by (auto simp: flow_inv_def flow_left_def)
next
  case left
  then show ?thesis
    using assms(1) by (auto simp: flow_inv_def flow_left_def)
next
  case (sent c)
  then show ?thesis
    using assms(1) by (auto simp: flow_inv_def flow_left_def)
next
  case (kept c)
  then show ?thesis
    using assms(1) by (auto simp: flow_inv_def flow_left_def)
qed

lemma cmd_step_inv:
  assumes "flow_inv opened out cap wants s" "cmd_step P wants s = Some s'"
  shows "flow_inv opened out cap wants s' \<and> flow_left s' < flow_left s"
  using assms(2)
proof (cases rule: cmd_steps)
  case (got c bs)
  moreover have "length (received s) < n" if "wants = Some n" for n
    using assms(1) that got(2) unfolding flow_inv_def by (metis option.inject le_neq_implies_less)
  ultimately show ?thesis
    using assms(1) by (auto simp: flow_inv_def flow_left_def Suc_le_eq)
next
  case left
  then show ?thesis
    using assms(1) by (auto simp: flow_inv_def flow_left_def)
qed

lemma flow_next_inv:
  assumes "flow_inv opened out cap wants s" "flow_next P cap wants s s'"
  shows "flow_inv opened out cap wants s' \<and> flow_left s' < flow_left s"
  using assms(2) grep_step_inv [OF assms(1)] tee_step_inv [OF assms(1)] cmd_step_inv [OF assms(1)]
  unfolding flow_next_iff by blast

text \<open>A process that cannot go on waits for another one.\<close>

lemma grep_waits:
  "grep_step P cap s = None \<Longrightarrow> grep_live s \<Longrightarrow> cap \<le> length (queue s 1)"
  using grep_out by (auto simp: grep_step_def write_byte_def split: if_splits list.splits option.splits write_result.splits)

lemma tee_waits:
  "tee_step P cap s = None \<Longrightarrow> tee_at s \<noteq> Tee_Exit \<Longrightarrow>
    tee_at s = Tee_Read \<and> queue s 1 = [] \<and> grep_live s \<or> (\<exists>c. tee_at s = Tee_Out c) \<and> cap \<le> length (queue s 0)"
  using tee_in tee_out ends(1) [of s]
  by (auto simp: tee_step_def read_byte_def write_byte_def split: if_splits list.splits tee_pos.splits
      read_result.splits write_result.splits)

lemma cmd_waits:
  "cmd_step P wants s = None \<Longrightarrow> cmd_live s \<Longrightarrow> queue s 0 = [] \<and> (grep_live s \<or> tee_at s \<noteq> Tee_Exit)"
  using cmd_in ends(4) [of s]
  by (auto simp: cmd_step_def read_byte_def split: if_splits list.splits read_result.splits)

lemma flow_final:
  assumes "flow_inv opened out cap wants s" "flow_steps P cap wants s = [None, None, None]" "0 < cap"
  shows "cmd_live s = False" "wants = None \<Longrightarrow> \<not> grep_live s \<and> tee_at s = Tee_Exit \<and> received s = out
      \<and> tee_file s = (if opened then out else [])"
    and "wants = Some n \<Longrightarrow> n + cap < length out \<Longrightarrow> tee_at s \<noteq> Tee_Exit"
proof -
  note inv = assms(1) [unfolded flow_inv_def]
  have none: "grep_step P cap s = None" "tee_step P cap s = None" "cmd_step P wants s = None"
    using assms(2) by (auto simp: flow_steps_def)
  show dead: "cmd_live s = False"
  proof (rule ccontr)
    assume "cmd_live s \<noteq> False"
    then have c: "queue s 0 = []" "grep_live s \<or> tee_at s \<noteq> Tee_Exit"
      using cmd_waits [OF none(3)] by auto
    then have "tee_at s \<noteq> Tee_Exit"
      using inv by blast
    then have "queue s 1 = []" "grep_live s"
      using tee_waits [OF none(2)] c(1) assms(3) by auto
    then show False
      using grep_waits [OF none(1)] assms(3) by simp
  qed
  have gone: "received s = out \<and> tee_file s = (if opened then out else [])" if "tee_at s = Tee_Exit" "queue s 0 = []"
    using inv that by auto
  show "wants = None \<Longrightarrow> \<not> grep_live s \<and> tee_at s = Tee_Exit \<and> received s = out
      \<and> tee_file s = (if opened then out else [])"
    using inv dead gone by auto
  show "tee_at s \<noteq> Tee_Exit" if "wants = Some n" "n + cap < length out"
  proof
    assume tee: "tee_at s = Tee_Exit"
    then have "received s @ queue s 0 = out"
      using inv by auto
    then have "length out = length (received s) + length (queue s 0)"
      by auto
    then show False
      using inv that by auto
  qed
qed

end

text \<open>Every run comes to an end.\<close>

sublocale wired \<subseteq> flow: bounded_system "flow_next P cap wants" "\<lambda>s m. flow_inv opened out cap wants s \<and> m = flow_left s"
  for cap wants out
  by unfold_locales (use flow_next_inv in blast)

context wired begin

lemma flow_run_inv:
  assumes "flow_run P cap wants (flow_start out) k s"
  shows "flow_inv opened out cap wants s \<and> k + flow_left s \<le> 5 * length out + 3"
proof -
  have "flow_inv opened out cap wants (flow_start out) \<and> 5 * length out + 3 = flow_left (flow_start out)"
    by (simp add: flow_inv_def flow_left_def flow_start_def)
  from flow.runs [OF assms this] show ?thesis
    by blast
qed

lemma flow_ends: "\<exists>k s. flow_run P cap wants (flow_start out) k s \<and> flow_steps P cap wants s = [None, None, None]"
proof -
  have "flow_inv opened out cap wants (flow_start out) \<and> flow_left (flow_start out) = flow_left (flow_start out)"
    by (simp add: flow_inv_def flow_start_def)
  from flow.ends [OF this steps_from.start] obtain k s where
    "flow_run P cap wants (flow_start out) k s" "\<forall>t. \<not> flow_next P cap wants s t"
    by blast
  then show ?thesis
    by (auto simp: flow_next_iff flow_steps_def all_conj_distrib)
qed

end

section \<open>The plumbing the code makes\<close>

definition std_fds :: fds where
  "std_fds = [(0, Std 0), (1, Std 1), (2, Std 2)]"

definition three_tables :: "bool \<Rightarrow> plumbing" where
  "three_tables opened = \<lparr>grep_fds = [(1, Write_End 1), (4, Write_End 0), (3, Read_End 0), (0, Std 0), (2, Std 2)],
     tee_fds = (if opened then [(5, Out_File)] else []) @
       [(1, Write_End 0), (0, Read_End 1), (4, Write_End 0), (3, Read_End 0), (2, Std 2)],
     cmd_fds = [(0, Read_End 0), (1, Std 1), (2, Std 2)]\<rparr>"

interpretation three: wired "three_tables opened" for opened
  by unfold_locales (simp_all add: three_tables_def has_end_def)

lemma more_fds: "7 \<le> limit \<Longrightarrow> \<exists>m. limit = Suc (Suc (Suc (Suc (Suc (Suc (Suc m))))))"
  by (intro exI [of _ "limit - 7"]) simp

text \<open>
  \<open>grep | wc\<close>: each of the two is left with one end of the pipe, so \<open>wc\<close> sees the end of its input
  when \<open>grep\<close> exits.
\<close>

lemma task1_tables:
  assumes "7 \<le> limit"
  shows "task1 limit True std_fds key path =
    [(Grep key path, [(1, Write_End 0), (0, Std 0), (2, Std 2)]), (Wc, [(0, Read_End 0), (1, Std 1), (2, Std 2)])]"
proof -
  obtain m where "limit = Suc (Suc (Suc (Suc (Suc (Suc (Suc m))))))"
    using more_fds [OF assms] by blast
  then show ?thesis
    by (simp add: task1_def make_pipe_def open_fd_def std_fds_def dup2_def close_fd_def)
qed

lemma task2_tables:
  assumes "7 \<le> limit"
  shows "task2 limit True True open_ok 0 std_fds path key file (name # args) =
    [(Grep key path, grep_fds (three_tables open_ok)), (Tee file, tee_fds (three_tables open_ok)),
     (Cmd (''/bin/'' @ name) (name # args), cmd_fds (three_tables open_ok))]"
proof -
  obtain m where "limit = Suc (Suc (Suc (Suc (Suc (Suc (Suc m))))))"
    using more_fds [OF assms] by blast
  then show ?thesis
    by (simp add: task2_def make_pipe_def open_fd_def std_fds_def dup2_def close_fd_def cmd_path_def three_tables_def Let_def)
qed

section \<open>Properties\<close>

text \<open>
  C30: \<open>grep | tee | cmd\<close>, from the arguments to the end of the three processes: with a command that
  reads to the end of its input, whatever order the processes run in and however small the pipes
  are, they all exit after a bounded number of steps, and then the input of the command has been
  exactly the output of \<open>grep\<close>, and so is the file of \<open>tee\<close>, unless it could not be opened: then \<open>tee\<close>
  stores nothing, and still passes everything on. The process starts with its three standard
  descriptors, and may have at least 7; both \<open>fork\<close>s and the \<open>exec\<close>s succeed, and the first byte
  \<open>malloc\<close> finds for \<open>cmd_path\<close> is 0 (otherwise the path is not the command's).
\<close>

theorem pipeline_delivers:
  assumes "7 \<le> limit" "0 < cap"
  shows "\<exists>P. pipeline_main limit True True open_ok 0 std_fds (prog # ''$'' # key # path # file # name # args) =
      Returns (Inr [(Grep key path, grep_fds P), (Tee file, tee_fds P),
        (Cmd (''/bin/'' @ name) (name # args), cmd_fds P)])
    \<and> (\<forall>k s. flow_run P cap None (flow_start out) k s \<longrightarrow> k \<le> 5 * length out + 3
         \<and> (flow_steps P cap None s = [None, None, None] \<longrightarrow>
              \<not> grep_live s \<and> tee_at s = Tee_Exit \<and> \<not> cmd_live s \<and> received s = out
              \<and> tee_file s = (if open_ok then out else [])))"
proof (intro exI [of _ "three_tables open_ok"] conjI allI impI)
  show "pipeline_main limit True True open_ok 0 std_fds (prog # ''$'' # key # path # file # name # args) =
      Returns (Inr [(Grep key path, grep_fds (three_tables open_ok)), (Tee file, tee_fds (three_tables open_ok)),
        (Cmd (''/bin/'' @ name) (name # args), cmd_fds (three_tables open_ok))])"
    using task2_tables [OF assms(1)] by (simp add: pipeline_main_def numeral_eq_Suc)
  fix k s
  assume run: "flow_run (three_tables open_ok) cap None (flow_start out) k s"
  note inv = three.flow_run_inv [OF run]
  show "k \<le> 5 * length out + 3"
    using inv by linarith
  assume "flow_steps (three_tables open_ok) cap None s = [None, None, None]"
  note final = three.flow_final [OF conjunct1 [OF inv] this assms(2)]
  have "has_end Out_File (tee_fds (three_tables open_ok)) = open_ok"
    by (simp add: has_end_def three_tables_def)
  then show "\<not> grep_live s" "tee_at s = Tee_Exit" "\<not> cmd_live s" "received s = out"
    "tee_file s = (if open_ok then out else [])"
    using final(1,2) by simp_all
qed

theorem pipeline_delivers_witness:
  "\<exists>P k s. flow_run P 1 None (flow_start [104, 105]) k s \<and> tee_file s = [104, 105] \<and> received s = [104, 105]"
proof -
  obtain P where P: "pipeline_main 7 True True True 0 std_fds [''part2'', ''$'', ''k'', ''p'', ''f'', ''wc''] =
      Returns (Inr [(Grep ''k'' ''p'', grep_fds P), (Tee ''f'', tee_fds P), (Cmd ''/bin/wc'' [''wc''], cmd_fds P)])"
    "\<And>k s. flow_run P 1 None (flow_start [104, 105]) k s \<Longrightarrow> flow_steps P 1 None s = [None, None, None] \<Longrightarrow>
      tee_file s = [104, 105] \<and> received s = [104, 105]"
    using pipeline_delivers [of 7 1 True "''part2''" "''k''" "''p''" "''f''" "''wc''" "[]" "[104, 105]"] by auto
  have "P = three_tables True"
    using P(1) task2_tables [of 7 True "''p''" "''k''" "''f''" "''wc''" "[]"] by (simp add: pipeline_main_def numeral_eq_Suc)
  then show ?thesis
    using P(2) three.flow_ends [of True 1 None "[104, 105]"] by blast
qed

text \<open>
  C31: \<open>tee\<close> keeps the read end of the pipe it writes to. When the command leaves before the end of
  its input, \<open>tee\<close> is not told so: with more output than the command reads and the pipe holds, the
  processes (whose \<open>fork\<close>s have succeeded, with descriptors enough) come to a stop in which the command has exited and \<open>tee\<close> blocks in its \<open>write\<close> for ever.
\<close>

theorem tee_outlives_command:
  assumes "7 \<le> limit" "0 < cap" "n + cap < length out"
    and "task2 limit True True open_ok 0 std_fds path key file (name # args) =
      [(Grep key path, g), (Tee file, t), (prog, c)]"
    and "flow_run \<lparr>grep_fds = g, tee_fds = t, cmd_fds = c\<rparr> cap (Some n) (flow_start out) k s"
    and "flow_steps \<lparr>grep_fds = g, tee_fds = t, cmd_fds = c\<rparr> cap (Some n) s = [None, None, None]"
  shows "\<not> cmd_live s \<and> (\<exists>b. tee_at s = Tee_Out b) \<and> length (queue s 0) = cap"
proof -
  have "\<lparr>grep_fds = g, tee_fds = t, cmd_fds = c\<rparr> = three_tables open_ok"
    using assms(4) task2_tables [OF assms(1), of open_ok path key "file" name args] by simp
  note run = assms(5) [unfolded this] and stop = assms(6) [unfolded this]
  note inv = conjunct1 [OF three.flow_run_inv [OF run]]
  note final = three.flow_final [OF inv stop assms(2)]
  have tee: "tee_at s \<noteq> Tee_Exit" and dead: "\<not> cmd_live s"
    using final(1,3) assms(3) by simp_all
  have none: "grep_step (three_tables open_ok) cap s = None" "tee_step (three_tables open_ok) cap s = None"
    using stop by (simp_all add: flow_steps_def)
  have "grep_live s \<Longrightarrow> queue s 1 \<noteq> []"
    using three.grep_waits [OF none(1)] assms(2) by auto
  then have "(\<exists>b. tee_at s = Tee_Out b) \<and> cap \<le> length (queue s 0)"
    using three.tee_waits [OF none(2) tee] by blast
  moreover have "length (queue s 0) \<le> cap"
    using inv by (simp add: flow_inv_def)
  ultimately show ?thesis
    using dead by simp
qed

theorem tee_outlives_command_witness:
  "\<exists>g t c k s. task2 7 True True True 0 std_fds ''p'' ''k'' ''f'' [''true''] = [(Grep ''k'' ''p'', g), (Tee ''f'', t), (Cmd ''/bin/true'' [''true''], c)]
    \<and> flow_run \<lparr>grep_fds = g, tee_fds = t, cmd_fds = c\<rparr> 1 (Some 0) (flow_start [1, 2]) k s
    \<and> \<not> cmd_live s \<and> (\<exists>b. tee_at s = Tee_Out b)"
proof -
  let ?P = "\<lparr>grep_fds = grep_fds (three_tables True), tee_fds = tee_fds (three_tables True), cmd_fds = cmd_fds (three_tables True)\<rparr>"
  have P: "?P = (three_tables True)"
    by simp
  have task: "task2 7 True True True 0 std_fds ''p'' ''k'' ''f'' [''true''] = [(Grep ''k'' ''p'', grep_fds (three_tables True)),
      (Tee ''f'', tee_fds (three_tables True)), (Cmd ''/bin/true'' [''true''], cmd_fds (three_tables True))]"
    using task2_tables [of 7 True "''p''" "''k''" "''f''" "''true''" "[]"] by simp
  obtain k s where run: "flow_run ?P 1 (Some 0) (flow_start [1, 2]) k s" and stop: "flow_steps ?P 1 (Some 0) s = [None, None, None]"
    using three.flow_ends [of True 1 "Some 0" "[1, 2]"] unfolding P by blast
  have "\<not> cmd_live s \<and> (\<exists>b. tee_at s = Tee_Out b)"
    using tee_outlives_command [OF _ _ _ task run stop] by simp
  then show ?thesis
    using task run by blast
qed

end
