(* ===== verification/Spec2Isabelle.thy ===== *)
theory Spec2Isabelle
  imports Prelude Vm_Area Vm_Map Vm_Unmap Vm_Protect Vm_Syscalls
    File_Table Pipe Regular_File File_Calls Bytes Hash_Table Hash_Map Op_Input
    Parallel_Hash Parallel_Table Parallel_Values Parallel_Invariant Parallel_Operation Parallel_Cost
    Parallel_Queue Parallel_Program Input_Gen
    RwLock RwLock_Client Block_Hash Cfork Cfork_Effect Cow_Fault Vfork
    Dir_Tree Dir_Size Grep Pipeline
begin

text \<open>
  A model of the operating-systems assignments in this repository, in C, and what it has been
  shown to do. The parts do not call one another; each has its own theories.

  \<^bold>\<open>Memory areas\<close> (\<open>src/Assignment3/mmap.c\<close>). A process has a chain of areas, here a list of
  \<open>vm_area\<close> records; addresses are 64-bit words, lengths 32-bit signed \<open>int\<close>s.
  \<^item> \<open>Vm_Area\<close>: the data, the page-table loops \<open>map\<close>, \<open>unmap\<close>, \<open>update_map\<close>
    (\<open>map_range\<close>, \<open>unmap_range\<close>, \<open>update_map\<close>), the view \<open>perm_at\<close> of a chain as a
    partial function from addresses to access flags, and the invariant \<open>vms_ok\<close>.
  \<^item> \<open>Vm_Map\<close>: \<open>vm_area_map\<close>. A successful call adds one region to \<open>perm_at\<close> and changes
    nothing else; a failed one changes nothing; the search loop without an exit and the wrong
    address after a merge are characterised.
  \<^item> \<open>Vm_Unmap\<close>: \<open>vm_area_unmap\<close>, its effect on \<open>perm_at\<close>, when that is the specified one and
    when memory appears instead.
  \<^item> \<open>Vm_Protect\<close>: \<open>vm_area_mprotect\<close> and \<open>vm_area_pagefault\<close>. \<open>mprotect\<close> reads an area it has just
    freed; what it finds there, \<open>freed_view\<close>, is an arbitrary parameter, which may also be no readable
    memory. The theorems say what holds for every such view and what for one that still has the old
    contents (\<open>freed_intact\<close>).
  \<^item> \<open>Vm_Syscalls\<close>: sequences of the calls, with \<open>munmap\<close> not below the area for mappings (lower down it
    breaks the invariant, \<open>munmap_below_area\<close>), keep the invariant; what a page fault does after
    a successful call.

  \<^bold>\<open>Fork\<close> (\<open>src/Assignment3/cfork.c\<close>), on the same contexts and page tables.
  \<^item> \<open>Cfork\<close>: \<open>cfork_copy_mm\<close>, \<open>vfork_copy_mm\<close>, \<open>vfork_exit_handle\<close>, \<open>handle_cow_fault\<close>.
  \<^item> \<open>Cfork_Effect\<close>: what the fork does to both page tables and to the reference counts.
  \<^item> \<open>Cow_Fault\<close>: the result of a fault in every case; the first write after a fork, under the explicit
    condition \<open>copy_spares\<close> that the copy to a wrong address in the handler spares the page tables and
    the counts.
  \<^item> \<open>Vfork\<close>: the stack of a child that shares the address space, what it finds there, and its exit.
  The kernel's routines have the laws \<open>tables_ok\<close>, \<open>counts_ok\<close>, \<open>installs_ok\<close>, \<open>fault_ok\<close> and
  \<open>stack_kernel_ok\<close>; \<open>small_kernel\<close> and \<open>stack_kernel\<close> are machines that have them.

  \<^bold>\<open>Files and pipes\<close> (\<open>src/Assignment2/file.c\<close>, \<open>pipe.c\<close>). A heap of file objects and pipes
  under their addresses, and one descriptor table for every process.
  \<^item> \<open>File_Table\<close>: allocation, \<open>generic_close\<close>, \<open>fd_dup\<close>, \<open>fd_dup2\<close>, \<open>do_file_fork\<close>,
    \<open>do_file_exit\<close>, the standard files, and the contract \<open>refs_ok\<close> of the reference counts.
  \<^item> \<open>Pipe\<close>: \<open>create_pipe\<close>, \<open>pipe_read\<close>, \<open>pipe_write\<close> as a queue of bytes between two file objects.
  \<^item> \<open>Regular_File\<close>: \<open>do_regular_file_open\<close>, reading, writing, seeking.
  \<^item> \<open>File_Calls\<close>: sequences of calls by several processes.

  \<^bold>\<open>Hash tables\<close> (\<open>src/Assignment4\<close>, part 3).
  \<^item> \<open>Hash_Table\<close>: the operations of \<open>parallel_hash.c\<close> as one thread executes them, those of
    \<open>serial_hash.c\<close>, and \<open>dump_hash_table\<close>.
  \<^item> \<open>Hash_Map\<close>: the table as a map, the invariant \<open>hash_ok\<close>, what probing finds, and the
    refinement of the operations of a map; where slots are overlooked.
  \<^item> \<open>Bytes\<close>, \<open>Op_Input\<close>: the binary records of \<open>inputgen.c\<close>, \<open>read_op\<close>, and the loop of
    \<open>main.c\<close>; the whole program from the file to its log.
  \<^item> \<open>Parallel_Hash\<close>: the threads of \<open>main.c\<close> on \<open>parallel_hash.c\<close>, in steps that any schedule may
    interleave: one step is a critical section of the input's lock, a look at an entry under its
    lock, or a load or store of one field; \<open>done_one\<close> and the line written to the log are two steps. A
    schedule, \<open>par_run\<close>, is any sequence of steps and of spurious wake-ups of \<open>pthread_cond_wait\<close>.
  \<^item> \<open>Parallel_Table\<close>: what a thread can rely on at each of its positions while others work on
    other keys. \<open>Parallel_Values\<close>: what it has stored in the fields of an entry, and which record's
    value a key has. \<open>Parallel_Invariant\<close>: the invariant of all threads; \<open>Parallel_Operation\<close>,
    \<open>Parallel_Queue\<close>: every step keeps it. \<open>Parallel_Cost\<close>: how many steps are left at most.
  \<^item> \<open>Parallel_Program\<close>: every schedule ends, after a number of steps that depends on the file and on
    the spurious wake-ups, keeps the operations on one key in order and apart,
    writes the lines of the single thread, finds with \<open>GET\<close> the text stored last, and leaves the
    table of the single thread: for every key the id, the length and the address of the text of
    its last \<open>PUT\<close>.
  \<^item> \<open>Input_Gen\<close>: \<open>main\<close> of \<open>inputgen.c\<close> as a function of the random numbers and of the results of its
    system calls, and the file it writes through the program with threads.

  \<^bold>\<open>Reader-writer lock\<close> (part 2): \<open>RwLock\<close> has \<open>rwlock.c\<close> as atomic additions of interleaved
  threads, with mutual exclusion; \<open>RwLock_Client\<close> has \<open>main.c\<close> on top of it, from its argument to the
  numbers it prints.

  \<^bold>\<open>Block hashing\<close> (part 1): \<open>Block_Hash\<close> has \<open>thread_func.c\<close> and \<open>main.c\<close>, from its
  arguments to the lines it prints.

  \<^bold>\<open>Tools\<close> (\<open>src/Assignment1\<close>).
  \<^item> \<open>Dir_Tree\<close>: the system calls on directories and files, as a parameter, and the trees they show.
  \<^item> \<open>Grep\<close>: \<open>part1.c\<close>, the loop over a file with its buffer and the recursion over directories; what
    it prints, and when it leaves its buffer.
  \<^item> \<open>Dir_Size\<close>: \<open>part3.c\<close>, the sum over a directory, and the processes that compute it in parts. Every
    \<open>opendir\<close> and \<open>pipe\<close> takes descriptors, of which a process has a limited number.
  \<^item> \<open>Pipeline\<close>: \<open>part2.c\<close>, the descriptors of the processes, and the bytes that flow between them in
    any order of steps; the file of \<open>tee\<close> may fail to open.

  \<^bold>\<open>Interfaces.\<close> \<open>Prelude\<close> declares the locales: \<open>component\<close>, \<open>checked_component\<close>,
  \<open>safe_component\<close> and \<open>total_component\<close> for a state with operations that keep an invariant,
  do so while their results are good, never fault, or always return; \<open>bounded_refinement\<close> for one
  that behaves like an abstract component while it has room; \<open>shared_objects\<close> for objects under
  reference counts; \<open>bounded_system\<close> for processes that end under every schedule, and
  \<open>disturbed_system\<close> for those that are also woken without a reason; \<open>ending_component\<close> and
  \<open>guarded_component\<close> for operations that end, and that do not depend on an unknown while a guard
  holds. \<open>Pipe\<close> adds \<open>byte_source\<close>, and \<open>Pipeline\<close> has \<open>wired\<close>, what the flow of
  bytes needs of the descriptor tables. They are interpreted on the system calls
  in \<open>Vm_Syscalls\<close> and \<open>File_Calls\<close>, on the tables of \<open>task2\<close> in \<open>Pipeline\<close>,
  on the threads and processes in \<open>Block_Hash\<close>, \<open>Parallel_Program\<close> and \<open>Pipeline\<close>, on the file objects in \<open>File_Table\<close>, on the pipes in
  \<open>Pipe\<close> and on the hash table in \<open>Hash_Map\<close>.

  \<^bold>\<open>Conventions.\<close> A routine returns, hangs in a loop whose exit it cannot reach, or faults on a
  bad pointer or an access outside of an array: the type \<open>run\<close>. Loops with a bound are
  recursive functions with a termination proof; the others are partial functions into
  \<open>option\<close>, and the theorems say when they return. No fuel is used. The allocation of an area
  is taken to succeed, as the code does.

  \<^bold>\<open>Not in the repository, and so parameters of the model:\<close> the headers with the macros
  (\<open>mm_config\<close>, \<open>file_macros\<close>), the paging routines and page
  counts (\<open>mmu\<close>, \<open>kernel\<close>, \<open>page_macros\<close>), the page allocator (\<open>allocator\<close>),
  the flat file system (\<open>file_system\<close>), the directories and files of a machine
  (\<open>file_tree\<close>), random numbers, uninitialised memory, and what a freed area looks like (\<open>freed_view\<close>).

  \<^bold>\<open>Not modelled:\<close> the mutexes and the condition variable themselves, and reordering of memory
  accesses, which \<open>Parallel_Hash\<close> takes to be sequentially consistent; how \<open>pthread_create\<close> starts
  a thread, timing and formatting of the output of the programs of \<open>src/Assignment4\<close>; the programs the pipeline
  starts; \<open>do_read_kbd\<close> and \<open>do_write_console\<close>, which only call drivers; the empty functions of
  the problem statement.
\<close>

end
